(* ===== verification/Durable_Prelude.thy ===== *)
theory Durable_Prelude
  imports
    Main
    "HOL-Library.Char_ord"
    "HOL-Library.List_Lexorder"
    "HOL-Library.Product_Lexorder"
    "HOL-Library.Sublist"
    "HOL-Library.Word"
begin

text \<open>
  Shared vocabulary of the development: the types that name Go and PostgreSQL
  values, the list functions that stand for the relational operations the SQL
  statements are built from (\<open>UPDATE \<dots> WHERE\<close>, \<open>SELECT \<dots> ORDER BY \<dots> LIMIT\<close>,
  a lookup by primary key), and the generic facts about them that every
  component uses.
\<close>

section \<open>Types and collections\<close>

text \<open>
  A Go \<open>string\<close> is a sequence of bytes, so it is a \<^typ>\<open>string\<close> (each \<^typ>\<open>char\<close> is
  a byte).  A \<open>time.Duration\<close> counts nanoseconds.  A \<open>time.Time\<close> is the number of
  nanoseconds since the epoch, a \<open>TIMESTAMPTZ\<close> the number of microseconds (its
  resolution in PostgreSQL).  A UUID is its canonical text, whose byte order is the
  order of the \<open>uuid\<close> type.
\<close>

type_synonym duration = int
type_synonym gotime = int
type_synonym timestamptz = int
type_synonym uuid = string

named_theorems go_defs \<open>definitions of the Go helpers\<close>
named_theorems stmt_defs \<open>definitions of the SQL statements\<close>
named_theorems row_simps \<open>what a statement does to one row\<close>

definition Nanosecond :: duration where "Nanosecond = 1"
definition Microsecond :: duration where "Microsecond = 1000"
definition Millisecond :: duration where "Millisecond = 1000000"
definition Second :: duration where "Second = 1000000000"
definition Minute :: duration where "Minute = 60000000000"
definition Hour :: duration where "Hour = 3600000000000"

lemmas duration_units = Nanosecond_def Microsecond_def Millisecond_def Second_def
  Minute_def Hour_def

text \<open>\<open>Duration.Milliseconds\<close> divides by one million; Go's division truncates towards zero.\<close>

definition milliseconds :: "duration \<Rightarrow> int" where
  "milliseconds d = sgn d * (\<bar>d\<bar> div 1000000)"

text \<open>\<open>k * INTERVAL '1 millisecond'\<close>, in the microseconds of a timestamp.\<close>

definition interval_ms :: "int \<Rightarrow> int" where
  "interval_ms k = k * 1000"

section \<open>Relational operations on lists of rows\<close>

definition update_where :: "('r \<Rightarrow> bool) \<Rightarrow> ('r \<Rightarrow> 'r) \<Rightarrow> 'r list \<Rightarrow> 'r list" where
  "update_where p f rs = map (\<lambda>r. if p r then f r else r) rs"

definition count_where :: "('r \<Rightarrow> bool) \<Rightarrow> 'r list \<Rightarrow> nat" where
  "count_where p rs = length (filter p rs)"

definition select_limit :: "('r \<Rightarrow> 'k::linorder) \<Rightarrow> nat \<Rightarrow> ('r \<Rightarrow> bool) \<Rightarrow> 'r list \<Rightarrow> 'r list" where
  "select_limit key n p rs = take n (sort_key key (filter p rs))"

definition row_with :: "('r \<Rightarrow> 'k) \<Rightarrow> 'k \<Rightarrow> 'r list \<Rightarrow> 'r option" where
  "row_with key k rs = find (\<lambda>r. key r = k) rs"

subsection \<open>Lookups by key\<close>

lemma row_with_Nil [simp]: "row_with key k [] = None"
  by (simp add: row_with_def)

lemma row_with_Cons [simp]:
  "row_with key k (r # rs) = (if key r = k then Some r else row_with key k rs)"
  by (simp add: row_with_def)

lemma row_with_SomeD: "row_with key k rs = Some r \<Longrightarrow> r \<in> set rs \<and> key r = k"
  by (induction rs) (auto split: if_splits)

lemma row_with_None_iff: "row_with key k rs = None \<longleftrightarrow> k \<notin> key ` set rs"
  by (induction rs) auto

lemma row_with_distinct:
  "distinct (map key rs) \<Longrightarrow> r \<in> set rs \<Longrightarrow> row_with key (key r) rs = Some r"
  by (induction rs) (auto simp: rev_image_eqI)

lemma row_with_iff:
  "distinct (map key rs) \<Longrightarrow> row_with key k rs = Some r \<longleftrightarrow> r \<in> set rs \<and> key r = k"
  using row_with_distinct row_with_SomeD by metis

lemma row_with_append:
  "row_with key k (rs @ ss) =
     (case row_with key k rs of Some r \<Rightarrow> Some r | None \<Rightarrow> row_with key k ss)"
  by (induction rs) auto

subsection \<open>Updates\<close>

lemma update_where_Nil [simp]: "update_where p f [] = []"
  by (simp add: update_where_def)

lemma update_where_Cons [simp]:
  "update_where p f (r # rs) = (if p r then f r else r) # update_where p f rs"
  by (simp add: update_where_def)

lemma length_update_where [simp]: "length (update_where p f rs) = length rs"
  by (simp add: update_where_def)

lemma set_update_where: "set (update_where p f rs) = (\<lambda>r. if p r then f r else r) ` set rs"
  by (simp add: update_where_def)

lemma update_where_none: "(\<And>r. r \<in> set rs \<Longrightarrow> \<not> p r) \<Longrightarrow> update_where p f rs = rs"
  by (induction rs) auto

lemma map_update_where_key:
  "(\<And>r. key (f r) = key r) \<Longrightarrow> map key (update_where p f rs) = map key rs"
  by (induction rs) auto

lemma row_with_update_where:
  assumes "\<And>r. key (f r) = key r"
  shows "row_with key k (update_where p f rs) =
     map_option (\<lambda>r. if p r then f r else r) (row_with key k rs)"
  using assms by (induction rs) auto

lemma count_where_zero: "count_where p rs = 0 \<longleftrightarrow> (\<forall>r \<in> set rs. \<not> p r)"
  by (simp add: count_where_def filter_empty_conv)

lemma count_where_pos: "0 < count_where p rs \<longleftrightarrow> (\<exists>r \<in> set rs. p r)"
  using count_where_zero [of p rs] by auto

lemma update_where_count_zero: "count_where p rs = 0 \<Longrightarrow> update_where p f rs = rs"
  by (rule update_where_none) (simp add: count_where_zero)

lemma count_where_unique:
  assumes "distinct (map key rs)" and "\<And>r. p r \<Longrightarrow> key r = k"
  shows "count_where p rs \<le> 1"
  using assms(1)
proof (induction rs)
  case Nil
  then show ?case by (simp add: count_where_def)
next
  case (Cons r rs)
  show ?case
  proof (cases "p r")
    case True
    then have "\<forall>s \<in> set rs. \<not> p s"
      using Cons.prems assms(2) by force
    then have "count_where p rs = 0" by (simp add: count_where_zero)
    then show ?thesis by (simp add: count_where_def)
  next
    case False
    then show ?thesis using Cons by (simp add: count_where_def)
  qed
qed

subsection \<open>Ordered, limited selections\<close>

lemma set_select_limit: "set (select_limit key n p rs) \<subseteq> {r \<in> set rs. p r}"
  using set_take_subset [of n "sort_key key (filter p rs)"] by (auto simp: select_limit_def)

lemma select_limitD: "r \<in> set (select_limit key n p rs) \<Longrightarrow> r \<in> set rs \<and> p r"
  using set_select_limit by fastforce

lemma length_select_limit: "length (select_limit key n p rs) = min n (count_where p rs)"
  by (simp add: select_limit_def count_where_def)

lemma select_limit_all: "count_where p rs \<le> n \<Longrightarrow> set (select_limit key n p rs) = {r \<in> set rs. p r}"
  by (simp add: select_limit_def count_where_def)

lemma distinct_select_limit:
  assumes "distinct (map g rs)"
  shows "distinct (map g (select_limit key n p rs))"
proof -
  have "distinct (map g (filter p rs))" using assms by (rule distinct_map_filter)
  then have "distinct (map g (sort_key key (filter p rs)))"
    by (metis distinct_map distinct_sort set_sort)
  then show ?thesis
    unfolding select_limit_def by (metis distinct_take take_map)
qed

text \<open>The selection takes the smallest keys: nothing left out comes before anything taken.\<close>

lemma select_limit_smallest:
  assumes "r \<in> set (select_limit key n p rs)"
    and "s \<in> set rs" and "p s" and "s \<notin> set (select_limit key n p rs)"
  shows "key r \<le> key s"
proof -
  let ?xs = "sort_key key (filter p rs)"
  have s: "s \<in> set (drop n ?xs)"
  proof -
    have "s \<in> set (take n ?xs @ drop n ?xs)" using assms(2,3) by simp
    then have "s \<in> set (take n ?xs) \<union> set (drop n ?xs)" by (metis set_append)
    with assms(4) show ?thesis by (simp add: select_limit_def)
  qed
  have "sorted (map key (take n ?xs @ drop n ?xs))"
    by (metis append_take_drop_id sorted_sort_key)
  then have "\<forall>x \<in> set (take n ?xs). \<forall>y \<in> set (drop n ?xs). key x \<le> key y"
    unfolding map_append by (simp add: sorted_append)
  with assms(1) s show ?thesis by (simp add: select_limit_def)
qed

section \<open>Sequences of fallible commands\<close>

text \<open>Commands run in order; the first error (a Go panic or error return) ends the run.\<close>

fun run_cmds :: "('s \<Rightarrow> 'c \<Rightarrow> 'e + 's) \<Rightarrow> 's \<Rightarrow> 'c list \<Rightarrow> 'e + 's" where
  "run_cmds step s [] = Inr s"
| "run_cmds step s (c # cs) = (case step s c of Inl e \<Rightarrow> Inl e | Inr t \<Rightarrow> run_cmds step t cs)"

locale command_invariant =
  fixes step :: "'s \<Rightarrow> 'c \<Rightarrow> 'e + 's"
    and inv :: "'s \<Rightarrow> bool"
  assumes step_inv: "inv s \<Longrightarrow> step s c = Inr t \<Longrightarrow> inv t"
begin

lemma run_inv: "inv s \<Longrightarrow> run_cmds step s cs = Inr t \<Longrightarrow> inv t"
  by (induction cs arbitrary: s) (auto split: sum.splits dest: step_inv)

end

section \<open>Transition systems\<close>

text \<open>
  An invariant of a step relation, and a preorder that every step from an invariant state
  respects: both hold along whole executions.
\<close>

locale transition_invariant =
  fixes step :: "'s \<Rightarrow> 's \<Rightarrow> bool"
    and inv :: "'s \<Rightarrow> bool"
  assumes step_inv: "inv s \<Longrightarrow> step s t \<Longrightarrow> inv t"
begin

lemma steps_inv: "step\<^sup>*\<^sup>* s t \<Longrightarrow> inv s \<Longrightarrow> inv t"
  by (induction rule: rtranclp_induct) (auto intro: step_inv)

end

locale transition_preorder = transition_invariant step inv
  for step :: "'s \<Rightarrow> 's \<Rightarrow> bool" and inv :: "'s \<Rightarrow> bool" +
  fixes rel :: "'s \<Rightarrow> 's \<Rightarrow> bool"
  assumes rel_refl: "rel s s"
    and rel_trans: "rel s t \<Longrightarrow> rel t u \<Longrightarrow> rel s u"
    and step_rel: "inv s \<Longrightarrow> step s t \<Longrightarrow> rel s t"
begin

lemma steps_rel: "step\<^sup>*\<^sup>* s t \<Longrightarrow> inv s \<Longrightarrow> rel s t"
proof (induction rule: rtranclp_induct)
  case base
  show ?case by (rule rel_refl)
next
  case (step t u)
  then show ?case using steps_inv step_rel rel_trans by blast
qed

end

end
