(* ===== verification/Go_Text.thy ===== *)
theory Go_Text
  imports Durable_Prelude
begin

text \<open>
  The text functions of the repository over byte strings: the parts of Go's
  \<open>unicode/utf8\<close> and \<open>strings\<close> packages it calls, \<open>quoteIdentifier\<close> and the schema
  pattern of \<open>engine.go\<close>, and \<open>sanitizeError\<close> of \<open>worker.go\<close>.  The lemmas show that
  trimming is idempotent and leaves no white space at either end, that quoting is
  undone by the lexical rule of SQL's delimited identifiers, and that
  \<open>sanitizeError\<close> always yields text that PostgreSQL accepts.
\<close>

section \<open>UTF-8\<close>

abbreviation byte :: "char \<Rightarrow> nat" where "byte c \<equiv> of_char c"

definition in_range :: "nat \<Rightarrow> nat \<Rightarrow> char \<Rightarrow> bool" where
  "in_range lo hi c \<longleftrightarrow> lo \<le> byte c \<and> byte c \<le> hi"

text \<open>A continuation byte; \<open>utf8.RuneStart\<close> is its negation.\<close>

definition cont :: "char \<Rightarrow> bool" where
  "cont c \<longleftrightarrow> in_range 128 191 c"

definition RuneStart :: "char \<Rightarrow> bool" where
  "RuneStart c \<longleftrightarrow> \<not> cont c"

definition lead3 :: "char \<Rightarrow> char \<Rightarrow> bool" where
  "lead3 a b \<longleftrightarrow>
     byte a = 224 \<and> in_range 160 191 b
   \<or> in_range 225 239 a \<and> byte a \<noteq> 237 \<and> cont b
   \<or> byte a = 237 \<and> in_range 128 159 b"

definition lead4 :: "char \<Rightarrow> char \<Rightarrow> bool" where
  "lead4 a b \<longleftrightarrow>
     byte a = 240 \<and> in_range 144 191 b
   \<or> in_range 241 243 a \<and> cont b
   \<or> byte a = 244 \<and> in_range 128 143 b"

text \<open>
  The width of the well-formed encoding at the start of a byte string, 0 where
  \<open>utf8.DecodeRuneInString\<close> reports an invalid byte (\<open>RuneError\<close> of width 1) or the
  string is empty.
\<close>

fun rune1 :: "string \<Rightarrow> bool" where
  "rune1 (a # _) = (byte a < 128)"
| "rune1 _ = False"

fun rune2 :: "string \<Rightarrow> bool" where
  "rune2 (a # b # _) = (in_range 194 223 a \<and> cont b)"
| "rune2 _ = False"

fun rune3 :: "string \<Rightarrow> bool" where
  "rune3 (a # b # c # _) = (lead3 a b \<and> cont c)"
| "rune3 _ = False"

fun rune4 :: "string \<Rightarrow> bool" where
  "rune4 (a # b # c # d # _) = (lead4 a b \<and> cont c \<and> cont d)"
| "rune4 _ = False"

definition rune_len :: "string \<Rightarrow> nat" where
  "rune_len s =
     (if rune1 s then 1 else if rune2 s then 2 else if rune3 s then 3
      else if rune4 s then 4 else 0)"

fun_cases rune1E: "rune1 s"
fun_cases rune2E: "rune2 s"
fun_cases rune3E: "rune3 s"
fun_cases rune4E: "rune4 s"

lemmas runeE = rune1E rune2E rune3E rune4E

lemma rune_len_le_length: "rune_len s \<le> length s"
  by (auto simp: rune_len_def elim: runeE)

lemma rune_len_le_4: "rune_len s \<le> 4"
  by (simp add: rune_len_def)

lemma rune_len_Nil [simp]: "rune_len [] = 0"
  by (simp add: rune_len_def)

function valid_utf8 :: "string \<Rightarrow> bool" where
  "valid_utf8 s =
     (if s = [] then True
      else if rune_len s = 0 then False
      else valid_utf8 (drop (rune_len s) s))"
  by pat_completeness auto
termination
  by (relation "measure length") (auto simp: diff_less)

declare valid_utf8.simps [simp del]

text \<open>
  \<open>strings.ToValidUTF8\<close>: each maximal run of invalid bytes becomes one replacement.
  The flag is the loop's \<open>invalid\<close>.
\<close>

function to_valid :: "string \<Rightarrow> bool \<Rightarrow> string \<Rightarrow> string" where
  "to_valid rep invalid s =
     (if s = [] then []
      else if rune_len s = 0
        then (if invalid then [] else rep) @ to_valid rep True (tl s)
        else take (rune_len s) s @ to_valid rep False (drop (rune_len s) s))"
  by pat_completeness auto
termination
  by (relation "measure (\<lambda>(rep, invalid, s). length s)") auto

declare to_valid.simps [simp del]

definition ToValidUTF8 :: "string \<Rightarrow> string \<Rightarrow> string" where
  "ToValidUTF8 s rep = to_valid rep False s"

text \<open>\<open>strings.ReplaceAll\<close> with a one-byte pattern.\<close>

definition replace_byte :: "char \<Rightarrow> string \<Rightarrow> string \<Rightarrow> string" where
  "replace_byte old new s = concat (map (\<lambda>c. if c = old then new else [c]) s)"

definition replacement_char :: string where
  "replacement_char = [CHR 0xEF, CHR 0xBF, CHR 0xBD]"

section \<open>White space\<close>

text \<open>The UTF-8 encodings of the code points for which \<open>unicode.IsSpace\<close> holds.\<close>

definition space_runes :: "string list" where
  "space_runes =
     [[CHR 0x09], [CHR 0x0A], [CHR 0x0B], [CHR 0x0C], [CHR 0x0D], [CHR 0x20],
      [CHR 0xC2, CHR 0x85], [CHR 0xC2, CHR 0xA0], [CHR 0xE1, CHR 0x9A, CHR 0x80],
      [CHR 0xE2, CHR 0x80, CHR 0x80], [CHR 0xE2, CHR 0x80, CHR 0x81],
      [CHR 0xE2, CHR 0x80, CHR 0x82], [CHR 0xE2, CHR 0x80, CHR 0x83],
      [CHR 0xE2, CHR 0x80, CHR 0x84], [CHR 0xE2, CHR 0x80, CHR 0x85],
      [CHR 0xE2, CHR 0x80, CHR 0x86], [CHR 0xE2, CHR 0x80, CHR 0x87],
      [CHR 0xE2, CHR 0x80, CHR 0x88], [CHR 0xE2, CHR 0x80, CHR 0x89],
      [CHR 0xE2, CHR 0x80, CHR 0x8A], [CHR 0xE2, CHR 0x80, CHR 0xA8],
      [CHR 0xE2, CHR 0x80, CHR 0xA9], [CHR 0xE2, CHR 0x80, CHR 0xAF],
      [CHR 0xE2, CHR 0x81, CHR 0x9F], [CHR 0xE3, CHR 0x80, CHR 0x80]]"

function trim_left :: "string list \<Rightarrow> string \<Rightarrow> string" where
  "trim_left encs s =
     (case find (\<lambda>e. e \<noteq> [] \<and> prefix e s) encs of
        None \<Rightarrow> s
      | Some e \<Rightarrow> trim_left encs (drop (length e) s))"
  by pat_completeness auto
termination
proof (relation "measure (\<lambda>(encs, s). length s)")
  fix encs s e
  assume "find (\<lambda>e. e \<noteq> [] \<and> prefix e s) encs = Some e"
  then have "e \<noteq> []" "prefix e s" by (auto simp: find_Some_iff)
  then have "0 < length e" "length e \<le> length s" by (auto dest: prefix_length_le)
  then show "((encs, drop (length e) s), encs, s) \<in> measure (\<lambda>(encs, s). length s)"
    by (simp add: diff_less del: length_greater_0_conv)
qed simp

declare trim_left.simps [simp del]

definition trim_right :: "string list \<Rightarrow> string \<Rightarrow> string" where
  "trim_right encs s = rev (trim_left (map rev encs) (rev s))"

definition TrimSpace :: "string \<Rightarrow> string" where
  "TrimSpace s = trim_right space_runes (trim_left space_runes s)"

section \<open>Identifiers and numbers\<close>

definition quoteIdentifier :: "string \<Rightarrow> string" where
  "quoteIdentifier v = CHR 0x22 # replace_byte (CHR 0x22) [CHR 0x22, CHR 0x22] v @ [CHR 0x22]"

text \<open>
  SQL's rule for a delimited identifier: after the opening quote, a doubled quote
  stands for one, a single quote ends the identifier.  The result is the identifier
  and the rest of the statement.
\<close>

fun scan_quoted :: "string \<Rightarrow> (string \<times> string) option" where
  "scan_quoted [] = None"
| "scan_quoted (c # s) =
     (if c \<noteq> CHR 0x22 then map_option (\<lambda>(i, r). (c # i, r)) (scan_quoted s)
      else (case s of
              [] \<Rightarrow> Some ([], [])
            | d # s' \<Rightarrow>
                if d = CHR 0x22 then map_option (\<lambda>(i, r). (c # i, r)) (scan_quoted s')
                else Some ([], s)))"

definition delimited_identifier :: "string \<Rightarrow> (string \<times> string) option" where
  "delimited_identifier s =
     (case s of [] \<Rightarrow> None | c # s' \<Rightarrow> if c = CHR 0x22 then scan_quoted s' else None)"

definition ident_start :: "char \<Rightarrow> bool" where
  "ident_start c \<longleftrightarrow> in_range 65 90 c \<or> in_range 97 122 c \<or> c = CHR ''_''"

definition ident_char :: "char \<Rightarrow> bool" where
  "ident_char c \<longleftrightarrow> ident_start c \<or> in_range 48 57 c"

text \<open>\<open>identPattern\<close>: \<^verbatim>\<open>^[A-Za-z_][A-Za-z0-9_]*$\<close>.\<close>

definition identPattern :: "string \<Rightarrow> bool" where
  "identPattern s \<longleftrightarrow> (case s of [] \<Rightarrow> False | c # cs \<Rightarrow> ident_start c \<and> list_all ident_char cs)"

text \<open>The \<open>%d\<close> verb on a nonnegative number.\<close>

definition digit :: "nat \<Rightarrow> char" where
  "digit n = ''0123456789'' ! n"

fun itoa :: "nat \<Rightarrow> string" where
  "itoa n = (if n < 10 then [digit n] else itoa (n div 10) @ [digit (n mod 10)])"

declare itoa.simps [simp del]

section \<open>sanitizeError\<close>

definition maxErrorLength :: nat where "maxErrorLength = 4000"

text \<open>The loop \<open>for end > 0 && !utf8.RuneStart(msg[end]) { end-- }\<close>.\<close>

fun cut_back :: "string \<Rightarrow> nat \<Rightarrow> nat" where
  "cut_back msg 0 = 0"
| "cut_back msg (Suc n) = (if RuneStart (msg ! Suc n) then Suc n else cut_back msg n)"

definition sanitizeError :: "string \<Rightarrow> string" where
  "sanitizeError msg0 =
     (let msg = replace_byte (CHR 0x00) replacement_char (ToValidUTF8 msg0 replacement_char)
      in if length msg \<le> maxErrorLength then msg
         else take (cut_back msg maxErrorLength) msg)"

text \<open>What a PostgreSQL \<open>TEXT\<close> value may hold: well-formed UTF-8 without NUL.\<close>

definition text_ok :: "string \<Rightarrow> bool" where
  "text_ok s \<longleftrightarrow> valid_utf8 s \<and> CHR 0x00 \<notin> set s"

section \<open>Facts about UTF-8\<close>

lemma byte_eq_iff: "byte c = byte d \<longleftrightarrow> c = d"
  by (metis char_of_char)

lemma byte_NUL: "byte c = 0 \<longleftrightarrow> c = CHR 0x00"
proof -
  have "byte (CHR 0x00) = 0" by simp
  then show ?thesis using byte_eq_iff [of c "CHR 0x00"] by simp
qed

lemma rune_len_cases:
  assumes "0 < rune_len s"
  obtains
    (one) a r where "s = a # r" "byte a < 128" "rune_len s = 1"
  | (two) a b r where "s = a # b # r" "194 \<le> byte a" "cont b" "rune_len s = 2"
  | (three) a b c r where "s = a # b # c # r" "224 \<le> byte a" "cont b" "cont c" "rune_len s = 3"
  | (four) a b c d r where "s = a # b # c # d # r" "240 \<le> byte a" "cont b" "cont c" "cont d"
      "rune_len s = 4"
proof -
  consider "rune1 s" | "\<not> rune1 s" "rune2 s" | "\<not> rune1 s" "\<not> rune2 s" "rune3 s"
    | "\<not> rune1 s" "\<not> rune2 s" "\<not> rune3 s" "rune4 s"
    using assms by (auto simp: rune_len_def split: if_splits)
  then show thesis
  proof cases
    case 1
    then show thesis by (auto elim!: rune1E simp: rune_len_def intro!: one)
  next
    case 2
    then show thesis by (auto elim!: rune2E simp: rune_len_def in_range_def intro!: two)
  next
    case 3
    then show thesis
      by (auto elim!: rune3E simp: rune_len_def in_range_def lead3_def cont_def intro!: three)
  next
    case 4
    then show thesis
      by (auto elim!: rune4E simp: rune_len_def in_range_def lead4_def cont_def intro!: four)
  qed
qed

lemma rune_mono:
  "rune1 x \<Longrightarrow> rune1 (x @ y)" "rune2 x \<Longrightarrow> rune2 (x @ y)"
  "rune3 x \<Longrightarrow> rune3 (x @ y)" "rune4 x \<Longrightarrow> rune4 (x @ y)"
  by (auto elim!: runeE)

text \<open>The leading byte decides the width, so at most one of the four forms matches.\<close>

lemma rune_lead:
  "rune1 s \<Longrightarrow> byte (hd s) < 128"
  "rune2 s \<Longrightarrow> 194 \<le> byte (hd s) \<and> byte (hd s) \<le> 223"
  "rune3 s \<Longrightarrow> 224 \<le> byte (hd s) \<and> byte (hd s) \<le> 239"
  "rune4 s \<Longrightarrow> 240 \<le> byte (hd s)"
  by (erule rune1E rune2E rune3E rune4E; fastforce simp: in_range_def lead3_def lead4_def)+

lemma rune_excl:
  "rune1 s \<Longrightarrow> \<not> rune2 s \<and> \<not> rune3 s \<and> \<not> rune4 s"
  "rune2 s \<Longrightarrow> \<not> rune1 s \<and> \<not> rune3 s \<and> \<not> rune4 s"
  "rune3 s \<Longrightarrow> \<not> rune1 s \<and> \<not> rune2 s \<and> \<not> rune4 s"
  "rune4 s \<Longrightarrow> \<not> rune1 s \<and> \<not> rune2 s \<and> \<not> rune3 s"
  using rune_lead [of s] by linarith+

lemma rune_len_of:
  "rune1 s \<Longrightarrow> rune_len s = 1" "rune2 s \<Longrightarrow> rune_len s = 2"
  "rune3 s \<Longrightarrow> rune_len s = 3" "rune4 s \<Longrightarrow> rune_len s = 4"
  by (frule rune_excl, simp add: rune_len_def)+

lemma rune_len_pos: "0 < rune_len s \<longleftrightarrow> rune1 s \<or> rune2 s \<or> rune3 s \<or> rune4 s"
  by (simp add: rune_len_def)

lemma rune_len_append: "0 < rune_len x \<Longrightarrow> rune_len (x @ y) = rune_len x"
  unfolding rune_len_pos by (elim disjE) (simp_all add: rune_mono rune_len_of)

lemma rune_take:
  "rune1 s \<Longrightarrow> rune1 (take (Suc 0) s)" "rune2 s \<Longrightarrow> rune2 (take 2 s)"
  "rune3 s \<Longrightarrow> rune3 (take 3 s)" "rune4 s \<Longrightarrow> rune4 (take 4 s)"
  by (auto elim!: runeE)

lemma rune_len_take: "0 < rune_len s \<Longrightarrow> rune_len (take (rune_len s) s) = rune_len s"
  unfolding rune_len_pos by (elim disjE) (simp_all add: rune_take rune_len_of)

lemma cont_high: "cont c \<Longrightarrow> 128 \<le> byte c"
  by (simp add: cont_def in_range_def)

lemma rune_tail_cont: "0 < i \<Longrightarrow> i < rune_len s \<Longrightarrow> cont (s ! i)"
  by (rule rune_len_cases [of s]) (auto simp: less_Suc_eq numeral_eq_Suc)

lemma rune_head_start: "0 < rune_len s \<Longrightarrow> RuneStart (s ! 0)"
  by (erule rune_len_cases) (auto simp: RuneStart_def cont_def in_range_def)

lemma rune_wide_high: "1 < rune_len s \<Longrightarrow> i < rune_len s \<Longrightarrow> 128 \<le> byte (s ! i)"
  by (rule rune_len_cases [of s]) (auto simp: less_Suc_eq numeral_eq_Suc dest: cont_high)

lemma valid_utf8_Nil [simp]: "valid_utf8 []"
  by (simp add: valid_utf8.simps)

lemma valid_utf8_step:
  "0 < rune_len s \<Longrightarrow> valid_utf8 s \<longleftrightarrow> valid_utf8 (drop (rune_len s) s)"
  by (subst valid_utf8.simps) (auto simp: rune_len_def)

lemma valid_utf8_cases:
  "valid_utf8 s \<Longrightarrow> s \<noteq> [] \<Longrightarrow> 0 < rune_len s \<and> valid_utf8 (drop (rune_len s) s)"
  by (subst (asm) valid_utf8.simps) (auto split: if_splits)

lemma valid_utf8_append: "valid_utf8 x \<Longrightarrow> valid_utf8 y \<Longrightarrow> valid_utf8 (x @ y)"
proof (induction x rule: valid_utf8.induct)
  case (1 x)
  show ?case
  proof (cases "x = []")
    case False
    with "1.prems" have r: "0 < rune_len x" and "valid_utf8 (drop (rune_len x) x)"
      by (simp_all add: valid_utf8_cases)
    with "1.IH" "1.prems"(2) False have "valid_utf8 (drop (rune_len x) x @ y)" by blast
    then show ?thesis
      using r rune_len_le_length [of x] by (simp add: valid_utf8_step rune_len_append)
  qed (use "1.prems" in simp)
qed

lemma valid_utf8_rune: "0 < rune_len s \<Longrightarrow> valid_utf8 (take (rune_len s) s)"
  by (simp add: valid_utf8_step rune_len_take)

lemma valid_replacement_char: "valid_utf8 replacement_char"
proof -
  have "rune_len replacement_char = 3"
    by (simp add: rune_len_def replacement_char_def in_range_def lead3_def cont_def)
  then show ?thesis by (simp add: valid_utf8_step) (simp add: replacement_char_def)
qed

text \<open>Cutting a valid string before a byte that starts a rune leaves a valid string.\<close>

lemma valid_utf8_take:
  "valid_utf8 s \<Longrightarrow> n < length s \<Longrightarrow> RuneStart (s ! n) \<Longrightarrow> valid_utf8 (take n s)"
proof (induction s arbitrary: n rule: valid_utf8.induct)
  case (1 s)
  from "1.prems"(2) have "s \<noteq> []" by auto
  with "1.prems"(1) have r: "0 < rune_len s" and v: "valid_utf8 (drop (rune_len s) s)"
    by (simp_all add: valid_utf8_cases)
  show ?case
  proof (cases "rune_len s \<le> n")
    case True
    let ?k = "rune_len s"
    have "drop ?k s ! (n - ?k) = s ! n" using True rune_len_le_length [of s] by simp
    then have "valid_utf8 (take (n - ?k) (drop ?k s))"
      using "1.IH" \<open>s \<noteq> []\<close> r v "1.prems"(2,3) True by simp
    then have "valid_utf8 (take ?k s @ take (n - ?k) (drop ?k s))"
      using valid_utf8_rune [OF r] by (rule valid_utf8_append [rotated])
    then show ?thesis using True by (metis le_add_diff_inverse take_add)
  next
    case False
    then have "n = 0"
      using rune_tail_cont [of n s] "1.prems"(3) by (auto simp: RuneStart_def)
    then show ?thesis by simp
  qed
qed

lemma valid_to_valid: "valid_utf8 rep \<Longrightarrow> valid_utf8 (to_valid rep invalid s)"
proof (induction rep invalid s rule: to_valid.induct)
  case (1 rep invalid s)
  show ?case
  proof (cases "s = [] \<or> rune_len s = 0")
    case True
    with "1" show ?thesis
      by (auto simp: to_valid.simps [of rep invalid s] intro: valid_utf8_append)
  next
    case False
    with "1" show ?thesis
      by (auto simp: to_valid.simps [of rep invalid s] intro!: valid_utf8_append valid_utf8_rune)
  qed
qed

lemma to_valid_id: "valid_utf8 s \<Longrightarrow> to_valid rep invalid s = s"
proof (induction s arbitrary: invalid rule: valid_utf8.induct)
  case (1 s)
  show ?case
  proof (cases "s = []")
    case False
    with "1.prems" have "0 < rune_len s" "valid_utf8 (drop (rune_len s) s)"
      by (simp_all add: valid_utf8_cases)
    with "1.IH" False show ?thesis by (simp add: to_valid.simps [of rep invalid s])
  qed (simp add: to_valid.simps)
qed

lemma replace_byte_append [simp]:
  "replace_byte o' n (x @ y) = replace_byte o' n x @ replace_byte o' n y"
  by (simp add: replace_byte_def)

lemma replace_byte_Nil [simp]: "replace_byte o' n [] = []"
  by (simp add: replace_byte_def)

lemma replace_byte_Cons:
  "replace_byte o' n (c # s) = (if c = o' then n else [c]) @ replace_byte o' n s"
  by (simp add: replace_byte_def)

lemma replace_byte_notin: "o' \<notin> set s \<Longrightarrow> replace_byte o' n s = s"
  by (induction s) (auto simp: replace_byte_Cons)

lemma set_replace_byte: "o' \<notin> set n \<Longrightarrow> o' \<notin> set (replace_byte o' n s)"
  by (induction s) (auto simp: replace_byte_Cons)

lemma valid_replace_NUL:
  assumes "valid_utf8 rep"
  shows "valid_utf8 s \<Longrightarrow> valid_utf8 (replace_byte (CHR 0x00) rep s)"
proof (induction s rule: valid_utf8.induct)
  case (1 s)
  show ?case
  proof (cases "s = []")
    case False
    let ?k = "rune_len s"
    from False "1.prems" have r: "0 < ?k" and v: "valid_utf8 (drop ?k s)"
      by (simp_all add: valid_utf8_cases)
    have head: "valid_utf8 (replace_byte (CHR 0x00) rep (take ?k s))"
    proof (cases "?k = 1")
      case True
      then obtain c s' where s: "s = c # s'" using False by (cases s) auto
      have "valid_utf8 [c]" using valid_utf8_rune [OF r] True s by simp
      with assms s True show ?thesis by (simp add: replace_byte_Cons)
    next
      case wide: False
      have "CHR 0x00 \<notin> set (take ?k s)"
      proof
        assume "CHR 0x00 \<in> set (take ?k s)"
        then obtain i where "i < ?k" "s ! i = CHR 0x00"
          by (auto simp: in_set_conv_nth)
        with wide r rune_wide_high [of s i] show False by simp
      qed
      then show ?thesis using valid_utf8_rune [OF r] by (simp add: replace_byte_notin)
    qed
    have "valid_utf8 (replace_byte (CHR 0x00) rep (drop ?k s))"
      using "1.IH" False r v by blast
    with head have "valid_utf8 (replace_byte (CHR 0x00) rep (take ?k s @ drop ?k s))"
      unfolding replace_byte_append by (rule valid_utf8_append)
    then show ?thesis by simp
  qed simp
qed

lemma cut_back_le: "cut_back msg n \<le> n"
  by (induction n) auto

lemma cut_back_start: "0 < cut_back msg n \<Longrightarrow> RuneStart (msg ! cut_back msg n)"
  by (induction n) (auto split: if_splits)

text \<open>In a valid string a rune starts at most three bytes before any position.\<close>

lemma valid_utf8_start_near:
  "valid_utf8 s \<Longrightarrow> n < length s \<Longrightarrow> \<exists>m. m \<le> n \<and> n < m + 4 \<and> RuneStart (s ! m)"
proof (induction s arbitrary: n rule: valid_utf8.induct)
  case (1 s)
  let ?k = "rune_len s"
  from "1.prems"(2) have "s \<noteq> []" by auto
  with "1.prems"(1) have r: "0 < ?k" and v: "valid_utf8 (drop ?k s)"
    by (simp_all add: valid_utf8_cases)
  show ?case
  proof (cases "?k \<le> n")
    case True
    then have "n - ?k < length (drop ?k s)" using "1.prems"(2) by simp
    then obtain m where "m \<le> n - ?k" "n - ?k < m + 4" "RuneStart (drop ?k s ! m)"
      using "1.IH" \<open>s \<noteq> []\<close> r v by blast
    then show ?thesis
      using True rune_len_le_length [of s] by (intro exI [of _ "?k + m"]) auto
  next
    case False
    have "RuneStart (s ! 0)" using r by (rule rune_head_start)
    with False rune_len_le_4 [of s] show ?thesis by (intro exI [of _ 0]) auto
  qed
qed

lemma cut_back_ge: "m \<le> n \<Longrightarrow> RuneStart (msg ! m) \<Longrightarrow> m \<le> cut_back msg n"
  by (induction n) (auto simp: le_Suc_eq)

section \<open>Facts about trimming\<close>

lemma find_prefix_None:
  "find (\<lambda>e. e \<noteq> [] \<and> prefix e s) encs = None \<longleftrightarrow> (\<forall>e \<in> set encs. e = [] \<or> \<not> prefix e s)"
  by (auto simp: find_None_iff)

lemma trim_left_stop:
  assumes "\<And>e. e \<in> set encs \<Longrightarrow> e = [] \<or> \<not> prefix e s"
  shows "trim_left encs s = s"
proof -
  have "find (\<lambda>e. e \<noteq> [] \<and> prefix e s) encs = None"
    using assms by (simp add: find_prefix_None)
  then show ?thesis by (simp add: trim_left.simps [of encs s])
qed

lemma trim_left_clean: "e \<in> set encs \<Longrightarrow> e \<noteq> [] \<Longrightarrow> \<not> prefix e (trim_left encs s)"
proof (induction encs s rule: trim_left.induct)
  case (1 encs s)
  show ?case
  proof (cases "find (\<lambda>e. e \<noteq> [] \<and> prefix e s) encs")
    case None
    then have "trim_left encs s = s" by (simp add: trim_left.simps [of encs s])
    with None "1.prems" show ?thesis unfolding find_prefix_None by auto
  next
    case (Some d)
    with "1" show ?thesis by (simp add: trim_left.simps [of encs s])
  qed
qed

lemma trim_left_suffix: "suffix (trim_left encs s) s"
proof (induction encs s rule: trim_left.induct)
  case (1 encs s)
  then show ?case
    by (subst trim_left.simps) (auto split: option.splits intro: suffix_order.trans suffix_drop)
qed

lemma trim_right_prefix: "prefix (trim_right encs s) s"
  using trim_left_suffix [of "map rev encs" "rev s"]
  by (simp add: trim_right_def suffix_to_prefix)

lemma trim_right_clean: "e \<in> set encs \<Longrightarrow> e \<noteq> [] \<Longrightarrow> \<not> suffix e (trim_right encs s)"
  using trim_left_clean [of "rev e" "map rev encs" "rev s"]
  by (auto simp: trim_right_def suffix_to_prefix)

lemma trim_right_stop: "(\<And>e. e \<in> set encs \<Longrightarrow> e = [] \<or> \<not> suffix e s) \<Longrightarrow> trim_right encs s = s"
  by (simp add: trim_right_def) (subst trim_left_stop, auto simp: suffix_to_prefix)

lemma TrimSpace_no_leading: "e \<in> set space_runes \<Longrightarrow> \<not> prefix e (TrimSpace s)"
proof
  assume e: "e \<in> set space_runes" and p: "prefix e (TrimSpace s)"
  then have "e \<noteq> []" by (auto simp: space_runes_def)
  have "prefix e (trim_left space_runes s)"
    using p trim_right_prefix prefix_order.trans unfolding TrimSpace_def by blast
  with trim_left_clean [OF e \<open>e \<noteq> []\<close>] show False by blast
qed

lemma TrimSpace_no_trailing: "e \<in> set space_runes \<Longrightarrow> \<not> suffix e (TrimSpace s)"
  using trim_right_clean [of e space_runes] unfolding TrimSpace_def
  by (cases "e = []") (auto simp: space_runes_def)

lemma TrimSpace_idem [simp]: "TrimSpace (TrimSpace s) = TrimSpace s"
proof -
  have "trim_left space_runes (TrimSpace s) = TrimSpace s"
    by (rule trim_left_stop) (simp add: TrimSpace_no_leading)
  moreover have "trim_right space_runes (TrimSpace s) = TrimSpace s"
    by (rule trim_right_stop) (simp add: TrimSpace_no_trailing)
  ultimately show ?thesis by (simp add: TrimSpace_def [of "TrimSpace s"])
qed

lemma TrimSpace_sublist: "sublist (TrimSpace s) s"
  unfolding TrimSpace_def
  by (meson prefix_imp_sublist suffix_imp_sublist sublist_order.order_trans trim_left_suffix trim_right_prefix)

section \<open>Facts about numbers\<close>

lemma digit_inj: "m < 10 \<Longrightarrow> n < 10 \<Longrightarrow> digit m = digit n \<Longrightarrow> m = n"
  unfolding digit_def by (subst (asm) nth_eq_iff_index_eq) auto

lemma digit_in: "n < 10 \<Longrightarrow> digit n \<in> set ''0123456789''"
  unfolding digit_def by (rule nth_mem) simp

lemma itoa_not_Nil [simp]: "itoa n \<noteq> []"
  by (subst itoa.simps) simp

lemma itoa_digits: "set (itoa n) \<subseteq> set ''0123456789''"
proof (induction n rule: itoa.induct)
  case (1 n)
  show ?case
  proof (cases "n < 10")
    case True
    then show ?thesis using digit_in [of n] by (simp add: itoa.simps [of n])
  next
    case False
    with "1" show ?thesis using digit_in [of "n mod 10"] by (simp add: itoa.simps [of n])
  qed
qed

lemma itoa_inj: "itoa m = itoa n \<Longrightarrow> m = n"
proof (induction m arbitrary: n rule: itoa.induct)
  case (1 m)
  have small: "length (itoa k) = 1 \<longleftrightarrow> k < 10" for k
    by (subst itoa.simps) (simp add: le_Suc_eq)
  show ?case
  proof (cases "m < 10")
    case True
    then have "n < 10" using "1.prems" small [of m] small [of n] by simp
    with True "1.prems" show ?thesis
      by (simp add: itoa.simps [of m] itoa.simps [of n] digit_inj)
  next
    case False
    then have n: "\<not> n < 10" using "1.prems" small [of m] small [of n] by simp
    with False "1.prems" have eq: "itoa (m div 10) = itoa (n div 10)"
      and d: "digit (m mod 10) = digit (n mod 10)"
      by (simp_all add: itoa.simps [of m] itoa.simps [of n])
    have "m div 10 = n div 10" using "1.IH" [OF False eq] .
    moreover have "m mod 10 = n mod 10" using d by (rule digit_inj [rotated 2]) simp_all
    ultimately show ?thesis by (metis div_mod_decomp)
  qed
qed

section \<open>Properties\<close>

lemma scan_quoted_replace:
  assumes "rest = [] \<or> hd rest \<noteq> CHR 0x22"
  shows "scan_quoted (replace_byte (CHR 0x22) [CHR 0x22, CHR 0x22] v @ CHR 0x22 # rest) = Some (v, rest)"
proof (induction v)
  case Nil
  with assms show ?case by (cases rest) auto
next
  case (Cons c v)
  then show ?case by (simp add: replace_byte_Cons)
qed

text \<open>a quoted identifier, followed by any text that does not begin with a quote, is
  read back by SQL's delimited-identifier rule as exactly the original name: no schema
  or channel name can break out of its quotes.\<close>

theorem quoteIdentifier_roundtrip:
  assumes "rest = [] \<or> hd rest \<noteq> CHR 0x22"
  shows "delimited_identifier (quoteIdentifier v @ rest) = Some (v, rest)"
  using scan_quoted_replace [OF assms, of v]
  by (simp add: delimited_identifier_def quoteIdentifier_def)

theorem quoteIdentifier_roundtrip_witness:
  "delimited_identifier (quoteIdentifier [CHR ''a'', CHR 0x22, CHR ''b''] @ ''.t'')
     = Some ([CHR ''a'', CHR 0x22, CHR ''b''], ''.t'')"
  by (rule quoteIdentifier_roundtrip) simp

lemma text_ok_clean:
  "text_ok (replace_byte (CHR 0x00) replacement_char (ToValidUTF8 msg replacement_char))"
  unfolding text_ok_def ToValidUTF8_def
  by (intro conjI valid_replace_NUL valid_to_valid valid_replacement_char set_replace_byte)
     (simp add: replacement_char_def)

lemma text_ok_cut:
  assumes "text_ok msg" and "n < length msg"
  shows "text_ok (take (cut_back msg n) msg)"
proof (cases "cut_back msg n = 0")
  case False
  have "cut_back msg n < length msg" using cut_back_le [of msg n] assms(2) by simp
  with False assms(1) have "valid_utf8 (take (cut_back msg n) msg)"
    by (auto simp: text_ok_def intro: valid_utf8_take cut_back_start)
  then show ?thesis using assms(1) by (auto simp: text_ok_def dest: in_set_takeD)
qed (simp add: text_ok_def)

text \<open>C27: whatever bytes an error message holds, \<open>sanitizeError\<close> turns it into text that
  PostgreSQL stores: well-formed UTF-8, no NUL, at most \<open>maxErrorLength\<close> bytes.\<close>

theorem sanitizeError_storable:
  "text_ok (sanitizeError msg) \<and> length (sanitizeError msg) \<le> maxErrorLength"
  using text_ok_clean [of msg] cut_back_le [of _ maxErrorLength]
  by (auto simp: sanitizeError_def Let_def text_ok_cut min_le_iff_disj)

text \<open>a message that is storable already is only ever shortened, never rewritten, and
  loses no more than three bytes beyond the limit (the rune the limit falls into).\<close>

theorem sanitizeError_keeps:
  assumes "text_ok msg"
  shows "prefix (sanitizeError msg) msg \<and>
    (length msg \<le> maxErrorLength \<longrightarrow> sanitizeError msg = msg) \<and>
    (maxErrorLength < length msg \<longrightarrow> maxErrorLength - 3 \<le> length (sanitizeError msg))"
proof -
  have v: "valid_utf8 msg" and "CHR 0x00 \<notin> set msg" using assms by (simp_all add: text_ok_def)
  then have clean: "replace_byte (CHR 0x00) replacement_char (ToValidUTF8 msg replacement_char) = msg"
    by (simp add: ToValidUTF8_def to_valid_id replace_byte_notin)
  have "maxErrorLength - 3 \<le> cut_back msg maxErrorLength" if long: "maxErrorLength < length msg"
  proof -
    obtain m where "m \<le> maxErrorLength" "maxErrorLength < m + 4" "RuneStart (msg ! m)"
      using valid_utf8_start_near [OF v long] by blast
    then show ?thesis using cut_back_ge [of m maxErrorLength msg] by simp
  qed
  then show ?thesis
    using cut_back_le [of msg maxErrorLength]
    by (auto simp: sanitizeError_def clean Let_def take_is_prefix)
qed

theorem sanitizeError_keeps_witness:
  "text_ok ''boom'' \<and> sanitizeError ''boom'' = ''boom''"
proof -
  have ok: "text_ok ''boom''"
    by (simp add: text_ok_def valid_utf8.simps rune_len_def)
  then show ?thesis
    using sanitizeError_keeps [OF ok] by (simp add: maxErrorLength_def)
qed

end
