(* ===== verification/Run_Types.thy ===== *)
theory Run_Types
  imports Go_Text
begin

text \<open>
  The model of \<open>types.go\<close>: run states, the step context with its accessors, enqueue
  and step options; and the JSON values that steps, events and checkpoints carry.  A
  \<open>json.RawMessage\<close> is the value it denotes; the nil message is \<^term>\<open>None\<close>.  The lemmas
  show which of the three answers of \<open>StepContext.Event\<close> a stored wait outcome gives and
  that \<open>IdempotencyKey\<close> identifies one step of one run.
\<close>

section \<open>JSON\<close>

datatype json =
    JNull
  | JBool bool
  | JNum string
  | JStr string
  | JArr "json list"
  | JObj "(string \<times> json) list"

text \<open>The two outcomes a wait checkpoints: \<^verbatim>\<open>{"received": payload}\<close> and \<^verbatim>\<open>"timed_out"\<close>.\<close>

definition received :: "json \<Rightarrow> json" where
  "received payload = JObj [(''received'', payload)]"

definition timed_out :: json where
  "timed_out = JStr ''timed_out''"

text \<open>
  \<open>json.Unmarshal\<close> into \<^verbatim>\<open>struct { Received json.RawMessage `json:"received"` }\<close>: the
  outer option is the decoding error, the inner one the nil field.  Object keys match
  the field name up to ASCII case, and the last match wins; \<open>null\<close> leaves the struct
  as it is; a key whose value is \<open>null\<close> sets the field to the text \<open>null\<close>, not to nil.
\<close>

definition lower :: "char \<Rightarrow> char" where
  "lower c = (if in_range 65 90 c then char_of (byte c + 32) else c)"

fun received_field :: "(string \<times> json) list \<Rightarrow> json option" where
  "received_field [] = None"
| "received_field ((k, v) # kvs) =
     (case received_field kvs of
        Some w \<Rightarrow> Some w
      | None \<Rightarrow> if map lower k = ''received'' then Some v else None)"

fun unmarshal_outcome :: "json \<Rightarrow> json option option" where
  "unmarshal_outcome (JObj kvs) = Some (received_field kvs)"
| "unmarshal_outcome JNull = Some None"
| "unmarshal_outcome _ = None"

text \<open>
  A destination \<open>dst any\<close> is the decoder of its type: what \<open>json.Unmarshal\<close> stores in
  it, or the decoding error.  A nil destination is \<^term>\<open>None\<close>.
\<close>

type_synonym 'v decoder = "json \<Rightarrow> string + 'v"

section \<open>Errors\<close>

text \<open>
  The errors a database statement can end with, and those that the execution of a run
  distinguishes or builds.  Text that \<open>fmt\<close>, a recovered panic or the server renders is
  not part of the value: \<open>failOrRetry\<close> takes it from a rendering function.
\<close>

datatype pg_error =
    UniqueViolation
  | InvalidText
  | InvalidUuid
  | InvalidJson
  | CheckViolation
  | NumericOutOfRange
  | ForeignKeyViolation
  | ConnectionError string

datatype go_error =
    LostLease
  | CtxDone
  | UserError string
  | StepPanicked string string
  | MarshalFailed string string
  | KeyPanicked string
  | EmptyEventKey
  | DbError string pg_error

section \<open>Run states\<close>

type_synonym WorkflowID = string

datatype RunState =
    RunReady | RunLeased | RunWaitingEvent | RunCompleted | RunFailed | RunCancelled

definition Terminal :: "RunState \<Rightarrow> bool" where
  "Terminal s \<longleftrightarrow> s = RunCompleted \<or> s = RunFailed \<or> s = RunCancelled"

record RunStatus =
  st_ID :: WorkflowID
  st_WorkflowName :: string
  st_WorkflowVersion :: int
  st_Queue :: string
  st_State :: RunState
  st_StepIndex :: nat
  st_Attempt :: int
  st_MaxAttempts :: int
  st_LeaseFailures :: int
  st_NextRunAt :: timestamptz
  st_WaitingEventKey :: "string option"
  st_WaitingDeadline :: "timestamptz option"
  st_LastError :: "string option"
  st_CreatedAt :: timestamptz
  st_UpdatedAt :: timestamptz

record CancelOutcome =
  Cancelled :: bool
  outcome_State :: "RunState option" \<comment> \<open>the empty string of the zero value is \<^term>\<open>None\<close>\<close>

section \<open>The step context\<close>

record StepContext =
  RunID :: WorkflowID
  Workflow :: string
  Input :: "json option"
  StepKey :: string
  sc_values :: "json option list"
  sc_names :: "string \<rightharpoonup> nat"

datatype ctx_error =
    NilStepContext
  | DstNil
  | DecodeStepValue string string
  | DecodeEventPayload string string
  | DecodeInputError string
  | NotEventOutcome string
  | StepResultNotFound string

definition sc_raw :: "StepContext \<Rightarrow> string \<Rightarrow> json option" where
  "sc_raw sc name =
     (case sc_names sc name of
        None \<Rightarrow> None
      | Some index \<Rightarrow>
          if length (sc_values sc) \<le> index then None else sc_values sc ! index)"

text \<open>An accessor returns its flag, what it stored in \<open>dst\<close>, and its error.\<close>

definition DecodeInput ::
    "StepContext option \<Rightarrow> 'v decoder \<Rightarrow> 'v option \<times> ctx_error option" where
  "DecodeInput sc dst =
     (case sc of
        None \<Rightarrow> (None, Some NilStepContext)
      | Some c \<Rightarrow>
          (case Input c of
             None \<Rightarrow> (None, None)
           | Some v \<Rightarrow>
               (case dst v of Inl e \<Rightarrow> (None, Some (DecodeInputError e)) | Inr x \<Rightarrow> (Some x, None))))"

definition Value ::
    "StepContext option \<Rightarrow> string \<Rightarrow> 'v decoder option \<Rightarrow> bool \<times> 'v option \<times> ctx_error option" where
  "Value sc step dst =
     (case sc of
        None \<Rightarrow> (False, None, Some NilStepContext)
      | Some c \<Rightarrow>
          (case sc_raw c step of
             None \<Rightarrow> (False, None, None)
           | Some raw \<Rightarrow>
               (case dst of
                  None \<Rightarrow> (True, None, Some DstNil)
                | Some dec \<Rightarrow>
                    (case dec raw of
                       Inl e \<Rightarrow> (False, None, Some (DecodeStepValue step e))
                     | Inr x \<Rightarrow> (True, Some x, None)))))"

definition StepResult ::
    "StepContext option \<Rightarrow> string \<Rightarrow> 'v decoder option \<Rightarrow> 'v option \<times> ctx_error option" where
  "StepResult sc step dst =
     (case Value sc step dst of
        (ok, x, Some e) \<Rightarrow> (x, Some e)
      | (ok, x, None) \<Rightarrow> if \<not> ok then (x, Some (StepResultNotFound step)) else (x, None))"

definition Event ::
    "StepContext option \<Rightarrow> string \<Rightarrow> 'v decoder option \<Rightarrow> bool \<times> 'v option \<times> ctx_error option" where
  "Event sc wait dst =
     (case sc of
        None \<Rightarrow> (False, None, Some NilStepContext)
      | Some c \<Rightarrow>
          (case sc_raw c wait of
             None \<Rightarrow> (False, None, Some (StepResultNotFound wait))
           | Some raw \<Rightarrow>
               if raw = timed_out then (False, None, None)
               else
                 (case unmarshal_outcome raw of
                    None \<Rightarrow> (False, None, Some (NotEventOutcome wait))
                  | Some None \<Rightarrow> (False, None, Some (NotEventOutcome wait))
                  | Some (Some payload) \<Rightarrow>
                      (case dst of
                         None \<Rightarrow> (True, None, None)
                       | Some dec \<Rightarrow>
                           (case dec payload of
                              Inl e \<Rightarrow> (True, None, Some (DecodeEventPayload wait e))
                            | Inr x \<Rightarrow> (True, Some x, None))))))"

definition sc_WorkflowID :: "StepContext option \<Rightarrow> WorkflowID" where
  "sc_WorkflowID sc = (case sc of None \<Rightarrow> '''' | Some c \<Rightarrow> RunID c)"

definition sc_WorkflowName :: "StepContext option \<Rightarrow> string" where
  "sc_WorkflowName sc = (case sc of None \<Rightarrow> '''' | Some c \<Rightarrow> Workflow c)"

definition RawValue :: "StepContext option \<Rightarrow> string \<Rightarrow> json option" where
  "RawValue sc step = (case sc of None \<Rightarrow> None | Some c \<Rightarrow> sc_raw c step)"

definition IdempotencyKey :: "StepContext option \<Rightarrow> string" where
  "IdempotencyKey sc =
     (case sc of
        None \<Rightarrow> ''''
      | Some c \<Rightarrow>
          if RunID c = '''' \<or> StepKey c = '''' then ''''
          else RunID c @ '':'' @ StepKey c)"

text \<open>\<^verbatim>\<open>fmt.Sprintf("%d:%s", index, name)\<close>, the step key that \<open>stepContext\<close> builds.\<close>

definition step_key :: "nat \<Rightarrow> string \<Rightarrow> string" where
  "step_key index name = itoa index @ '':'' @ name"

section \<open>Options\<close>

record enqueueOptions =
  o_runID :: WorkflowID
  o_workflowVersion :: int
  o_queue :: string
  o_maxAttempts :: int
  o_idempotencyKey :: string
  o_scheduledAt :: "timestamptz option"

text \<open>An option is a function on the options; \<^term>\<open>None\<close> is the nil function.\<close>

type_synonym EnqueueOption = "(enqueueOptions \<Rightarrow> enqueueOptions) option"

definition WithWorkflowVersion :: "int \<Rightarrow> EnqueueOption" where
  "WithWorkflowVersion version = Some (\<lambda>o'. o'\<lparr>o_workflowVersion := version\<rparr>)"

definition WithRunID :: "WorkflowID \<Rightarrow> EnqueueOption" where
  "WithRunID i = Some (\<lambda>o'. o'\<lparr>o_runID := i\<rparr>)"

definition WithWorkflowID :: "WorkflowID \<Rightarrow> EnqueueOption" where
  "WithWorkflowID i = WithRunID i"

definition WithQueue :: "string \<Rightarrow> EnqueueOption" where
  "WithQueue q = Some (\<lambda>o'. o'\<lparr>o_queue := q\<rparr>)"

definition WithMaxAttempts :: "int \<Rightarrow> EnqueueOption" where
  "WithMaxAttempts n = Some (\<lambda>o'. o'\<lparr>o_maxAttempts := n\<rparr>)"

definition WithIdempotencyKey :: "string \<Rightarrow> EnqueueOption" where
  "WithIdempotencyKey key = Some (\<lambda>o'. o'\<lparr>o_idempotencyKey := key\<rparr>)"

definition WithDeduplicationKey :: "string \<Rightarrow> EnqueueOption" where
  "WithDeduplicationKey key = WithIdempotencyKey key"

definition WithScheduledAt :: "timestamptz \<Rightarrow> EnqueueOption" where
  "WithScheduledAt at = Some (\<lambda>o'. o'\<lparr>o_scheduledAt := Some at\<rparr>)"

lemmas enqueue_option_defs = WithWorkflowVersion_def WithRunID_def WithWorkflowID_def
  WithQueue_def WithMaxAttempts_def WithIdempotencyKey_def WithDeduplicationKey_def
  WithScheduledAt_def

text \<open>The loop \<^verbatim>\<open>for _, opt := range opts { if opt != nil { opt(&o) } }\<close>.\<close>

fun apply_options :: "('o \<Rightarrow> 'o) option list \<Rightarrow> 'o \<Rightarrow> 'o" where
  "apply_options [] x = x"
| "apply_options (None # opts) x = apply_options opts x"
| "apply_options (Some f # opts) x = apply_options opts (f x)"

record stepOptions =
  so_timeout :: duration

type_synonym StepOption = "(stepOptions \<Rightarrow> stepOptions) option"

definition WithStepTimeout :: "duration \<Rightarrow> StepOption" where
  "WithStepTimeout t = Some (\<lambda>o'. o'\<lparr>so_timeout := t\<rparr>)"

section \<open>Properties\<close>

lemma Terminal_simps [simp]:
  "Terminal RunCompleted" "Terminal RunFailed" "Terminal RunCancelled"
  "\<not> Terminal RunReady" "\<not> Terminal RunLeased" "\<not> Terminal RunWaitingEvent"
  by (simp_all add: Terminal_def)

lemma received_not_timed_out [simp]: "received p \<noteq> timed_out"
  by (simp add: received_def timed_out_def)

lemma unmarshal_received [simp]: "unmarshal_outcome (received p) = Some (Some p)"
  by (simp add: received_def lower_def in_range_def)

lemma unmarshal_timed_out: "unmarshal_outcome timed_out = None"
  by (simp add: timed_out_def)


text \<open>The context of a step after a wait named \<open>paid\<close> at position 0.\<close>

definition example_context :: "json option \<Rightarrow> StepContext" where
  "example_context v =
     \<lparr>RunID = ''r'', Workflow = ''w'', Input = None, StepKey = ''1:next'',
      sc_values = [v], sc_names = [''paid'' \<mapsto> 0]\<rparr>"


lemma split_at_colon:
  assumes "CHR '':'' \<notin> set a" "CHR '':'' \<notin> set b" "a @ '':'' @ x = b @ '':'' @ y"
  shows "a = b \<and> x = y"
  using assms by (induction a arbitrary: b) (auto simp: Cons_eq_append_conv append_eq_Cons_conv)

lemma step_key_inj: "step_key i n = step_key j m \<Longrightarrow> i = j \<and> n = m"
proof -
  assume "step_key i n = step_key j m"
  moreover have "CHR '':'' \<notin> set (itoa k)" for k
    using itoa_digits [of k] by auto
  ultimately have "itoa i = itoa j \<and> n = m"
    unfolding step_key_def by (intro split_at_colon)
  then show ?thesis using itoa_inj by blast
qed

lemma step_key_not_Nil [simp]: "step_key i n \<noteq> []"
  by (simp add: step_key_def)

text \<open>the idempotency key given to a step is a function of the run and the step alone and
  separates them: two contexts of runs with UUID identifiers (no colon) have the same key
  only if they are of the same run, the same position and the same step name.\<close>

theorem IdempotencyKey_injective:
  assumes "StepKey c = step_key i n" "StepKey d = step_key j m"
    and "RunID c \<noteq> ''''" "RunID d \<noteq> ''''"
    and "CHR '':'' \<notin> set (RunID c)" "CHR '':'' \<notin> set (RunID d)"
  shows "IdempotencyKey (Some c) = IdempotencyKey (Some d) \<longleftrightarrow> RunID c = RunID d \<and> i = j \<and> n = m"
proof
  assume "IdempotencyKey (Some c) = IdempotencyKey (Some d)"
  with assms have "RunID c @ '':'' @ step_key i n = RunID d @ '':'' @ step_key j m"
    by (simp add: IdempotencyKey_def)
  with assms(5,6) have "RunID c = RunID d \<and> step_key i n = step_key j m"
    by (rule split_at_colon)
  then show "RunID c = RunID d \<and> i = j \<and> n = m" using step_key_inj by blast
next
  assume "RunID c = RunID d \<and> i = j \<and> n = m"
  with assms show "IdempotencyKey (Some c) = IdempotencyKey (Some d)"
    by (simp add: IdempotencyKey_def)
qed

theorem IdempotencyKey_injective_witness:
  "IdempotencyKey (Some ((example_context None)\<lparr>StepKey := step_key 1 ''charge''\<rparr>))
   \<noteq> IdempotencyKey (Some ((example_context None)\<lparr>StepKey := step_key 11 ''charge''\<rparr>))"
  by (subst IdempotencyKey_injective [where i = 1 and n = "''charge''" and j = 11 and m = "''charge''"])
     (simp_all add: example_context_def)

end
