(* ===== verification/Workflow_Builder.thy ===== *)
theory Workflow_Builder
  imports Run_Types
begin

text \<open>
  The model of \<open>builder.go\<close>: operations, the \<open>Builder\<close> and its four methods, the
  definition types and \<open>compileWorkflow\<close>; and \<open>resolve\<close>, which computes the event key of
  a wait.  A panic is an error value.  User code is a function argument: its
  \<^typ>\<open>nat\<close> argument stands for everything it reads besides the step context (the clock,
  the network, its \<open>context.Context\<close>), so two calls may differ.  The lemmas show that
  compilation accepts exactly the well-formed definitions and what it guarantees of the
  compiled workflow.
\<close>

section \<open>Operations\<close>

type_synonym world = nat

text \<open>A returned value is what \<open>json.Marshal\<close> makes of it: a value, an error or a panic.\<close>

datatype marshal_result = Marshalled json | MarshalError string | MarshalPanic string

datatype fn_result = FnReturn marshal_result | FnError string | FnPanic string

type_synonym StepFunc = "world \<Rightarrow> StepContext \<Rightarrow> fn_result"

datatype key_result = KeyReturn string | KeyError string | KeyPanic string

type_synonym KeyFunc = "world \<Rightarrow> StepContext \<Rightarrow> key_result"

record stepOp =
  step_name :: string
  step_fn :: StepFunc
  step_opts :: stepOptions

record waitEventOp =
  wait_name :: string
  wait_key :: string
  wait_keyFn :: "KeyFunc option"
  wait_timeout :: duration

datatype operation = opStep stepOp | opSleep duration | opWaitEvent waitEventOp

definition resolve :: "waitEventOp \<Rightarrow> world \<Rightarrow> StepContext \<Rightarrow> go_error + string" where
  "resolve op w sc =
     (let key0 = (case wait_keyFn op of
                    Some keyFn \<Rightarrow>
                      (case keyFn w sc of
                         KeyPanic r \<Rightarrow> Inl (KeyPanicked r)
                       | KeyError e \<Rightarrow> Inl (UserError e)
                       | KeyReturn k \<Rightarrow> Inr k)
                  | None \<Rightarrow> Inr (wait_key op))
      in case key0 of
           Inl e \<Rightarrow> Inl e
         | Inr k \<Rightarrow> (let key = TrimSpace k in if key = '''' then Inl EmptyEventKey else Inr key))"

section \<open>The builder\<close>

record Builder =
  b_ops :: "operation list"
  b_stepNames :: "string set"

datatype build_panic =
    NilBuilder
  | NilFunction string
  | NameRequired
  | DuplicateName string
  | NegativeTimeout string
  | SleepNotPositive
  | KeyRequired
  | WaitTimeoutNotPositive
  | NilKeyFunc

definition addName :: "Builder \<Rightarrow> string \<Rightarrow> build_panic + string \<times> Builder" where
  "addName b name0 =
     (let name = TrimSpace name0 in
      if name = '''' then Inl NameRequired
      else if name \<in> b_stepNames b then Inl (DuplicateName name)
      else Inr (name, b\<lparr>b_stepNames := insert name (b_stepNames b)\<rparr>))"

text \<open>The methods take the receiver as an option, \<^term>\<open>None\<close> for a nil \<open>*Builder\<close>.\<close>

definition Step ::
    "Builder option \<Rightarrow> string \<Rightarrow> StepFunc option \<Rightarrow> StepOption list \<Rightarrow> build_panic + Builder" where
  "Step b0 name0 fn opts =
     (case b0 of
        None \<Rightarrow> Inl NilBuilder
      | Some b \<Rightarrow>
          (case fn of
             None \<Rightarrow> Inl (NilFunction name0)
           | Some f \<Rightarrow>
               (case addName b name0 of
                  Inl p \<Rightarrow> Inl p
                | Inr (name, b') \<Rightarrow>
                    (let o' = apply_options opts \<lparr>so_timeout = 0\<rparr> in
                     if so_timeout o' < 0 then Inl (NegativeTimeout name)
                     else Inr (b'\<lparr>b_ops := b_ops b' @
                            [opStep \<lparr>step_name = name, step_fn = f, step_opts = o'\<rparr>]\<rparr>)))))"

definition Sleep :: "Builder option \<Rightarrow> duration \<Rightarrow> build_panic + Builder" where
  "Sleep b0 d =
     (case b0 of
        None \<Rightarrow> Inl NilBuilder
      | Some b \<Rightarrow>
          if d \<le> 0 then Inl SleepNotPositive
          else Inr (b\<lparr>b_ops := b_ops b @ [opSleep d]\<rparr>))"

definition WaitEvent ::
    "Builder option \<Rightarrow> string \<Rightarrow> string \<Rightarrow> duration \<Rightarrow> build_panic + Builder" where
  "WaitEvent b0 name0 key0 timeout =
     (case b0 of
        None \<Rightarrow> Inl NilBuilder
      | Some b \<Rightarrow>
          (let key = TrimSpace key0 in
           if key = '''' then Inl KeyRequired
           else if timeout \<le> 0 then Inl WaitTimeoutNotPositive
           else (case addName b name0 of
                   Inl p \<Rightarrow> Inl p
                 | Inr (name, b') \<Rightarrow>
                     Inr (b'\<lparr>b_ops := b_ops b' @
                       [opWaitEvent \<lparr>wait_name = name, wait_key = key, wait_keyFn = None,
                                     wait_timeout = timeout\<rparr>]\<rparr>))))"

definition WaitEventFunc ::
    "Builder option \<Rightarrow> string \<Rightarrow> KeyFunc option \<Rightarrow> duration \<Rightarrow> build_panic + Builder" where
  "WaitEventFunc b0 name0 keyFn timeout =
     (case b0 of
        None \<Rightarrow> Inl NilBuilder
      | Some b \<Rightarrow>
          (case keyFn of
             None \<Rightarrow> Inl NilKeyFunc
           | Some f \<Rightarrow>
               if timeout \<le> 0 then Inl WaitTimeoutNotPositive
               else (case addName b name0 of
                       Inl p \<Rightarrow> Inl p
                     | Inr (name, b') \<Rightarrow>
                         Inr (b'\<lparr>b_ops := b_ops b' @
                           [opWaitEvent \<lparr>wait_name = name, wait_key = '''', wait_keyFn = Some f,
                                         wait_timeout = timeout\<rparr>]\<rparr>))))"

section \<open>Definitions and their compilation\<close>

text \<open>A build function is the sequence of builder calls it makes.\<close>

datatype build_cmd =
    CStep string "StepFunc option" "StepOption list"
  | CSleep duration
  | CWaitEvent string string duration
  | CWaitEventFunc string "KeyFunc option" duration

fun build_step :: "Builder \<Rightarrow> build_cmd \<Rightarrow> build_panic + Builder" where
  "build_step b (CStep name fn opts) = Step (Some b) name fn opts"
| "build_step b (CSleep d) = Sleep (Some b) d"
| "build_step b (CWaitEvent name key timeout) = WaitEvent (Some b) name key timeout"
| "build_step b (CWaitEventFunc name keyFn timeout) = WaitEventFunc (Some b) name keyFn timeout"

text \<open>
  A \<open>Workflow\<close> value: its \<open>Name()\<close>, its \<open>Version()\<close> where its type has that method, and
  the calls of its \<open>Build\<close>.
\<close>

record Workflow_value =
  wf_Name :: string
  wf_Version :: "int option"
  wf_Build :: "build_cmd list"

text \<open>\<open>workflowDefinition.Build\<close> does nothing when the build function is nil.\<close>

definition DefineWorkflowVersion :: "string \<Rightarrow> int \<Rightarrow> build_cmd list option \<Rightarrow> Workflow_value" where
  "DefineWorkflowVersion name version build =
     \<lparr>wf_Name = name, wf_Version = Some version,
      wf_Build = (case build of None \<Rightarrow> [] | Some cmds \<Rightarrow> cmds)\<rparr>"

definition DefineWorkflow :: "string \<Rightarrow> build_cmd list option \<Rightarrow> Workflow_value" where
  "DefineWorkflow name build = DefineWorkflowVersion name 1 build"

record compiledWorkflow =
  cw_name :: string
  cw_version :: int
  cw_ops :: "operation list"
  cw_names :: "string \<rightharpoonup> nat"
  cw_outputIndex :: "nat option" \<comment> \<open>\<^term>\<open>None\<close> for \<open>-1\<close>\<close>

datatype compile_error =
    WorkflowNil
  | WorkflowNameRequired
  | VersionNotPositive string
  | NoOperations string
  | BuildPanicked build_panic

fun op_name :: "operation \<Rightarrow> string option" where
  "op_name (opStep s) = Some (step_name s)"
| "op_name (opWaitEvent w) = Some (wait_name w)"
| "op_name (opSleep d) = None"

text \<open>The loop over \<open>ops\<close> that fills \<open>names\<close> and \<open>outputIndex\<close>.\<close>

fun index_ops ::
    "nat \<Rightarrow> operation list \<Rightarrow> (string \<rightharpoonup> nat) \<times> nat option \<Rightarrow> (string \<rightharpoonup> nat) \<times> nat option" where
  "index_ops i [] acc = acc"
| "index_ops i (op # ops) acc =
     index_ops (Suc i) ops
       (case op_name op of
          Some n \<Rightarrow> ((fst acc)(n \<mapsto> i), Some i)
        | None \<Rightarrow> acc)"

definition empty_builder :: Builder where
  "empty_builder = \<lparr>b_ops = [], b_stepNames = {}\<rparr>"

definition compileWorkflow :: "Workflow_value option \<Rightarrow> compile_error + compiledWorkflow" where
  "compileWorkflow w0 =
     (case w0 of
        None \<Rightarrow> Inl WorkflowNil
      | Some w \<Rightarrow>
          (let name = TrimSpace (wf_Name w) in
           if name = '''' then Inl WorkflowNameRequired
           else
             (let version = (case wf_Version w of Some v \<Rightarrow> v | None \<Rightarrow> 1) in
              if version < 1 then Inl (VersionNotPositive name)
              else
                (case run_cmds build_step empty_builder (wf_Build w) of
                   Inl p \<Rightarrow> Inl (BuildPanicked p)
                 | Inr b \<Rightarrow>
                     if b_ops b = [] then Inl (NoOperations name)
                     else
                       (let (names, outputIndex) = index_ops 0 (b_ops b) (Map.empty, None)
                        in Inr \<lparr>cw_name = name, cw_version = version, cw_ops = b_ops b,
                                cw_names = names, cw_outputIndex = outputIndex\<rparr>)))))"

section \<open>What a definition promises\<close>

text \<open>
  The specification side: when a builder call is legal on its own, the operation it
  records, and the name it claims.
\<close>

fun cmd_name :: "build_cmd \<Rightarrow> string option" where
  "cmd_name (CStep name fn opts) = Some (TrimSpace name)"
| "cmd_name (CSleep d) = None"
| "cmd_name (CWaitEvent name key timeout) = Some (TrimSpace name)"
| "cmd_name (CWaitEventFunc name keyFn timeout) = Some (TrimSpace name)"

fun cmd_ok :: "build_cmd \<Rightarrow> bool" where
  "cmd_ok (CStep name fn opts) \<longleftrightarrow>
     TrimSpace name \<noteq> '''' \<and> fn \<noteq> None \<and> 0 \<le> so_timeout (apply_options opts \<lparr>so_timeout = 0\<rparr>)"
| "cmd_ok (CSleep d) \<longleftrightarrow> 0 < d"
| "cmd_ok (CWaitEvent name key timeout) \<longleftrightarrow>
     TrimSpace name \<noteq> '''' \<and> TrimSpace key \<noteq> '''' \<and> 0 < timeout"
| "cmd_ok (CWaitEventFunc name keyFn timeout) \<longleftrightarrow>
     TrimSpace name \<noteq> '''' \<and> keyFn \<noteq> None \<and> 0 < timeout"

fun cmd_op :: "build_cmd \<Rightarrow> operation" where
  "cmd_op (CStep name fn opts) =
     opStep \<lparr>step_name = TrimSpace name, step_fn = the fn,
             step_opts = apply_options opts \<lparr>so_timeout = 0\<rparr>\<rparr>"
| "cmd_op (CSleep d) = opSleep d"
| "cmd_op (CWaitEvent name key timeout) =
     opWaitEvent \<lparr>wait_name = TrimSpace name, wait_key = TrimSpace key, wait_keyFn = None,
                  wait_timeout = timeout\<rparr>"
| "cmd_op (CWaitEventFunc name keyFn timeout) =
     opWaitEvent \<lparr>wait_name = TrimSpace name, wait_key = '''', wait_keyFn = Some (the keyFn),
                  wait_timeout = timeout\<rparr>"

fun op_ok :: "operation \<Rightarrow> bool" where
  "op_ok (opStep s) \<longleftrightarrow>
     step_name s \<noteq> '''' \<and> TrimSpace (step_name s) = step_name s \<and> 0 \<le> so_timeout (step_opts s)"
| "op_ok (opSleep d) \<longleftrightarrow> 0 < d"
| "op_ok (opWaitEvent w) \<longleftrightarrow>
     wait_name w \<noteq> '''' \<and> TrimSpace (wait_name w) = wait_name w \<and> 0 < wait_timeout w
     \<and> (wait_keyFn w = None \<longrightarrow> wait_key w \<noteq> '''' \<and> TrimSpace (wait_key w) = wait_key w)"

abbreviation names_of :: "operation list \<Rightarrow> string list" where
  "names_of ops \<equiv> List.map_filter op_name ops"

definition ops_ok :: "operation list \<Rightarrow> bool" where
  "ops_ok ops \<longleftrightarrow> list_all op_ok ops \<and> distinct (names_of ops)"

definition compiled_ok :: "compiledWorkflow \<Rightarrow> bool" where
  "compiled_ok cw \<longleftrightarrow>
     cw_name cw \<noteq> '''' \<and> TrimSpace (cw_name cw) = cw_name cw \<and> 1 \<le> cw_version cw
   \<and> cw_ops cw \<noteq> [] \<and> ops_ok (cw_ops cw)
   \<and> (\<forall>n i. cw_names cw n = Some i \<longleftrightarrow>
        i < length (cw_ops cw) \<and> op_name (cw_ops cw ! i) = Some n)
   \<and> (case cw_outputIndex cw of
        None \<Rightarrow> (\<forall>op \<in> set (cw_ops cw). op_name op = None)
      | Some k \<Rightarrow> k < length (cw_ops cw) \<and> op_name (cw_ops cw ! k) \<noteq> None
          \<and> (\<forall>j. k < j \<longrightarrow> j < length (cw_ops cw) \<longrightarrow> op_name (cw_ops cw ! j) = None))"

section \<open>Lemmas on the builder\<close>

definition builder_ok :: "Builder \<Rightarrow> bool" where
  "builder_ok b \<longleftrightarrow> ops_ok (b_ops b) \<and> b_stepNames b = set (names_of (b_ops b))"

lemma map_filter_append [simp]: "List.map_filter f (xs @ ys) = List.map_filter f xs @ List.map_filter f ys"
  by (simp add: map_filter_def)

lemma map_filter_single [simp]: "List.map_filter f [x] = (case f x of None \<Rightarrow> [] | Some y \<Rightarrow> [y])"
  by (simp add: map_filter_def split: option.splits)

lemma map_filter_Nil [simp]: "List.map_filter f [] = []"
  by (simp add: map_filter_def)

lemmas builder_defs = Step_def Sleep_def WaitEvent_def WaitEventFunc_def addName_def Let_def

text \<open>One call succeeds exactly when it is legal and its name is new, and then records its operation.\<close>

lemma build_step_iff:
  "build_step b c = Inr b' \<longleftrightarrow>
     cmd_ok c \<and> (\<forall>n. cmd_name c = Some n \<longrightarrow> n \<notin> b_stepNames b)
   \<and> b' = b\<lparr>b_ops := b_ops b @ [cmd_op c],
            b_stepNames := set_option (cmd_name c) \<union> b_stepNames b\<rparr>"
  by (cases c) (auto simp: builder_defs split: option.splits if_splits)

lemma op_name_cmd_op: "op_name (cmd_op c) = cmd_name c"
  by (cases c) auto

lemma op_ok_cmd_op: "cmd_ok c \<Longrightarrow> op_ok (cmd_op c)"
  by (cases c) auto

lemma build_step_builder_ok: "builder_ok b \<Longrightarrow> build_step b c = Inr b' \<Longrightarrow> builder_ok b'"
  unfolding build_step_iff builder_ok_def ops_ok_def
  by (auto simp: op_name_cmd_op op_ok_cmd_op split: option.splits)

interpretation builder: command_invariant build_step builder_ok
  by unfold_locales (rule build_step_builder_ok)

lemma builder_ok_empty: "builder_ok empty_builder"
  by (simp add: builder_ok_def empty_builder_def ops_ok_def)

lemma run_build_ops:
  "run_cmds build_step b cmds = Inr b' \<Longrightarrow> b_ops b' = b_ops b @ map cmd_op cmds"
  by (induction cmds arbitrary: b) (auto split: sum.splits simp: build_step_iff)

lemma run_build_succeeds:
  assumes "list_all cmd_ok cmds" "distinct (List.map_filter cmd_name cmds)"
    and "set (List.map_filter cmd_name cmds) \<inter> b_stepNames b = {}"
  shows "\<exists>b'. run_cmds build_step b cmds = Inr b'"
  using assms
proof (induction cmds arbitrary: b)
  case (Cons c cmds)
  have split: "List.map_filter cmd_name (c # cmds)
      = List.map_filter cmd_name [c] @ List.map_filter cmd_name cmds"
    by (metis append_Cons append_Nil map_filter_append)
  let ?b = "b\<lparr>b_ops := b_ops b @ [cmd_op c], b_stepNames := set_option (cmd_name c) \<union> b_stepNames b\<rparr>"
  have step: "build_step b c = Inr ?b"
    using Cons.prems unfolding split build_step_iff by (auto split: option.splits)
  have "\<exists>b'. run_cmds build_step ?b cmds = Inr b'"
    using Cons.prems unfolding split by (intro Cons.IH) (auto split: option.splits)
  with step show ?case by auto
qed simp

lemma map_filter_cmd_ops: "names_of (map cmd_op cmds) = List.map_filter cmd_name cmds"
  by (simp add: map_filter_def comp_def op_name_cmd_op filter_map)

lemma run_build_conditions:
  assumes "run_cmds build_step empty_builder cmds = Inr b"
  shows "list_all cmd_ok cmds \<and> distinct (List.map_filter cmd_name cmds)"
proof -
  have "builder_ok b" using builder.run_inv [OF builder_ok_empty assms] .
  moreover have "b_ops b = map cmd_op cmds"
    using run_build_ops [OF assms] by (simp add: empty_builder_def)
  ultimately have "distinct (List.map_filter cmd_name cmds)"
    by (simp add: builder_ok_def ops_ok_def map_filter_cmd_ops)
  moreover have "run_cmds build_step b0 cs = Inr b1 \<Longrightarrow> list_all cmd_ok cs" for b0 b1 cs
    by (induction cs arbitrary: b0) (auto split: sum.splits simp: build_step_iff)
  ultimately show ?thesis using assms by blast
qed

subsection \<open>The index of names\<close>

lemma names_of_mem: "n \<in> set (names_of ops) \<longleftrightarrow> (\<exists>j < length ops. op_name (ops ! j) = Some n)"
proof -
  have "n \<in> set (names_of ops) \<longleftrightarrow> (\<exists>op \<in> set ops. op_name op = Some n)"
    by (induction ops) (auto simp: map_filter_simps split: option.splits)
  also have "\<dots> \<longleftrightarrow> (\<exists>j < length ops. op_name (ops ! j) = Some n)"
    by (metis in_set_conv_nth)
  finally show ?thesis .
qed

lemma names_of_Cons: "names_of (op # ops) = (case op_name op of None \<Rightarrow> [] | Some n \<Rightarrow> [n]) @ names_of ops"
  by (simp add: map_filter_def split: option.splits)


lemma ex_less_Suc_conv: "(\<exists>j < Suc m. P j) \<longleftrightarrow> P 0 \<or> (\<exists>j < m. P (Suc j))"
  by (metis Suc_less_eq gr0_implies_Suc neq0_conv zero_less_Suc)

lemma index_ops_names:
  "distinct (names_of ops) \<Longrightarrow>
   fst (index_ops i ops acc) n = Some k \<longleftrightarrow>
     (\<exists>j < length ops. op_name (ops ! j) = Some n \<and> k = i + j)
   \<or> n \<notin> set (names_of ops) \<and> fst acc n = Some k"
proof (induction ops arbitrary: i acc)
  case (Cons op ops)
  have d: "distinct (names_of ops)"
    using Cons.prems by (simp add: names_of_Cons split: option.splits)
  show ?case
  proof (cases "op_name op")
    case None
    then show ?thesis
      using Cons.IH [OF d, where i = "Suc i" and acc = acc]
      by (simp add: names_of_Cons ex_less_Suc_conv)
  next
    case (Some m)
    then have fresh: "m \<notin> set (names_of ops)"
      using Cons.prems by (simp add: names_of_Cons)
    have "(\<exists>j < length ops. op_name (ops ! j) = Some m) \<longleftrightarrow> False"
      using fresh by (simp add: names_of_mem)
    with Some show ?thesis
      using Cons.IH [OF d, where i = "Suc i" and acc = "((fst acc)(m \<mapsto> i), Some i)"] fresh
      by (auto simp: names_of_Cons ex_less_Suc_conv)
  qed
qed simp

lemma index_ops_output:
  "(case snd (index_ops i ops acc) of
      None \<Rightarrow> snd acc = None \<and> (\<forall>op \<in> set ops. op_name op = None)
    | Some k \<Rightarrow>
        (i \<le> k \<and> k < i + length ops \<and> op_name (ops ! (k - i)) \<noteq> None
           \<and> (\<forall>j. k - i < j \<longrightarrow> j < length ops \<longrightarrow> op_name (ops ! j) = None))
        \<or> snd acc = Some k \<and> (\<forall>op \<in> set ops. op_name op = None))"
proof (induction ops arbitrary: i acc)
  case Nil
  then show ?case by (simp split: option.splits)
next
  case (Cons op ops)
  let ?acc = "case op_name op of Some n \<Rightarrow> ((fst acc)(n \<mapsto> i), Some i) | None \<Rightarrow> acc"
  have tail: "\<forall>j. k - i < j \<longrightarrow> j < Suc (length ops) \<longrightarrow> op_name ((op # ops) ! j) = None"
    if "Suc i \<le> k" "\<forall>j. k - Suc i < j \<longrightarrow> j < length ops \<longrightarrow> op_name (ops ! j) = None" for k
    using that by (auto simp: nth_Cons split: nat.splits)
  have none: "\<forall>j. 0 < j \<longrightarrow> j < Suc (length ops) \<longrightarrow> op_name ((op # ops) ! j) = None"
    if "\<forall>op \<in> set ops. op_name op = None"
    using that by (auto simp: nth_Cons split: nat.splits)
  note IH = Cons.IH [where i = "Suc i" and acc = ?acc]
  show ?case
  proof (cases "snd (index_ops (Suc i) ops ?acc)")
    case None
    with IH show ?thesis by (auto split: option.splits)
  next
    case (Some k)
    with IH consider
        (in_tail) "Suc i \<le> k" "k < Suc i + length ops" "op_name (ops ! (k - Suc i)) \<noteq> None"
          "\<forall>j. k - Suc i < j \<longrightarrow> j < length ops \<longrightarrow> op_name (ops ! j) = None"
      | (before) "snd ?acc = Some k" "\<forall>op \<in> set ops. op_name op = None"
      by auto
    then show ?thesis
    proof cases
      case in_tail
      then have "k - i = Suc (k - Suc i)" by simp
      then have "(op # ops) ! (k - i) = ops ! (k - Suc i)" by (metis nth_Cons_Suc)
      with in_tail Some tail [OF in_tail(1) in_tail(4)] show ?thesis by simp
    next
      case before
      with Some none show ?thesis by (cases "op_name op") auto
    qed
  qed
qed

lemma compileWorkflow_compiled:
  assumes "compileWorkflow (Some w) = Inr cw"
  shows "compiled_ok cw" and "cw_ops cw = map cmd_op (wf_Build w)"
proof -
  from assms obtain b where b: "run_cmds build_step empty_builder (wf_Build w) = Inr b"
    and ne: "b_ops b \<noteq> []"
    and nm: "TrimSpace (wf_Name w) \<noteq> ''''" "1 \<le> (case wf_Version w of Some v \<Rightarrow> v | None \<Rightarrow> 1)"
    and cw: "cw = \<lparr>cw_name = TrimSpace (wf_Name w),
        cw_version = (case wf_Version w of Some v \<Rightarrow> v | None \<Rightarrow> 1), cw_ops = b_ops b,
        cw_names = fst (index_ops 0 (b_ops b) (Map.empty, None)),
        cw_outputIndex = snd (index_ops 0 (b_ops b) (Map.empty, None))\<rparr>"
    by (auto simp: compileWorkflow_def Let_def split: if_splits sum.splits prod.splits)
  have ok: "ops_ok (b_ops b)"
    using builder.run_inv [OF builder_ok_empty b] by (simp add: builder_ok_def)
  then have d: "distinct (names_of (b_ops b))" by (simp add: ops_ok_def)
  show "compiled_ok cw"
    using ne nm ok index_ops_names [OF d, where i = 0 and acc = "(Map.empty, None)"]
      index_ops_output [where i = 0 and ops = "b_ops b" and acc = "(Map.empty, None)"]
    by (auto simp: cw compiled_ok_def split: option.splits)
  show "cw_ops cw = map cmd_op (wf_Build w)"
    using run_build_ops [OF b] by (simp add: cw empty_builder_def)
qed

section \<open>Properties\<close>

text \<open>C15: compilation is sound: a definition that compiles has a trimmed non-empty name, a
  positive version and at least one operation; its operations are exactly the ones the
  builder calls describe, in order, with legal durations and pairwise distinct trimmed
  names; \<open>names\<close> maps a name to the position of the operation that carries it and nothing
  else; \<open>outputIndex\<close> is the position of the last step or wait, absent if there is none.\<close>

theorem compileWorkflow_sound:
  assumes "compileWorkflow (Some w) = Inr cw"
  shows "compiled_ok cw \<and> cw_ops cw = map cmd_op (wf_Build w)"
  using compileWorkflow_compiled [OF assms] by (rule conjI)

text \<open>C16: compilation rejects exactly the ill-formed definitions: it succeeds if and only if the
  trimmed workflow name is not empty, the version is positive, there is at least one
  builder call, every call is legal, and no two calls claim the same trimmed name.\<close>

theorem compileWorkflow_complete:
  "(\<exists>cw. compileWorkflow (Some w) = Inr cw) \<longleftrightarrow>
     TrimSpace (wf_Name w) \<noteq> '''' \<and> 1 \<le> (case wf_Version w of Some v \<Rightarrow> v | None \<Rightarrow> 1)
   \<and> wf_Build w \<noteq> [] \<and> list_all cmd_ok (wf_Build w)
   \<and> distinct (List.map_filter cmd_name (wf_Build w))"
  (is "?L \<longleftrightarrow> ?R")
proof
  assume ?L
  then obtain cw where c: "compileWorkflow (Some w) = Inr cw" ..
  then obtain b where b: "run_cmds build_step empty_builder (wf_Build w) = Inr b" "b_ops b \<noteq> []"
    and nm: "TrimSpace (wf_Name w) \<noteq> ''''" "1 \<le> (case wf_Version w of Some v \<Rightarrow> v | None \<Rightarrow> 1)"
    by (auto simp: compileWorkflow_def Let_def split: if_splits sum.splits)
  then show ?R
    using run_build_conditions [OF b(1)] run_build_ops [OF b(1)] by (auto simp: empty_builder_def)
next
  assume R: ?R
  then obtain b where b: "run_cmds build_step empty_builder (wf_Build w) = Inr b"
    using run_build_succeeds [of "wf_Build w" empty_builder] by (auto simp: empty_builder_def)
  moreover have "b_ops b \<noteq> []" using run_build_ops [OF b] R by (auto simp: empty_builder_def)
  ultimately show ?L
    using R by (auto simp: compileWorkflow_def Let_def split: prod.splits)
qed

text \<open>\<open>resolve\<close> yields a trimmed non-empty key or an error, never an empty key, even when the
  resolver panics; the fixed key of a compiled wait always resolves to itself.\<close>

theorem resolve_key:
  assumes "op_ok (opWaitEvent op)"
  shows "(case resolve op w sc of
            Inr k \<Rightarrow> k \<noteq> '''' \<and> TrimSpace k = k
          | Inl e \<Rightarrow> e = EmptyEventKey \<or> (\<exists>m. e = UserError m) \<or> (\<exists>m. e = KeyPanicked m))
       \<and> (wait_keyFn op = None \<longrightarrow> resolve op w sc = Inr (wait_key op))"
  using assms by (auto simp: resolve_def Let_def split: option.splits key_result.splits)

definition example_wait :: waitEventOp where
  "example_wait = \<lparr>wait_name = ''paid'', wait_key = ''order.paid'', wait_keyFn = None,
                   wait_timeout = 1\<rparr>"

lemma TrimSpace_example: "TrimSpace ''paid'' = ''paid''" "TrimSpace ''order.paid'' = ''order.paid''"
  by (simp_all add: TrimSpace_def trim_left.simps trim_right_def space_runes_def)

theorem resolve_key_witness:
  "resolve example_wait 0 (example_context None) = Inr ''order.paid''"
  using resolve_key [of example_wait 0 "example_context None"]
  by (simp add: example_wait_def TrimSpace_example)

definition example_definition :: Workflow_value where
  "example_definition =
     DefineWorkflow ''order'' (Some [CWaitEvent ''paid'' ''order.paid'' 1, CSleep 5])"

theorem compileWorkflow_sound_witness:
  "\<exists>cw. compileWorkflow (Some example_definition) = Inr cw \<and> compiled_ok cw
     \<and> cw_ops cw = [opWaitEvent example_wait, opSleep 5]"
proof -
  have n: "TrimSpace ''order'' = ''order''"
    by (simp add: TrimSpace_def trim_left.simps trim_right_def space_runes_def)
  obtain cw where c: "compileWorkflow (Some example_definition) = Inr cw"
    by (simp add: compileWorkflow_def example_definition_def DefineWorkflow_def
        DefineWorkflowVersion_def n TrimSpace_example builder_defs empty_builder_def)
  then show ?thesis
    using compileWorkflow_sound [OF c]
    by (auto simp: example_definition_def DefineWorkflow_def DefineWorkflowVersion_def
        TrimSpace_example example_wait_def)
qed

end
