(* ===== verification/Run_Store.thy ===== *)
theory Run_Store
  imports Run_Types
begin

text \<open>
  The durable state and every statement of \<open>queries.go\<close>.  The tables are those that
  \<open>migrate.go\<close> creates, a table being the list of its rows; a statement is a function of
  the tables, of its parameters and of the clock readings it makes.  \<open>now\<close> is \<open>now()\<close>
  (the start of the transaction, which is \<open>statement_timestamp()\<close> where the statement is
  a transaction of its own) and \<open>clk\<close> is \<open>clock_timestamp()\<close>.  A statement runs
  atomically: each one is a single SQL command, whose row locks and re-checks make
  concurrent commands on the same rows take effect one after the other.  The rows that
  \<open>FOR UPDATE SKIP LOCKED\<close> passes over are a parameter (\<open>locked\<close>), as are the tokens of
  \<open>gen_random_uuid()\<close> (\<open>gen\<close>, one per row) and PostgreSQL's input functions for \<open>uuid\<close>
  and \<open>jsonb\<close> (\<open>pg\<close>).
\<close>

section \<open>Tables\<close>

record run_row =
  rid :: uuid
  workflow_name :: string
  workflow_version :: int
  queue :: string
  state :: RunState
  step_index :: nat
  attempt :: int
  max_attempts :: int
  lease_failures :: int
  next_run_at :: timestamptz
  lease_token :: "uuid option"
  lease_until :: "timestamptz option"
  waiting_event_key :: "string option"
  waiting_deadline :: "timestamptz option"
  input_json :: json
  output_json :: "json option"
  dedup_key :: "string option"
  last_error :: "string option"
  created_at :: timestamptz
  updated_at :: timestamptz

record checkpoint_row =
  cp_run :: uuid
  cp_index :: nat
  cp_value :: json
  cp_completed_at :: timestamptz

record event_row =
  ev_id :: nat
  ev_key :: string
  ev_payload :: json
  ev_created_at :: timestamptz
  ev_expires_at :: timestamptz

text \<open>\<open>event_seq\<close> is the identity sequence of \<open>event_log\<close>; \<open>notifications\<close> the
  (channel, payload) pairs sent so far.\<close>

record db =
  runs :: "run_row list"
  checkpoints :: "checkpoint_row list"
  events :: "event_row list"
  event_seq :: nat
  notifications :: "(string \<times> string) list"

definition empty_db :: db where
  "empty_db = \<lparr>runs = [], checkpoints = [], events = [], event_seq = 0, notifications = []\<rparr>"

record pg =
  uuid_in :: "string \<Rightarrow> uuid option"
  jsonb_in :: "json \<Rightarrow> json option"

type_synonym 'r stmt = "db \<Rightarrow> pg_error + 'r \<times> db"

section \<open>Shared parts of the statements\<close>

definition maintenanceBatch :: nat where "maintenanceBatch = 1024"
definition pruneBatch :: nat where "pruneBatch = 2048"

definition int4_ok :: "int \<Rightarrow> bool" where
  "int4_ok n \<longleftrightarrow> - (2 ^ 31) \<le> n \<and> n < 2 ^ 31"

abbreviation run_of :: "db \<Rightarrow> uuid \<Rightarrow> run_row option" where
  "run_of d i \<equiv> row_with rid i (runs d)"

definition checkpoint_of :: "checkpoint_row list \<Rightarrow> uuid \<Rightarrow> nat \<Rightarrow> json option" where
  "checkpoint_of cps i k = map_option cp_value (row_with (\<lambda>c. (cp_run c, cp_index c)) (i, k) cps)"

text \<open>\<open>const fence\<close>: the row, leased under the given token, the lease not expired.\<close>

definition fence :: "uuid \<Rightarrow> uuid \<Rightarrow> timestamptz \<Rightarrow> run_row \<Rightarrow> bool" where
  "fence i token clk r \<longleftrightarrow>
     rid r = i \<and> state r = RunLeased \<and> lease_token r = Some token
   \<and> (case lease_until r of Some u \<Rightarrow> clk < u | None \<Rightarrow> False)"

text \<open>\<open>INSERT \<dots> ON CONFLICT (run_id, step_index) DO NOTHING\<close>.\<close>

definition insert_checkpoint ::
    "timestamptz \<Rightarrow> uuid \<Rightarrow> nat \<Rightarrow> json \<Rightarrow> checkpoint_row list \<Rightarrow> checkpoint_row list" where
  "insert_checkpoint now i k v cps =
     (case checkpoint_of cps i k of
        Some _ \<Rightarrow> cps
      | None \<Rightarrow> cps @ [\<lparr>cp_run = i, cp_index = k, cp_value = v, cp_completed_at = now\<rparr>])"

definition record_outcomes ::
    "timestamptz \<Rightarrow> json \<Rightarrow> run_row list \<Rightarrow> checkpoint_row list \<Rightarrow> checkpoint_row list" where
  "record_outcomes now v rs cps = fold (\<lambda>r. insert_checkpoint now (rid r) (step_index r) v) rs cps"

definition notify_queues :: "string \<Rightarrow> run_row list \<Rightarrow> (string \<times> string) list" where
  "notify_queues channel rs = map (\<lambda>q. (channel, q)) (remdups (map queue rs))"

section \<open>Statements of the engine\<close>

text \<open>\<open>insertRun\<close>.  The arbiter of the conflict is the deduplication index, so a duplicate
  key wins over a duplicate identifier.  The result is the identifier of the inserted
  or existing row and the number of notifications.\<close>

definition insertRun ::
    "pg \<Rightarrow> timestamptz \<Rightarrow> string \<Rightarrow> string \<Rightarrow> int \<Rightarrow> string \<Rightarrow> int \<Rightarrow> timestamptz option \<Rightarrow> json
     \<Rightarrow> string option \<Rightarrow> string \<Rightarrow> (uuid \<times> nat) stmt" where
  "insertRun pg now i name version q maxAttempts scheduledAt input dedup channel d =
     (case (uuid_in pg i, jsonb_in pg input) of
        (None, _) \<Rightarrow> Inl InvalidUuid
      | (Some u, None) \<Rightarrow> Inl InvalidJson
      | (Some u, Some inp) \<Rightarrow>
          if \<not> int4_ok version \<or> \<not> int4_ok maxAttempts then Inl NumericOutOfRange
          else if \<not> text_ok name \<or> \<not> text_ok q \<or> \<not> list_all text_ok (case dedup of None \<Rightarrow> [] | Some k \<Rightarrow> [k])
            then Inl InvalidText
          else if version \<le> 0 \<or> maxAttempts \<le> 0 then Inl CheckViolation
          else
            (case (case dedup of
                     None \<Rightarrow> None
                   | Some k \<Rightarrow> find (\<lambda>r. workflow_name r = name \<and> dedup_key r = Some k) (runs d)) of
               Some r \<Rightarrow>
                 Inr ((rid r, 0),
                      d\<lparr>runs := update_where (\<lambda>s. rid s = rid r) (\<lambda>s. s\<lparr>updated_at := now\<rparr>) (runs d)\<rparr>)
             | None \<Rightarrow>
                 (case run_of d u of
                    Some _ \<Rightarrow> Inl UniqueViolation
                  | None \<Rightarrow>
                      (let due = (case scheduledAt of Some t \<Rightarrow> t | None \<Rightarrow> now);
                           notes = (if due \<le> now then [(channel, q)] else [])
                       in Inr ((u, length notes),
                            d\<lparr>runs := runs d @
                               [\<lparr>rid = u, workflow_name = name, workflow_version = version,
                                 queue = q, state = RunReady, step_index = 0, attempt = 0,
                                 max_attempts = maxAttempts, lease_failures = 0,
                                 next_run_at = due, lease_token = None, lease_until = None,
                                 waiting_event_key = None, waiting_deadline = None,
                                 input_json = inp, output_json = None, dedup_key = dedup,
                                 last_error = None, created_at = now, updated_at = now\<rparr>],
                              notifications := notifications d @ notes\<rparr>)))))"

definition waits_on :: "string \<Rightarrow> timestamptz \<Rightarrow> run_row \<Rightarrow> bool" where
  "waits_on key now r \<longleftrightarrow>
     state r = RunWaitingEvent \<and> waiting_event_key r = Some key
   \<and> (case waiting_deadline r of Some t \<Rightarrow> now < t | None \<Rightarrow> False)"

text \<open>\<open>emitEvent\<close>: the numbers of woken runs and of notifications.\<close>

definition emitEvent ::
    "pg \<Rightarrow> timestamptz \<Rightarrow> string \<Rightarrow> json \<Rightarrow> int \<Rightarrow> string \<Rightarrow> (nat \<times> nat) stmt" where
  "emitEvent pg now key payload ttl_ms channel d =
     (case jsonb_in pg payload of
        None \<Rightarrow> Inl InvalidJson
      | Some p \<Rightarrow>
          if \<not> text_ok key then Inl InvalidText
          else
            (let woken = filter (waits_on key now) (runs d);
                 notes = notify_queues channel woken
             in Inr ((length woken, length notes),
                  d\<lparr>events := events d @
                      [\<lparr>ev_id = event_seq d, ev_key = key, ev_payload = p, ev_created_at = now,
                        ev_expires_at = now + interval_ms ttl_ms\<rparr>],
                    event_seq := Suc (event_seq d),
                    runs := update_where (waits_on key now)
                      (\<lambda>r. r\<lparr>state := RunReady, next_run_at := now, waiting_event_key := None,
                            waiting_deadline := None, last_error := None, updated_at := now\<rparr>)
                      (runs d),
                    checkpoints := record_outcomes now (received p) woken (checkpoints d),
                    notifications := notifications d @ notes\<rparr>)))"

definition runStatus :: "pg \<Rightarrow> string \<Rightarrow> db \<Rightarrow> pg_error + run_row option" where
  "runStatus pg i d = (case uuid_in pg i of None \<Rightarrow> Inl InvalidUuid | Some u \<Rightarrow> Inr (run_of d u))"

definition runOutput :: "pg \<Rightarrow> string \<Rightarrow> db \<Rightarrow> pg_error + (RunState \<times> json option) option" where
  "runOutput pg i d =
     (case uuid_in pg i of
        None \<Rightarrow> Inl InvalidUuid
      | Some u \<Rightarrow> Inr (map_option (\<lambda>r. (state r, output_json r)) (run_of d u)))"

definition runState :: "pg \<Rightarrow> string \<Rightarrow> db \<Rightarrow> pg_error + RunState option" where
  "runState pg i d =
     (case uuid_in pg i of None \<Rightarrow> Inl InvalidUuid | Some u \<Rightarrow> Inr (map_option state (run_of d u)))"

definition cancellable :: "uuid \<Rightarrow> run_row \<Rightarrow> bool" where
  "cancellable u r \<longleftrightarrow> rid r = u \<and> state r \<in> {RunReady, RunLeased, RunWaitingEvent}"

definition cancelRun :: "pg \<Rightarrow> timestamptz \<Rightarrow> string \<Rightarrow> nat stmt" where
  "cancelRun pg now i d =
     (case uuid_in pg i of
        None \<Rightarrow> Inl InvalidUuid
      | Some u \<Rightarrow>
          Inr (count_where (cancellable u) (runs d),
               d\<lparr>runs := update_where (cancellable u)
                   (\<lambda>r. r\<lparr>state := RunCancelled, lease_token := None, lease_until := None,
                         waiting_event_key := None, waiting_deadline := None, updated_at := now\<rparr>)
                   (runs d)\<rparr>))"

section \<open>Statements of the worker\<close>

definition due_in :: "string \<Rightarrow> timestamptz \<Rightarrow> run_row \<Rightarrow> bool" where
  "due_in q now r \<longleftrightarrow> queue r = q \<and> state r = RunReady \<and> next_run_at r \<le> now"

record claim_row =
  cl_id :: uuid
  cl_name :: string
  cl_version :: int
  cl_step_index :: nat
  cl_attempt :: int
  cl_token :: uuid
  cl_input :: json
  cl_checkpoints :: "(nat \<times> json) list"

definition lease_row :: "timestamptz \<Rightarrow> timestamptz \<Rightarrow> int \<Rightarrow> (uuid \<Rightarrow> uuid) \<Rightarrow> run_row \<Rightarrow> run_row" where
  "lease_row now clk ttl_ms gen r =
     r\<lparr>state := RunLeased, lease_token := Some (gen (rid r)),
       lease_until := Some (clk + interval_ms ttl_ms), updated_at := now\<rparr>"

definition claim_result :: "(uuid \<Rightarrow> uuid) \<Rightarrow> checkpoint_row list \<Rightarrow> run_row \<Rightarrow> claim_row" where
  "claim_result gen cps r =
     \<lparr>cl_id = rid r, cl_name = workflow_name r, cl_version = workflow_version r,
      cl_step_index = step_index r, cl_attempt = attempt r, cl_token = gen (rid r),
      cl_input = input_json r,
      cl_checkpoints = map (\<lambda>c. (cp_index c, cp_value c)) (filter (\<lambda>c. cp_run c = rid r) cps)\<rparr>"

text \<open>The function \<open>claim\<close> of \<open>newQueries\<close>, with its predicate as an argument.\<close>

definition claim_picked ::
    "(run_row \<Rightarrow> bool) \<Rightarrow> (uuid \<Rightarrow> bool) \<Rightarrow> timestamptz \<Rightarrow> string \<Rightarrow> nat \<Rightarrow> db \<Rightarrow> run_row list" where
  "claim_picked predicate locked now q limit d =
     select_limit (\<lambda>r. (next_run_at r, rid r)) limit
       (\<lambda>r. due_in q now r \<and> predicate r \<and> \<not> locked (rid r)) (runs d)"

definition claim ::
    "(run_row \<Rightarrow> bool) \<Rightarrow> (uuid \<Rightarrow> uuid) \<Rightarrow> (uuid \<Rightarrow> bool) \<Rightarrow> timestamptz \<Rightarrow> timestamptz
     \<Rightarrow> string \<Rightarrow> nat \<Rightarrow> int \<Rightarrow> claim_row list stmt" where
  "claim predicate gen locked now clk q limit ttl_ms d =
     (let picked = claim_picked predicate locked now q limit d
      in Inr (map (claim_result gen (checkpoints d)) picked,
              d\<lparr>runs := update_where (\<lambda>r. rid r \<in> set (map rid picked))
                  (lease_row now clk ttl_ms gen) (runs d)\<rparr>))"

definition claimSingle ::
    "(uuid \<Rightarrow> uuid) \<Rightarrow> (uuid \<Rightarrow> bool) \<Rightarrow> timestamptz \<Rightarrow> timestamptz \<Rightarrow> string \<Rightarrow> nat \<Rightarrow> int
     \<Rightarrow> string \<Rightarrow> int \<Rightarrow> claim_row list stmt" where
  "claimSingle gen locked now clk q limit ttl_ms name version =
     claim (\<lambda>r. workflow_name r = name \<and> workflow_version r = version) gen locked now clk q limit ttl_ms"

definition claimMulti ::
    "(uuid \<Rightarrow> uuid) \<Rightarrow> (uuid \<Rightarrow> bool) \<Rightarrow> timestamptz \<Rightarrow> timestamptz \<Rightarrow> string \<Rightarrow> nat \<Rightarrow> int
     \<Rightarrow> string list \<Rightarrow> int list \<Rightarrow> claim_row list stmt" where
  "claimMulti gen locked now clk q limit ttl_ms names versions =
     claim (\<lambda>r. (workflow_name r, workflow_version r) \<in> set (zip names versions))
       gen locked now clk q limit ttl_ms"

definition renewable :: "(uuid \<times> uuid) list \<Rightarrow> timestamptz \<Rightarrow> run_row \<Rightarrow> bool" where
  "renewable claims clk r \<longleftrightarrow> list_ex (\<lambda>(i, token). fence i token clk r) claims"

definition renewLeases ::
    "timestamptz \<Rightarrow> timestamptz \<Rightarrow> uuid list \<Rightarrow> uuid list \<Rightarrow> int \<Rightarrow> uuid list stmt" where
  "renewLeases now clk ids tokens ttl_ms d =
     Inr (List.map_filter lease_token (filter (renewable (zip ids tokens) clk) (runs d)),
          d\<lparr>runs := update_where (renewable (zip ids tokens) clk)
              (\<lambda>r. r\<lparr>lease_until := Some (clk + interval_ms ttl_ms), updated_at := now\<rparr>)
              (runs d)\<rparr>)"

text \<open>\<open>commitStep\<close>: no row when the claim does not own the run; otherwise one row, holding
  the value of a checkpoint that existed before.\<close>

definition owned :: "uuid \<Rightarrow> uuid \<Rightarrow> nat \<Rightarrow> timestamptz \<Rightarrow> run_row \<Rightarrow> bool" where
  "owned i token index clk r \<longleftrightarrow> fence i token clk r \<and> step_index r \<le> index"

definition commitStep ::
    "pg \<Rightarrow> timestamptz \<Rightarrow> timestamptz \<Rightarrow> uuid \<Rightarrow> uuid \<Rightarrow> nat \<Rightarrow> json \<Rightarrow> bool
     \<Rightarrow> json option option stmt" where
  "commitStep pg now clk i token index value' complete d =
     (case jsonb_in pg value' of
        None \<Rightarrow> Inl InvalidJson
      | Some v \<Rightarrow>
          if \<not> list_ex (owned i token index clk) (runs d) then Inr (None, d)
          else
            (let existing = checkpoint_of (checkpoints d) i index
             in Inr (Some existing,
                  d\<lparr>checkpoints := insert_checkpoint now i index v (checkpoints d),
                    runs := update_where (owned i token index clk)
                      (\<lambda>r. r\<lparr>step_index := Suc index, last_error := None, lease_failures := 0,
                            updated_at := now,
                            state := (if complete then RunCompleted else state r),
                            output_json := (if complete
                              then Some (case existing of Some w \<Rightarrow> w | None \<Rightarrow> v) else None),
                            lease_token := (if complete then None else lease_token r),
                            lease_until := (if complete then None else lease_until r)\<rparr>)
                      (runs d)\<rparr>)))"

definition fenced_update ::
    "uuid \<Rightarrow> uuid \<Rightarrow> timestamptz \<Rightarrow> (run_row \<Rightarrow> run_row) \<Rightarrow> nat stmt" where
  "fenced_update i token clk f d =
     Inr (count_where (fence i token clk) (runs d),
          d\<lparr>runs := update_where (fence i token clk) f (runs d)\<rparr>)"

definition completeRun ::
    "pg \<Rightarrow> timestamptz \<Rightarrow> timestamptz \<Rightarrow> uuid \<Rightarrow> uuid \<Rightarrow> nat \<Rightarrow> json option \<Rightarrow> nat stmt" where
  "completeRun pg now clk i token index output d =
     (case (case output of None \<Rightarrow> Some None | Some v \<Rightarrow> map_option Some (jsonb_in pg v)) of
        None \<Rightarrow> Inl InvalidJson
      | Some out \<Rightarrow>
          fenced_update i token clk
            (\<lambda>r. r\<lparr>state := RunCompleted, step_index := index, output_json := out,
                  lease_token := None, lease_until := None, last_error := None,
                  updated_at := now\<rparr>) d)"

definition parkSleep ::
    "timestamptz \<Rightarrow> timestamptz \<Rightarrow> uuid \<Rightarrow> uuid \<Rightarrow> nat \<Rightarrow> int \<Rightarrow> nat stmt" where
  "parkSleep now clk i token next ms =
     fenced_update i token clk
       (\<lambda>r. r\<lparr>state := RunReady, step_index := next, next_run_at := now + interval_ms ms,
             lease_token := None, lease_until := None, last_error := None, lease_failures := 0,
             updated_at := now\<rparr>)"

definition latestEvent :: "timestamptz \<Rightarrow> string \<Rightarrow> db \<Rightarrow> pg_error + json option" where
  "latestEvent now key d =
     (if \<not> text_ok key then Inl InvalidText
      else Inr (case select_limit (\<lambda>e. (- ev_created_at e, - int (ev_id e))) 1
                  (\<lambda>e. ev_key e = key \<and> now < ev_expires_at e) (events d) of
                  [] \<Rightarrow> None
                | e # _ \<Rightarrow> Some (ev_payload e)))"

definition parkWait ::
    "timestamptz \<Rightarrow> timestamptz \<Rightarrow> uuid \<Rightarrow> uuid \<Rightarrow> nat \<Rightarrow> string \<Rightarrow> int \<Rightarrow> nat stmt" where
  "parkWait now clk i token index key ms d =
     (if \<not> text_ok key then Inl InvalidText
      else fenced_update i token clk
        (\<lambda>r. r\<lparr>state := RunWaitingEvent, step_index := index, waiting_event_key := Some key,
              waiting_deadline := Some (now + interval_ms ms), lease_token := None,
              lease_until := None, last_error := None, lease_failures := 0,
              updated_at := now\<rparr>) d)"

definition failOrRetry_stmt ::
    "timestamptz \<Rightarrow> timestamptz \<Rightarrow> uuid \<Rightarrow> uuid \<Rightarrow> int \<Rightarrow> int \<Rightarrow> string \<Rightarrow> nat stmt" where
  "failOrRetry_stmt now clk i token att ms msg d =
     (if \<not> text_ok msg then Inl InvalidText
      else if \<not> int4_ok att then Inl NumericOutOfRange
      else fenced_update i token clk
        (\<lambda>r. r\<lparr>state := (if max_attempts r \<le> att then RunFailed else RunReady), attempt := att,
              next_run_at := now + interval_ms ms, last_error := Some msg, lease_token := None,
              lease_until := None, updated_at := now\<rparr>) d)"

section \<open>Statements of maintenance\<close>

definition lease_expired :: "timestamptz \<Rightarrow> run_row \<Rightarrow> bool" where
  "lease_expired now r \<longleftrightarrow>
     state r = RunLeased \<and> (case lease_until r of Some u \<Rightarrow> u < now | None \<Rightarrow> False)"

text \<open>\<open>LEAST(60000, 250 * (1 << LEAST(lease_failures, 8)))\<close>, in milliseconds.\<close>

definition recovery_backoff_ms :: "int \<Rightarrow> int" where
  "recovery_backoff_ms failures = min 60000 (250 * 2 ^ nat (min failures 8))"

text \<open>\<open>lease_until\<close> is not NULL in a picked row, so its place in the order is its value.\<close>

definition recover_picked :: "(uuid \<Rightarrow> bool) \<Rightarrow> timestamptz \<Rightarrow> db \<Rightarrow> run_row list" where
  "recover_picked locked now d =
     select_limit (\<lambda>r. (case lease_until r of Some u \<Rightarrow> u | None \<Rightarrow> 0, rid r)) maintenanceBatch
       (\<lambda>r. lease_expired now r \<and> \<not> locked (rid r)) (runs d)"

definition recoverLeases :: "(uuid \<Rightarrow> bool) \<Rightarrow> timestamptz \<Rightarrow> timestamptz \<Rightarrow> nat stmt" where
  "recoverLeases locked now clk d =
     (let picked = recover_picked locked now d
      in Inr (length picked,
              d\<lparr>runs := update_where (\<lambda>r. rid r \<in> set (map rid picked))
                  (\<lambda>r. r\<lparr>state := (if max_attempts r \<le> lease_failures r + 1 then RunFailed else RunReady),
                        lease_failures := lease_failures r + 1,
                        next_run_at := clk + interval_ms (recovery_backoff_ms (lease_failures r)),
                        lease_token := None, lease_until := None,
                        last_error := Some ''lease expired'', updated_at := now\<rparr>)
                  (runs d)\<rparr>))"

definition wait_expired :: "timestamptz \<Rightarrow> run_row \<Rightarrow> bool" where
  "wait_expired now r \<longleftrightarrow>
     state r = RunWaitingEvent \<and> (case waiting_deadline r of Some t \<Rightarrow> t \<le> now | None \<Rightarrow> False)"

definition promote_picked :: "(uuid \<Rightarrow> bool) \<Rightarrow> timestamptz \<Rightarrow> db \<Rightarrow> run_row list" where
  "promote_picked locked now d =
     select_limit (\<lambda>r. (case waiting_deadline r of Some t \<Rightarrow> t | None \<Rightarrow> 0, rid r)) maintenanceBatch
       (\<lambda>r. wait_expired now r \<and> \<not> locked (rid r)) (runs d)"

definition promoteTimedOut :: "(uuid \<Rightarrow> bool) \<Rightarrow> timestamptz \<Rightarrow> string \<Rightarrow> (nat \<times> nat) stmt" where
  "promoteTimedOut locked now channel d =
     (let picked = promote_picked locked now d;
          notes = notify_queues channel picked
      in Inr ((length picked, length notes),
              d\<lparr>runs := update_where (\<lambda>r. rid r \<in> set (map rid picked))
                  (\<lambda>r. r\<lparr>state := RunReady, next_run_at := now, waiting_event_key := None,
                        waiting_deadline := None, updated_at := now\<rparr>)
                  (runs d),
                checkpoints := record_outcomes now timed_out picked (checkpoints d),
                notifications := notifications d @ notes\<rparr>))"

definition pruneEvents :: "(nat \<Rightarrow> bool) \<Rightarrow> timestamptz \<Rightarrow> nat stmt" where
  "pruneEvents locked now d =
     (let picked = select_limit ev_expires_at pruneBatch
            (\<lambda>e. ev_expires_at e \<le> now \<and> \<not> locked (ev_id e)) (events d)
      in Inr (length picked,
              d\<lparr>events := filter (\<lambda>e. ev_id e \<notin> set (map ev_id picked)) (events d)\<rparr>))"

section \<open>Faults\<close>

text \<open>
  What a client sees of a statement: its result; a failure before it took effect; or a
  failure after it committed, when only the response is lost.
\<close>

datatype fault = NoFault | NotApplied string | ResponseLost string

definition exec :: "fault \<Rightarrow> 'r stmt \<Rightarrow> db \<Rightarrow> (pg_error + 'r) \<times> db" where
  "exec f stmt d =
     (case f of
        NotApplied m \<Rightarrow> (Inl (ConnectionError m), d)
      | NoFault \<Rightarrow> (case stmt d of Inl e \<Rightarrow> (Inl e, d) | Inr (r, d') \<Rightarrow> (Inr r, d'))
      | ResponseLost m \<Rightarrow>
          (case stmt d of Inl e \<Rightarrow> (Inl e, d) | Inr (r, d') \<Rightarrow> (Inl (ConnectionError m), d')))"

lemmas statement_defs =
  insertRun_def emitEvent_def cancelRun_def claim_def renewLeases_def commitStep_def
  completeRun_def parkSleep_def parkWait_def failOrRetry_stmt_def recoverLeases_def
  promoteTimedOut_def pruneEvents_def fenced_update_def

end
