(* ===== verification/Store_Invariant.thy ===== *)
theory Store_Invariant
  imports Run_Store
begin

text \<open>
  What the statements keep true of the tables.  \<open>db_ok\<close> is the consistency of the stored
  state: keys and foreign keys, one lease holder per token, lease and wait columns in
  agreement with the state column, attempt counters within their limits, texts that
  PostgreSQL accepts.  \<open>lifecycle\<close> is the state diagram of \<open>ARCHITECTURE.md\<close>; \<open>db_step\<close> says
  that a change of the tables moves runs along its edges only, leaves finished runs and
  the identity of every run alone, and never loses or rewrites a checkpoint.  Each
  statement is shown to keep \<open>db_ok\<close> and to be a \<open>db_step\<close>; the locale
  \<open>durable_statement\<close> states that contract and lifts it to sequences of statements.
\<close>

section \<open>The state diagram\<close>

inductive lifecycle :: "RunState \<Rightarrow> RunState \<Rightarrow> bool" where
  lease: "lifecycle RunReady RunLeased"
| release: "lifecycle RunLeased RunReady"
| park: "lifecycle RunLeased RunWaitingEvent"
| wake: "lifecycle RunWaitingEvent RunReady"
| complete: "lifecycle RunLeased RunCompleted"
| fail: "lifecycle RunLeased RunFailed"
| cancel: "\<not> Terminal s \<Longrightarrow> lifecycle s RunCancelled"

inductive_simps lifecycle_simps:
  "lifecycle RunReady t" "lifecycle RunLeased t" "lifecycle RunWaitingEvent t"
  "lifecycle RunCompleted t" "lifecycle RunFailed t" "lifecycle RunCancelled t"

lemma lifecycle_not_terminal: "lifecycle s t \<Longrightarrow> \<not> Terminal s"
  by (induction rule: lifecycle.induct) auto

lemma lifecycle_terminal_closed: "lifecycle\<^sup>*\<^sup>* s t \<Longrightarrow> Terminal s \<Longrightarrow> t = s"
  by (induction rule: rtranclp_induct) (auto dest: lifecycle_not_terminal)

section \<open>Consistency of the tables\<close>

definition opt_text_ok :: "string option \<Rightarrow> bool" where
  "opt_text_ok x \<longleftrightarrow> (case x of None \<Rightarrow> True | Some s \<Rightarrow> text_ok s)"

definition row_ok :: "run_row \<Rightarrow> bool" where
  "row_ok r \<longleftrightarrow>
     (state r = RunLeased \<longleftrightarrow> lease_token r \<noteq> None)
   \<and> (lease_token r = None \<longleftrightarrow> lease_until r = None)
   \<and> (state r = RunWaitingEvent \<longleftrightarrow> waiting_event_key r \<noteq> None)
   \<and> (waiting_event_key r = None \<longleftrightarrow> waiting_deadline r = None)
   \<and> (output_json r \<noteq> None \<longrightarrow> state r = RunCompleted)
   \<and> 0 < workflow_version r \<and> int4_ok (max_attempts r) \<and> 0 < max_attempts r
   \<and> 0 \<le> attempt r \<and> attempt r \<le> max_attempts r
   \<and> 0 \<le> lease_failures r \<and> lease_failures r \<le> max_attempts r
   \<and> (state r = RunFailed \<longleftrightarrow> attempt r = max_attempts r \<or> lease_failures r = max_attempts r)
   \<and> text_ok (workflow_name r) \<and> text_ok (queue r) \<and> opt_text_ok (waiting_event_key r)
   \<and> opt_text_ok (dedup_key r) \<and> opt_text_ok (last_error r)"

definition runs_ok :: "run_row list \<Rightarrow> bool" where
  "runs_ok rs \<longleftrightarrow>
     distinct (map rid rs) \<and> (\<forall>r \<in> set rs. row_ok r)
   \<and> (\<forall>r \<in> set rs. \<forall>s \<in> set rs.
        lease_token r \<noteq> None \<and> lease_token r = lease_token s \<longrightarrow> rid r = rid s)
   \<and> (\<forall>r \<in> set rs. \<forall>s \<in> set rs.
        dedup_key r \<noteq> None \<and> dedup_key r = dedup_key s \<and> workflow_name r = workflow_name s
        \<longrightarrow> rid r = rid s)"

abbreviation cp_key :: "checkpoint_row \<Rightarrow> uuid \<times> nat" where
  "cp_key c \<equiv> (cp_run c, cp_index c)"

definition checkpoints_ok :: "run_row list \<Rightarrow> checkpoint_row list \<Rightarrow> bool" where
  "checkpoints_ok rs cps \<longleftrightarrow> distinct (map cp_key cps) \<and> cp_run ` set cps \<subseteq> rid ` set rs"

definition events_ok :: "db \<Rightarrow> bool" where
  "events_ok d \<longleftrightarrow>
     distinct (map ev_id (events d)) \<and> (\<forall>e \<in> set (events d). ev_id e < event_seq d \<and> text_ok (ev_key e))"

definition db_ok :: "db \<Rightarrow> bool" where
  "db_ok d \<longleftrightarrow> runs_ok (runs d) \<and> checkpoints_ok (runs d) (checkpoints d) \<and> events_ok d"

lemma db_ok_empty: "db_ok empty_db"
  by (simp add: db_ok_def empty_db_def runs_ok_def checkpoints_ok_def events_ok_def)

section \<open>How the tables evolve\<close>

definition same_identity :: "run_row \<Rightarrow> run_row \<Rightarrow> bool" where
  "same_identity r r' \<longleftrightarrow>
     rid r' = rid r \<and> workflow_name r' = workflow_name r \<and> workflow_version r' = workflow_version r
   \<and> queue r' = queue r \<and> max_attempts r' = max_attempts r \<and> input_json r' = input_json r
   \<and> dedup_key r' = dedup_key r \<and> created_at r' = created_at r"

definition row_step :: "run_row \<Rightarrow> run_row \<Rightarrow> bool" where
  "row_step r r' \<longleftrightarrow>
     same_identity r r' \<and> (state r' = state r \<or> lifecycle (state r) (state r'))
   \<and> (Terminal (state r) \<longrightarrow> r' = r\<lparr>updated_at := updated_at r'\<rparr>)"

definition row_evolves :: "run_row \<Rightarrow> run_row \<Rightarrow> bool" where
  "row_evolves r r' \<longleftrightarrow>
     same_identity r r' \<and> lifecycle\<^sup>*\<^sup>* (state r) (state r')
   \<and> (Terminal (state r) \<longrightarrow> r' = r\<lparr>updated_at := updated_at r'\<rparr>)"

definition tables_related :: "(run_row \<Rightarrow> run_row \<Rightarrow> bool) \<Rightarrow> db \<Rightarrow> db \<Rightarrow> bool" where
  "tables_related R d d' \<longleftrightarrow>
     (\<forall>i r. run_of d i = Some r \<longrightarrow> (\<exists>r'. run_of d' i = Some r' \<and> R r r'))
   \<and> (\<forall>i k v. checkpoint_of (checkpoints d) i k = Some v \<longrightarrow>
        checkpoint_of (checkpoints d') i k = Some v)"

abbreviation db_step :: "db \<Rightarrow> db \<Rightarrow> bool" where
  "db_step \<equiv> tables_related row_step"

abbreviation db_evolves :: "db \<Rightarrow> db \<Rightarrow> bool" where
  "db_evolves \<equiv> tables_related row_evolves"

lemma row_step_refl [simp]: "row_step r r"
  by (simp add: row_step_def same_identity_def)

lemma row_step_evolves: "row_step r r' \<Longrightarrow> row_evolves r r'"
  by (auto simp: row_step_def row_evolves_def)

lemma row_evolves_refl [simp]: "row_evolves r r"
  by (simp add: row_evolves_def same_identity_def)

lemma row_evolves_trans: "row_evolves r s \<Longrightarrow> row_evolves s t \<Longrightarrow> row_evolves r t"
  unfolding row_evolves_def
proof (elim conjE, intro conjI impI)
  assume rs: "Terminal (state r) \<longrightarrow> s = r\<lparr>updated_at := updated_at s\<rparr>"
    and st: "Terminal (state s) \<longrightarrow> t = s\<lparr>updated_at := updated_at t\<rparr>"
    and T: "Terminal (state r)"
  from rs T have s: "s = r\<lparr>updated_at := updated_at s\<rparr>" by blast
  then have "state s = state r" by (metis run_row.select_convs(5) run_row.surjective run_row.update_convs(20))
  with st T have "t = s\<lparr>updated_at := updated_at t\<rparr>" by simp
  with s show "t = r\<lparr>updated_at := updated_at t\<rparr>"
    by (metis run_row.surjective run_row.update_convs(20))
qed (auto simp: same_identity_def)

lemma tables_related_mono:
  "tables_related R d d' \<Longrightarrow> (\<And>r r'. R r r' \<Longrightarrow> S r r') \<Longrightarrow> tables_related S d d'"
  by (fastforce simp: tables_related_def)

lemma db_step_evolves: "db_step d d' \<Longrightarrow> db_evolves d d'"
  by (erule tables_related_mono) (rule row_step_evolves)

lemma db_evolves_refl [simp]: "db_evolves d d"
  by (simp add: tables_related_def)

lemma db_step_refl [simp]: "db_step d d"
  by (simp add: tables_related_def)

lemma db_evolves_trans: "db_evolves d e \<Longrightarrow> db_evolves e f \<Longrightarrow> db_evolves d f"
  unfolding tables_related_def by (meson row_evolves_trans)

section \<open>The contract of a statement\<close>

text \<open>
  A relation between tables keeps the contract if, from consistent tables, it leads to
  consistent tables by a legal step.
\<close>

locale durable_statement =
  fixes rel :: "db \<Rightarrow> db \<Rightarrow> bool"
  assumes keeps_ok: "db_ok d \<Longrightarrow> rel d d' \<Longrightarrow> db_ok d'"
    and legal_step: "db_ok d \<Longrightarrow> rel d d' \<Longrightarrow> db_step d d'"
begin

sublocale transition_preorder rel db_ok db_evolves
proof unfold_locales
  show "db_evolves s u" if "db_evolves s t" "db_evolves t u" for s t u
    using that by (rule db_evolves_trans)
  show "db_evolves s t" if "db_ok s" "rel s t" for s t
    using that by (intro db_step_evolves legal_step)
qed (auto intro: keeps_ok)

end

section \<open>Updates of runs\<close>

text \<open>What an update of some rows needs for the invariant and the frame.\<close>

lemma run_of_update:
  assumes "\<And>r. rid (f r) = rid r"
  shows "row_with rid i (update_where p f rs) = map_option (\<lambda>r. if p r then f r else r) (row_with rid i rs)"
  using assms by (rule row_with_update_where)

lemma runs_okD:
  "runs_ok rs \<Longrightarrow> distinct (map rid rs)"
  "runs_ok rs \<Longrightarrow> r \<in> set rs \<Longrightarrow> row_ok r"
  "runs_ok rs \<Longrightarrow> r \<in> set rs \<Longrightarrow> s \<in> set rs \<Longrightarrow> lease_token r = Some t \<Longrightarrow>
     lease_token s = Some t \<Longrightarrow> rid r = rid s"
  "runs_ok rs \<Longrightarrow> r \<in> set rs \<Longrightarrow> s \<in> set rs \<Longrightarrow> dedup_key r = Some k \<Longrightarrow>
     dedup_key s = Some k \<Longrightarrow> workflow_name r = workflow_name s \<Longrightarrow> rid r = rid s"
  unfolding runs_ok_def by (elim conjE, assumption | blast | metis option.distinct(1))+

lemma runs_okI:
  assumes "distinct (map rid rs)" "\<And>r. r \<in> set rs \<Longrightarrow> row_ok r"
    and "\<And>r s t. r \<in> set rs \<Longrightarrow> s \<in> set rs \<Longrightarrow> lease_token r = Some t \<Longrightarrow>
           lease_token s = Some t \<Longrightarrow> rid r = rid s"
    and "\<And>r s k. r \<in> set rs \<Longrightarrow> s \<in> set rs \<Longrightarrow> dedup_key r = Some k \<Longrightarrow>
           dedup_key s = Some k \<Longrightarrow> workflow_name r = workflow_name s \<Longrightarrow> rid r = rid s"
  shows "runs_ok rs"
  unfolding runs_ok_def
proof (intro conjI ballI impI)
  show "rid r = rid s" if "r \<in> set rs" "s \<in> set rs"
    "lease_token r \<noteq> None \<and> lease_token r = lease_token s" for r s
    using that assms(3) [of r s] by (metis option.exhaust)
  show "rid r = rid s" if "r \<in> set rs" "s \<in> set rs"
    "dedup_key r \<noteq> None \<and> dedup_key r = dedup_key s \<and> workflow_name r = workflow_name s" for r s
    using that assms(4) [of r s] by (metis option.exhaust)
qed (use assms(1,2) in auto)

lemma runs_ok_update_gen:
  assumes ok: "runs_ok rs"
    and ident: "\<And>r. same_identity r (f r)"
    and row: "\<And>r. r \<in> set rs \<Longrightarrow> p r \<Longrightarrow> row_ok r \<Longrightarrow> row_ok (f r)"
    and tok: "\<And>r s t. r \<in> set rs \<Longrightarrow> s \<in> set rs \<Longrightarrow>
      lease_token (if p r then f r else r) = Some t \<Longrightarrow>
      lease_token (if p s then f s else s) = Some t \<Longrightarrow> rid r = rid s"
  shows "runs_ok (update_where p f rs)"
proof (rule runs_okI)
  let ?g = "\<lambda>r. if p r then f r else r"
  have g: "rid (?g r) = rid r" "workflow_name (?g r) = workflow_name r"
    "dedup_key (?g r) = dedup_key r" for r
    using ident [of r] by (auto simp: same_identity_def)
  show "distinct (map rid (update_where p f rs))"
    using map_update_where_key [of rid f p rs] ident runs_okD(1) [OF ok]
    by (simp add: same_identity_def)
  show "row_ok x" if "x \<in> set (update_where p f rs)" for x
    using that row runs_okD(2) [OF ok] by (auto simp: set_update_where)
  fix x y
  assume "x \<in> set (update_where p f rs)" "y \<in> set (update_where p f rs)"
  then obtain r s where r: "r \<in> set rs" "x = ?g r" and s: "s \<in> set rs" "y = ?g s"
    by (auto simp: set_update_where)
  show "rid x = rid y" if "lease_token x = Some t" "lease_token y = Some t" for t
    using tok [OF r(1) s(1)] that unfolding r(2) s(2) g by blast
  show "rid x = rid y" if "dedup_key x = Some k" "dedup_key y = Some k"
    "workflow_name x = workflow_name y" for k
    using runs_okD(4) [OF ok r(1) s(1)] that unfolding r(2) s(2) g by blast
qed

lemma runs_ok_update:
  assumes ok: "runs_ok rs"
    and ident: "\<And>r. same_identity r (f r)"
    and row: "\<And>r. r \<in> set rs \<Longrightarrow> p r \<Longrightarrow> row_ok r \<Longrightarrow> row_ok (f r)"
    and tok: "\<And>r. lease_token (f r) = None \<or> lease_token (f r) = lease_token r"
  shows "runs_ok (update_where p f rs)"
proof (rule runs_ok_update_gen [OF ok ident row])
  fix r s t
  assume rs: "r \<in> set rs" "s \<in> set rs"
    and t: "lease_token (if p r then f r else r) = Some t" "lease_token (if p s then f s else s) = Some t"
  have "lease_token r = Some t" "lease_token s = Some t"
    using t tok [of r] tok [of s] by (auto split: if_splits)
  with ok rs show "rid r = rid s" by (blast intro: runs_okD(3))
qed auto

lemma checkpoints_ok_update:
  assumes "\<And>r. rid (f r) = rid r"
  shows "checkpoints_ok (update_where p f rs) cps = checkpoints_ok rs cps"
proof -
  have "rid ` set (update_where p f rs) = rid ` set rs"
    using map_update_where_key [of rid f p rs] assms by (metis image_set)
  then show ?thesis by (simp add: checkpoints_ok_def)
qed

lemma update_related:
  assumes "\<And>r. rid (f r) = rid r"
    and "\<And>r. r \<in> set (runs d) \<Longrightarrow> p r \<Longrightarrow> R r (f r)" and "\<And>r. R r r"
    and "runs d' = update_where p f (runs d)"
    and "\<And>i k v. checkpoint_of (checkpoints d) i k = Some v \<Longrightarrow> checkpoint_of (checkpoints d') i k = Some v"
  shows "tables_related R d d'"
  unfolding tables_related_def
proof (intro conjI allI impI)
  fix i r
  assume r: "run_of d i = Some r"
  then have "r \<in> set (runs d)" by (auto dest: row_with_SomeD)
  with r assms(2,3) show "\<exists>r'. run_of d' i = Some r' \<and> R r r'"
    by (auto simp: assms(4) run_of_update [OF assms(1)])
qed (use assms(5) in blast)

section \<open>Checkpoints\<close>

lemma checkpoint_of_append:
  "checkpoint_of (cps @ cps') i k =
     (case checkpoint_of cps i k of Some v \<Rightarrow> Some v | None \<Rightarrow> checkpoint_of cps' i k)"
  by (simp add: checkpoint_of_def row_with_append split: option.splits)

lemma checkpoint_of_insert:
  "checkpoint_of (insert_checkpoint now i k v cps) j m =
     (case checkpoint_of cps j m of
        Some w \<Rightarrow> Some w
      | None \<Rightarrow> if (i, k) = (j, m) then Some v else None)"
proof (cases "checkpoint_of cps i k")
  case None
  then show ?thesis
    by (auto simp: insert_checkpoint_def checkpoint_of_append split: option.splits)
       (auto simp: checkpoint_of_def)
next
  case (Some w)
  then show ?thesis by (auto simp: insert_checkpoint_def split: option.splits)
qed

lemma checkpoint_insert_keeps:
  "checkpoint_of cps j m = Some w \<Longrightarrow> checkpoint_of (insert_checkpoint now i k v cps) j m = Some w"
  by (simp add: checkpoint_of_insert)

lemma checkpoints_ok_insert:
  assumes "checkpoints_ok rs cps" and "i \<in> rid ` set rs"
  shows "checkpoints_ok rs (insert_checkpoint now i k v cps)"
  using assms
  by (auto simp: checkpoints_ok_def insert_checkpoint_def checkpoint_of_def row_with_None_iff
      split: option.splits)

lemma record_outcomes_keeps:
  "checkpoint_of cps j m = Some w \<Longrightarrow> checkpoint_of (record_outcomes now v rs cps) j m = Some w"
  unfolding record_outcomes_def
  by (induction rs arbitrary: cps) (auto simp: checkpoint_insert_keeps)

lemma checkpoint_of_record_outcomes:
  "checkpoint_of (record_outcomes now v rs cps) i k =
     (case checkpoint_of cps i k of
        Some w \<Rightarrow> Some w
      | None \<Rightarrow> if (i, k) \<in> (\<lambda>r. (rid r, step_index r)) ` set rs then Some v else None)"
proof (induction rs arbitrary: cps)
  case Nil
  then show ?case by (simp add: record_outcomes_def split: option.splits)
next
  case (Cons r rs)
  have "record_outcomes now v (r # rs) cps
      = record_outcomes now v rs (insert_checkpoint now (rid r) (step_index r) v cps)"
    by (simp add: record_outcomes_def)
  with Cons show ?case
    by (auto simp: checkpoint_of_insert split: option.splits if_splits)
qed

lemma checkpoints_ok_record:
  assumes "checkpoints_ok rs cps" and "rid ` set ss \<subseteq> rid ` set rs"
  shows "checkpoints_ok rs (record_outcomes now v ss cps)"
  using assms
proof (induction ss arbitrary: cps)
  case Nil
  then show ?case by (simp add: record_outcomes_def)
next
  case (Cons s ss)
  then have "checkpoints_ok rs (insert_checkpoint now (rid s) (step_index s) v cps)"
    by (intro checkpoints_ok_insert) auto
  with Cons show ?case by (simp add: record_outcomes_def)
qed

section \<open>Statement by statement\<close>

lemma db_okD:
  "db_ok d \<Longrightarrow> distinct (map rid (runs d))"
  "db_ok d \<Longrightarrow> r \<in> set (runs d) \<Longrightarrow> row_ok r"
  by (simp_all add: db_ok_def runs_ok_def)

text \<open>With unique identifiers, the rows an update reaches by identifier are the picked ones.\<close>

lemma picked_by_id:
  assumes "distinct (map rid rs)" "r \<in> set rs" "rid r \<in> set (map rid (select_limit key n p rs))"
  shows "r \<in> set (select_limit key n p rs)" and "p r"
proof -
  obtain s where s: "s \<in> set (select_limit key n p rs)" "rid s = rid r"
    using assms(3) by auto
  then have "s \<in> set rs" by (auto dest: select_limitD)
  with s assms(1,2) have "s = r" by (metis row_with_distinct option.inject)
  with s show "r \<in> set (select_limit key n p rs)" by simp
  then show "p r" by (auto dest: select_limitD)
qed

text \<open>The two facts each statement that only updates runs needs.\<close>

lemma update_keeps_ok:
  assumes "db_ok d" and "\<And>r. same_identity r (f r)"
    and "\<And>r. r \<in> set (runs d) \<Longrightarrow> p r \<Longrightarrow> row_ok r \<Longrightarrow> row_ok (f r)"
    and "\<And>r. lease_token (f r) = None \<or> lease_token (f r) = lease_token r"
    and "d' = d\<lparr>runs := update_where p f (runs d)\<rparr>"
  shows "db_ok d'"
proof -
  have idn: "rid (f r) = rid r" for r using assms(2) [of r] by (simp add: same_identity_def)
  have "runs_ok (update_where p f (runs d))"
    using assms(1-4) by (intro runs_ok_update) (auto simp: db_ok_def)
  then show ?thesis
    using assms(1) by (simp add: assms(5) db_ok_def events_ok_def checkpoints_ok_update idn)
qed

lemma update_db_step:
  assumes "\<And>r. same_identity r (f r)"
    and "\<And>r. r \<in> set (runs d) \<Longrightarrow> p r \<Longrightarrow> row_step r (f r)"
    and "d' = d\<lparr>runs := update_where p f (runs d)\<rparr>"
  shows "db_step d d'"
proof (rule update_related)
  show "rid (f r) = rid r" for r using assms(1) [of r] by (simp add: same_identity_def)
qed (use assms in auto)

lemmas row_defs = row_ok_def row_step_def same_identity_def opt_text_ok_def lifecycle_simps

subsection \<open>Fenced writes of a claim\<close>

lemma fence_leased: "fence i token clk r \<Longrightarrow> state r = RunLeased"
  by (simp add: fence_def)

lemma completeRun_ok:
  assumes "db_ok d" "completeRun pg now clk i token index output d = Inr (n, d')"
  shows "db_ok d'" and "db_step d d'"
proof -
  obtain out where d': "d' = d\<lparr>runs := update_where (fence i token clk)
      (\<lambda>r. r\<lparr>state := RunCompleted, step_index := index, output_json := out, lease_token := None,
            lease_until := None, last_error := None, updated_at := now\<rparr>) (runs d)\<rparr>"
    using assms(2) by (auto simp: completeRun_def fenced_update_def split: option.splits)
  show "db_ok d'"
    by (rule update_keeps_ok [OF assms(1) _ _ _ d']) (auto simp: row_defs fence_def)
  show "db_step d d'"
    by (rule update_db_step [OF _ _ d']) (auto simp: row_defs fence_def)
qed

lemma parkSleep_ok:
  assumes "db_ok d" "parkSleep now clk i token next ms d = Inr (n, d')"
  shows "db_ok d'" and "db_step d d'"
proof -
  have d': "d' = d\<lparr>runs := update_where (fence i token clk)
      (\<lambda>r. r\<lparr>state := RunReady, step_index := next, next_run_at := now + interval_ms ms,
             lease_token := None, lease_until := None, last_error := None, lease_failures := 0,
             updated_at := now\<rparr>) (runs d)\<rparr>"
    using assms(2) by (auto simp: parkSleep_def fenced_update_def)
  show "db_ok d'"
    by (rule update_keeps_ok [OF assms(1) _ _ _ d']) (auto simp: row_defs fence_def)
  show "db_step d d'"
    by (rule update_db_step [OF _ _ d']) (auto simp: row_defs fence_def)
qed

lemma parkWait_ok:
  assumes "db_ok d" "parkWait now clk i token index key ms d = Inr (n, d')"
  shows "db_ok d'" and "db_step d d'"
proof -
  have d': "d' = d\<lparr>runs := update_where (fence i token clk)
      (\<lambda>r. r\<lparr>state := RunWaitingEvent, step_index := index, waiting_event_key := Some key,
              waiting_deadline := Some (now + interval_ms ms), lease_token := None,
              lease_until := None, last_error := None, lease_failures := 0,
              updated_at := now\<rparr>) (runs d)\<rparr>" and key: "text_ok key"
    using assms(2) by (auto simp: parkWait_def fenced_update_def split: if_splits)
  show "db_ok d'"
    by (rule update_keeps_ok [OF assms(1) _ _ _ d']) (auto simp: row_defs fence_def key)
  show "db_step d d'"
    by (rule update_db_step [OF _ _ d']) (auto simp: row_defs fence_def)
qed

lemma failOrRetry_stmt_ok:
  assumes "db_ok d" "failOrRetry_stmt now clk i token att ms msg d = Inr (n, d')"
    and "\<And>r. r \<in> set (runs d) \<Longrightarrow> fence i token clk r \<Longrightarrow> att = attempt r + 1"
  shows "db_ok d'" and "db_step d d'"
proof -
  have d': "d' = d\<lparr>runs := update_where (fence i token clk)
      (\<lambda>r. r\<lparr>state := (if max_attempts r \<le> att then RunFailed else RunReady), attempt := att,
              next_run_at := now + interval_ms ms, last_error := Some msg, lease_token := None,
              lease_until := None, updated_at := now\<rparr>) (runs d)\<rparr>" and msg: "text_ok msg"
    using assms(2) by (auto simp: failOrRetry_stmt_def fenced_update_def split: if_splits)
  have "row_ok (r\<lparr>state := (if max_attempts r \<le> att then RunFailed else RunReady), attempt := att,
              next_run_at := now + interval_ms ms, last_error := Some msg, lease_token := None,
              lease_until := None, updated_at := now\<rparr>)"
    if "r \<in> set (runs d)" "fence i token clk r" "row_ok r" for r
  proof -
    have "att = attempt r + 1" using assms(3) that by blast
    moreover have "state r = RunLeased" using that by (simp add: fence_def)
    ultimately show ?thesis using that msg by (auto simp: row_ok_def opt_text_ok_def)
  qed
  then show "db_ok d'"
    by (intro update_keeps_ok [OF assms(1) _ _ _ d']) (auto simp: same_identity_def)
  show "db_step d d'"
    by (rule update_db_step [OF _ _ d']) (auto simp: row_defs fence_def)
qed

lemma renewLeases_ok:
  assumes "db_ok d" "renewLeases now clk ids tokens ttl d = Inr (ts, d')"
  shows "db_ok d'" and "db_step d d'"
proof -
  have d': "d' = d\<lparr>runs := update_where (renewable (zip ids tokens) clk)
      (\<lambda>r. r\<lparr>lease_until := Some (clk + interval_ms ttl), updated_at := now\<rparr>) (runs d)\<rparr>"
    using assms(2) by (simp add: renewLeases_def)
  have leased: "state r = RunLeased" if "renewable (zip ids tokens) clk r" for r
    using that by (auto simp: renewable_def list_ex_iff fence_def)
  show "db_ok d'"
    by (rule update_keeps_ok [OF assms(1) _ _ _ d']) (auto simp: row_defs dest!: leased)
  show "db_step d d'"
    by (rule update_db_step [OF _ _ d']) (auto simp: row_defs dest!: leased)
qed

lemma cancelRun_ok:
  assumes "db_ok d" "cancelRun pg now i d = Inr (n, d')"
  shows "db_ok d'" and "db_step d d'"
proof -
  obtain u where d': "d' = d\<lparr>runs := update_where (cancellable u)
      (\<lambda>r. r\<lparr>state := RunCancelled, lease_token := None, lease_until := None,
            waiting_event_key := None, waiting_deadline := None, updated_at := now\<rparr>) (runs d)\<rparr>"
    using assms(2) by (auto simp: cancelRun_def split: option.splits)
  show "db_ok d'"
    by (rule update_keeps_ok [OF assms(1) _ _ _ d']) (auto simp: row_defs cancellable_def)
  show "db_step d d'"
    by (rule update_db_step [OF _ _ d']) (auto simp: row_defs cancellable_def)
qed

lemma commitStep_ok:
  assumes "db_ok d" "commitStep pg now clk i token index v0 complete d = Inr (res, d')"
  shows "db_ok d'" and "db_step d d'"
proof -
  consider (lost) "d' = d"
    | (won) v ex where "list_ex (owned i token index clk) (runs d)"
      "d' = d\<lparr>checkpoints := insert_checkpoint now i index v (checkpoints d),
              runs := update_where (owned i token index clk)
                (\<lambda>r. r\<lparr>step_index := Suc index, last_error := None, lease_failures := 0,
                      updated_at := now, state := (if complete then RunCompleted else state r),
                      output_json := (if complete then Some ex else None),
                      lease_token := (if complete then None else lease_token r),
                      lease_until := (if complete then None else lease_until r)\<rparr>) (runs d)\<rparr>"
    using assms(2) by (auto simp: commitStep_def Let_def split: option.splits if_splits)
  then have "db_ok d' \<and> db_step d d'"
  proof cases
    case lost
    then show ?thesis using assms(1) by simp
  next
    case won
    let ?f = "\<lambda>r. r\<lparr>step_index := Suc index, last_error := None, lease_failures := 0,
        updated_at := now, state := (if complete then RunCompleted else state r),
        output_json := (if complete then Some ex else None),
        lease_token := (if complete then None else lease_token r),
        lease_until := (if complete then None else lease_until r)\<rparr>"
    have "i \<in> rid ` set (runs d)" using won(1) by (auto simp: list_ex_iff owned_def fence_def)
    then have cps: "checkpoints_ok (runs d) (insert_checkpoint now i index v (checkpoints d))"
      using assms(1) by (simp add: db_ok_def checkpoints_ok_insert)
    have "runs_ok (update_where (owned i token index clk) ?f (runs d))"
      using assms(1) by (intro runs_ok_update) (auto simp: db_ok_def row_defs owned_def fence_def)
    with cps assms(1) have "db_ok d'"
      by (simp add: won(2) db_ok_def events_ok_def checkpoints_ok_update)
    moreover have "db_step d d'"
    proof (rule update_related)
      show "runs d' = update_where (owned i token index clk) ?f (runs d)" by (simp add: won(2))
    qed (auto simp: won(2) row_defs owned_def fence_def checkpoint_insert_keeps)
    ultimately show ?thesis ..
  qed
  then show "db_ok d'" and "db_step d d'" by blast+
qed

subsection \<open>Events, maintenance, claims and enqueues\<close>

text \<open>The step that waking a run is, for a delivery and for a time-out.\<close>

lemma wake_keeps_ok:
  assumes ok: "db_ok d"
    and wait: "\<And>r. r \<in> set (runs d) \<Longrightarrow> p r \<Longrightarrow> state r = RunWaitingEvent"
    and sub: "rid ` set ws \<subseteq> rid ` set (runs d)"
    and f: "\<And>r. f r = r\<lparr>state := RunReady, next_run_at := now, waiting_event_key := None,
                       waiting_deadline := None, last_error := g r, updated_at := now\<rparr>"
    and g: "\<And>r. g r = None \<or> g r = last_error r"
    and runs: "runs d' = update_where p f (runs d)"
    and cps: "checkpoints d' = record_outcomes now v ws (checkpoints d)"
    and ev: "events_ok d'"
  shows "db_ok d'" and "db_step d d'"
proof -
  have ident: "same_identity r (f r)" for r by (simp add: f same_identity_def)
  have g_ok: "opt_text_ok (g r)" if "opt_text_ok (last_error r)" for r
    using g [of r] that by (auto simp: opt_text_ok_def)
  have row: "row_ok (f r)" if "state r = RunWaitingEvent" "row_ok r" for r
    using that g_ok [of r] by (auto simp: f row_ok_def) (auto simp: opt_text_ok_def)
  have "runs_ok (update_where p f (runs d))"
  proof (rule runs_ok_update)
    show "runs_ok (runs d)" using ok by (simp add: db_ok_def)
  qed (use ident row wait in \<open>auto simp: f\<close>)
  moreover have "checkpoints_ok (runs d) (checkpoints d')"
    unfolding cps using ok sub by (intro checkpoints_ok_record) (auto simp: db_ok_def)
  then have "checkpoints_ok (runs d') (checkpoints d')"
    unfolding runs by (subst checkpoints_ok_update) (simp_all add: f)
  ultimately show "db_ok d'" using ev by (simp add: db_ok_def runs)
  show "db_step d d'"
  proof (rule update_related [OF _ _ _ runs])
    show "row_step r (f r)" if "r \<in> set (runs d)" "p r" for r
      using wait [OF that] by (simp add: f row_step_def same_identity_def lifecycle_simps)
  qed (simp_all add: f cps record_outcomes_keeps)
qed

lemma emitEvent_ok:
  assumes "db_ok d" "emitEvent pg now key payload ttl channel d = Inr (n, d')"
  shows "db_ok d'" and "db_step d d'"
proof -
  let ?f = "\<lambda>r. r\<lparr>state := RunReady, next_run_at := now, waiting_event_key := None,
                 waiting_deadline := None, last_error := None, updated_at := now\<rparr>"
  let ?ws = "filter (waits_on key now) (runs d)"
  obtain p where p: "jsonb_in pg payload = Some p" and key: "text_ok key"
    and d': "d' = d\<lparr>events := events d @ [\<lparr>ev_id = event_seq d, ev_key = key, ev_payload = p,
        ev_created_at = now, ev_expires_at = now + interval_ms ttl\<rparr>],
      event_seq := Suc (event_seq d), runs := update_where (waits_on key now) ?f (runs d),
      checkpoints := record_outcomes now (received p) ?ws (checkpoints d),
      notifications := notifications d @ notify_queues channel ?ws\<rparr>"
    using assms(2) by (auto simp: emitEvent_def Let_def split: option.splits if_splits)
  have ev: "events_ok d'"
    using assms(1) key by (fastforce simp: d' db_ok_def events_ok_def)
  note w = wake_keeps_ok [OF assms(1), where p = "waits_on key now" and f = ?f
      and g = "\<lambda>_. None" and now = now and ws = ?ws and v = "received p" and d' = d']
  show "db_ok d'" by (rule w) (auto simp: waits_on_def d' intro: ev [unfolded d'])
  show "db_step d d'" by (rule w) (auto simp: waits_on_def d' intro: ev [unfolded d'])
qed

lemma promoteTimedOut_ok:
  assumes "db_ok d" "promoteTimedOut locked now channel d = Inr (n, d')"
  shows "db_ok d'" and "db_step d d'"
proof -
  let ?ws = "promote_picked locked now d"
  let ?p = "\<lambda>r. rid r \<in> set (map rid ?ws)"
  let ?f = "\<lambda>r. r\<lparr>state := RunReady, next_run_at := now, waiting_event_key := None,
                 waiting_deadline := None, updated_at := now\<rparr>"
  have d': "d' = d\<lparr>runs := update_where ?p ?f (runs d),
      checkpoints := record_outcomes now timed_out ?ws (checkpoints d),
      notifications := notifications d @ notify_queues channel ?ws\<rparr>"
    using assms(2) by (auto simp: promoteTimedOut_def Let_def)
  have wait: "state r = RunWaitingEvent" if "r \<in> set (runs d)" "?p r" for r
    using picked_by_id(2) [OF db_okD(1) [OF assms(1)] that(1)] that(2)
    unfolding promote_picked_def by (auto simp: wait_expired_def)
  have sub: "rid ` set ?ws \<subseteq> rid ` set (runs d)"
    unfolding promote_picked_def by (auto dest: select_limitD)
  have ev: "events_ok d'" using assms(1) by (simp add: d' db_ok_def events_ok_def)
  have f: "?f r = r\<lparr>state := RunReady, next_run_at := now, waiting_event_key := None,
      waiting_deadline := None, last_error := last_error r, updated_at := now\<rparr>" for r
    by simp
  note w = wake_keeps_ok [OF assms(1) _ sub f _ _ _ ev, where p = ?p and v = timed_out]
  show "db_ok d'" by (rule w) (use wait in \<open>auto simp: d'\<close>)
  show "db_step d d'" by (rule w) (use wait in \<open>auto simp: d'\<close>)
qed

lemma text_ok_lease_expired: "text_ok ''lease expired''"
  by (simp add: text_ok_def valid_utf8.simps rune_len_def)

lemma recoverLeases_ok:
  assumes "db_ok d" "recoverLeases locked now clk d = Inr (n, d')"
  shows "db_ok d'" and "db_step d d'"
proof -
  let ?ws = "recover_picked locked now d"
  let ?p = "\<lambda>r. rid r \<in> set (map rid ?ws)"
  let ?f = "\<lambda>r. r\<lparr>state := (if max_attempts r \<le> lease_failures r + 1 then RunFailed else RunReady),
                 lease_failures := lease_failures r + 1,
                 next_run_at := clk + interval_ms (recovery_backoff_ms (lease_failures r)),
                 lease_token := None, lease_until := None,
                 last_error := Some ''lease expired'', updated_at := now\<rparr>"
  have d': "d' = d\<lparr>runs := update_where ?p ?f (runs d)\<rparr>"
    using assms(2) by (simp add: recoverLeases_def Let_def)
  have leased: "state r = RunLeased" if "r \<in> set (runs d)" "?p r" for r
    using picked_by_id(2) [OF db_okD(1) [OF assms(1)] that(1)] that(2)
    unfolding recover_picked_def by (auto simp: lease_expired_def)
  have row: "row_ok (?f r)" if "state r = RunLeased" "row_ok r" for r
    using that by (auto simp: row_ok_def opt_text_ok_def text_ok_lease_expired)
  show "db_ok d'"
    by (rule update_keeps_ok [OF assms(1) _ _ _ d'])
       (use leased row in \<open>auto simp: same_identity_def\<close>)
  have step: "row_step r (?f r)" if "state r = RunLeased" for r
    using that by (simp add: row_step_def same_identity_def lifecycle_simps)
  show "db_step d d'"
    by (rule update_db_step [OF _ _ d']) (use leased step in \<open>auto simp: same_identity_def\<close>)
qed

lemma pruneEvents_ok:
  assumes "db_ok d" "pruneEvents locked now d = Inr (n, d')"
  shows "db_ok d'" and "db_step d d'"
  using assms by (auto simp: pruneEvents_def Let_def db_ok_def events_ok_def distinct_map_filter
      tables_related_def)

text \<open>Claims hand out one new token per row: the documented uniqueness of \<open>gen_random_uuid\<close>.\<close>

definition fresh_tokens :: "(uuid \<Rightarrow> uuid) \<Rightarrow> uuid list \<Rightarrow> uuid list \<Rightarrow> bool" where
  "fresh_tokens gen ids used \<longleftrightarrow>
     inj_on gen (set ids) \<and> gen ` set ids \<inter> set used = {}"

lemma leased_tokens_unique:
  assumes "runs_ok rs" "inj_on gen ids" and fresh: "gen ` ids \<inter> set (List.map_filter lease_token rs) = {}"
    and rs: "r \<in> set rs" "s \<in> set rs"
    and t: "lease_token (if rid r \<in> ids then lease_row now clk ttl gen r else r) = Some t"
      "lease_token (if rid s \<in> ids then lease_row now clk ttl gen s else s) = Some t"
  shows "rid r = rid s"
proof -
  have old: "t \<in> set (List.map_filter lease_token rs)" if "x \<in> set rs" "lease_token x = Some t" for x
    using that by (force simp: map_filter_def)
  have new: "t \<in> gen ` ids" if "rid x \<in> ids" "lease_token (lease_row now clk ttl gen x) = Some t" for x
    using that by (auto simp: lease_row_def)
  consider "rid r \<in> ids" "rid s \<in> ids" | "rid r \<notin> ids" "rid s \<notin> ids"
    using t old [OF rs(1)] old [OF rs(2)] new [of r] new [of s] fresh by (auto split: if_splits)
  then show ?thesis
  proof cases
    case 1
    then have "gen (rid r) = gen (rid s)" using t by (simp add: lease_row_def)
    then show ?thesis using assms(2) 1 by (meson inj_onD)
  next
    case 2
    then show ?thesis using runs_okD(3) [OF assms(1) rs] t by simp
  qed
qed

lemma claim_ok:
  assumes ok: "db_ok d" and cl: "claim pred gen locked now clk q limit ttl d = Inr (cs, d')"
    and fresh: "fresh_tokens gen (map rid (claim_picked pred locked now q limit d))
                  (List.map_filter lease_token (runs d))"
  shows "db_ok d'" and "db_step d d'"
proof -
  let ?ws = "claim_picked pred locked now q limit d"
  let ?p = "\<lambda>r. rid r \<in> set (map rid ?ws)"
  let ?f = "lease_row now clk ttl gen"
  have d': "d' = d\<lparr>runs := update_where ?p ?f (runs d)\<rparr>"
    using cl by (simp add: claim_def Let_def)
  have ready: "state r = RunReady" if "r \<in> set (runs d)" "?p r" for r
    using picked_by_id(2) [OF db_okD(1) [OF ok] that(1)] that(2)
    unfolding claim_picked_def by (auto simp: due_in_def)
  have ident: "same_identity r (?f r)" for r by (simp add: lease_row_def same_identity_def)
  have row: "row_ok (?f r)" if "state r = RunReady" "row_ok r" for r
    using that by (auto simp: row_ok_def lease_row_def)
  have "runs_ok (update_where ?p ?f (runs d))"
  proof (rule runs_ok_update_gen)
    show rok: "runs_ok (runs d)" using ok by (simp add: db_ok_def)
    fix r s t
    assume "r \<in> set (runs d)" "s \<in> set (runs d)" "lease_token (if ?p r then ?f r else r) = Some t"
      "lease_token (if ?p s then ?f s else s) = Some t"
    then show "rid r = rid s"
      using leased_tokens_unique [OF rok, of gen "set (map rid ?ws)"] fresh unfolding fresh_tokens_def by blast
  qed (use ident ready row in auto)
  then show "db_ok d'"
    using ok by (simp add: d' db_ok_def events_ok_def checkpoints_ok_update lease_row_def)
  show "db_step d d'"
    by (rule update_db_step [OF ident _ d'])
       (use ready in \<open>auto simp: row_step_def ident lease_row_def lifecycle_simps same_identity_def\<close>)
qed

lemma insertRun_cases:
  assumes "insertRun pg now i name version q maxA sched input dedup channel d = Inr (res, d')"
  obtains
    (existing) r k where "dedup = Some k" "r \<in> set (runs d)" "workflow_name r = name"
      "dedup_key r = Some k" "res = (rid r, 0)"
      "d' = d\<lparr>runs := update_where (\<lambda>s. rid s = rid r) (\<lambda>s. s\<lparr>updated_at := now\<rparr>) (runs d)\<rparr>"
  | (inserted) u inp due nts where "uuid_in pg i = Some u" "jsonb_in pg input = Some inp"
      "run_of d u = None" "due = (case sched of Some t \<Rightarrow> t | None \<Rightarrow> now)"
      "nts = (if due \<le> now then [(channel, q)] else [])" "res = (u, length nts)"
      "0 < version" "0 < maxA" "int4_ok version" "int4_ok maxA"
      "text_ok name" "text_ok q" "opt_text_ok dedup"
      "\<forall>r \<in> set (runs d). \<forall>k. dedup = Some k \<longrightarrow> \<not> (workflow_name r = name \<and> dedup_key r = Some k)"
      "d' = d\<lparr>runs := runs d @
         [\<lparr>rid = u, workflow_name = name, workflow_version = version, queue = q, state = RunReady,
           step_index = 0, attempt = 0, max_attempts = maxA, lease_failures = 0, next_run_at = due,
           lease_token = None, lease_until = None, waiting_event_key = None,
           waiting_deadline = None, input_json = inp, output_json = None, dedup_key = dedup,
           last_error = None, created_at = now, updated_at = now\<rparr>],
         notifications := notifications d @ nts\<rparr>"
proof -
  obtain u inp where ui: "uuid_in pg i = Some u" "jsonb_in pg input = Some inp"
    and g: "int4_ok version" "int4_ok maxA" "text_ok name" "text_ok q" "opt_text_ok dedup"
      "0 < version" "0 < maxA"
    using assms by (auto simp: insertRun_def opt_text_ok_def split: option.splits if_splits)
  let ?find = "case dedup of None \<Rightarrow> None
      | Some k \<Rightarrow> find (\<lambda>r. workflow_name r = name \<and> dedup_key r = Some k) (runs d)"
  have dd: "list_all text_ok (case dedup of None \<Rightarrow> [] | Some k \<Rightarrow> [k])"
    using g by (auto simp: opt_text_ok_def split: option.splits)
  show thesis
  proof (cases ?find)
    case (Some r)
    then obtain k where k: "dedup = Some k" "find (\<lambda>r. workflow_name r = name \<and> dedup_key r = Some k) (runs d) = Some r"
      by (auto split: option.splits)
    then have r: "r \<in> set (runs d)" "workflow_name r = name" "dedup_key r = Some k"
      by (auto simp: find_Some_iff)
    show thesis
      by (rule existing [OF k(1) r]) (use assms ui g dd Some in \<open>auto simp: insertRun_def\<close>)
  next
    case None
    then have n: "\<forall>r \<in> set (runs d). \<forall>k. dedup = Some k \<longrightarrow> \<not> (workflow_name r = name \<and> dedup_key r = Some k)"
      by (auto simp: find_None_iff split: option.splits)
    have e: "run_of d u = None"
      using assms ui g dd None by (auto simp: insertRun_def split: option.splits)
    show thesis
      by (rule inserted [OF ui e refl refl _ g(6,7,1-5) n])
         (use assms ui g dd None e in \<open>auto simp: insertRun_def Let_def\<close>)
  qed
qed

lemma insertRun_ok:
  assumes ok: "db_ok d" and ins: "insertRun pg now i name version q maxA sched input dedup channel d = Inr (res, d')"
  shows "db_ok d'" and "db_step d d'"
proof -
  from ins have "db_ok d' \<and> db_step d d'"
  proof (cases rule: insertRun_cases)
    case (existing r k)
    have "db_ok d'"
      by (rule update_keeps_ok [OF ok _ _ _ existing(6)]) (auto simp: same_identity_def row_ok_def)
    moreover have "db_step d d'"
      by (rule update_db_step [OF _ _ existing(6)]) (auto simp: same_identity_def row_step_def)
    ultimately show ?thesis ..
  next
    case (inserted u inp due nts)
    have new: "u \<notin> rid ` set (runs d)" using inserted(3) by (simp add: row_with_None_iff)
    obtain n where n: "runs d' = runs d @ [n]" "rid n = u" "row_ok n" "lease_token n = None"
      "dedup_key n = dedup" "workflow_name n = name"
      using inserted(7-13) by (simp add: inserted(15) row_ok_def opt_text_ok_def)
    have rok: "runs_ok (runs d)" using ok by (simp add: db_ok_def)
    have "runs_ok (runs d')"
      unfolding n(1)
    proof (rule runs_okI)
      show "distinct (map rid (runs d @ [n]))" using new n(2) runs_okD(1) [OF rok] by auto
      show "row_ok r" if "r \<in> set (runs d @ [n])" for r
        using that n(3) runs_okD(2) [OF rok] by auto
      show "rid r = rid s" if "r \<in> set (runs d @ [n])" "s \<in> set (runs d @ [n])"
        "lease_token r = Some t" "lease_token s = Some t" for r s t
        using that n(4) runs_okD(3) [OF rok, of r s t] by auto
      show "rid r = rid s" if "r \<in> set (runs d @ [n])" "s \<in> set (runs d @ [n])"
        "dedup_key r = Some k" "dedup_key s = Some k" "workflow_name r = workflow_name s" for r s k
        using that n(5,6) runs_okD(4) [OF rok, of r s k] inserted(14) by auto
    qed
    moreover have "checkpoints_ok (runs d') (checkpoints d')"
      using ok by (auto simp: inserted(15) db_ok_def checkpoints_ok_def)
    moreover have "events_ok d'" using ok by (simp add: inserted(15) db_ok_def events_ok_def)
    moreover have "db_step d d'"
      by (simp add: inserted(15) tables_related_def row_with_append)
    ultimately show ?thesis by (simp add: db_ok_def)
  qed
  then show "db_ok d'" and "db_step d d'" by blast+
qed

subsection \<open>The contract, statement by statement\<close>

interpretation enqueue: durable_statement
  "\<lambda>d d'. \<exists>pg now i name ver q m sched inp dd ch res.
     insertRun pg now i name ver q m sched inp dd ch d = Inr (res, d')"
  by unfold_locales (elim exE, rule insertRun_ok, assumption+)+

interpretation emit: durable_statement
  "\<lambda>d d'. \<exists>pg now key payload ttl ch res. emitEvent pg now key payload ttl ch d = Inr (res, d')"
  by unfold_locales (elim exE, rule emitEvent_ok, assumption+)+

interpretation cancellation: durable_statement "\<lambda>d d'. \<exists>pg now i n. cancelRun pg now i d = Inr (n, d')"
  by unfold_locales (elim exE, rule cancelRun_ok, assumption+)+

interpretation renewal: durable_statement
  "\<lambda>d d'. \<exists>now clk ids tokens ttl ts. renewLeases now clk ids tokens ttl d = Inr (ts, d')"
  by unfold_locales (elim exE, rule renewLeases_ok, assumption+)+

interpretation commit: durable_statement
  "\<lambda>d d'. \<exists>pg now clk i token index v c res. commitStep pg now clk i token index v c d = Inr (res, d')"
  by unfold_locales (elim exE, rule commitStep_ok, assumption+)+

interpretation completion: durable_statement
  "\<lambda>d d'. \<exists>pg now clk i token index out n. completeRun pg now clk i token index out d = Inr (n, d')"
  by unfold_locales (elim exE, rule completeRun_ok, assumption+)+

interpretation sleep_parking: durable_statement
  "\<lambda>d d'. \<exists>now clk i token next ms n. parkSleep now clk i token next ms d = Inr (n, d')"
  by unfold_locales (elim exE, rule parkSleep_ok, assumption+)+

interpretation wait_parking: durable_statement
  "\<lambda>d d'. \<exists>now clk i token index key ms n. parkWait now clk i token index key ms d = Inr (n, d')"
  by unfold_locales (elim exE, rule parkWait_ok, assumption+)+

interpretation recovery: durable_statement
  "\<lambda>d d'. \<exists>locked now clk n. recoverLeases locked now clk d = Inr (n, d')"
  by unfold_locales (elim exE, rule recoverLeases_ok, assumption+)+

interpretation promotion: durable_statement
  "\<lambda>d d'. \<exists>locked now ch n. promoteTimedOut locked now ch d = Inr (n, d')"
  by unfold_locales (elim exE, rule promoteTimedOut_ok, assumption+)+

interpretation pruning: durable_statement "\<lambda>d d'. \<exists>locked now n. pruneEvents locked now d = Inr (n, d')"
  by unfold_locales (elim exE, rule pruneEvents_ok, assumption+)+

end
