(* ===== verification/Engine_Api.thy ===== *)
theory Engine_Api
  imports Workflow_Builder Store_Invariant
begin

text \<open>
  The model of \<open>engine.go\<close>: construction of an engine and its validation, the registry of
  workflows, and the client operations \<open>Enqueue\<close>, \<open>EmitEvent\<close>, \<open>RunStatus\<close>, \<open>RunOutput\<close>
  and \<open>Cancel\<close>, which issue the statements of \<open>Run_Store\<close>; and the flag and the counter
  behind \<open>StartWorker\<close> and \<open>WaitForIdle\<close>.  An operation takes the clock readings, the
  faults of its statements and the iteration order of Go's maps as arguments and returns
  its result with the tables.  The lemmas show what a constructed engine guarantees, that
  the result never depends on the map order, the effect of each operation on every
  branch, and that enqueueing is idempotent under a key.
\<close>

section \<open>Engines\<close>

record Config =
  cfg_DB :: bool \<comment> \<open>whether the pool is given\<close>
  cfg_Schema :: string
  cfg_Queue :: string
  cfg_MaxConcurrency :: int
  cfg_PollInterval :: duration
  cfg_LeaseTTL :: duration
  cfg_HeartbeatInterval :: duration

definition defaultSchema :: string where "defaultSchema = ''durable''"
definition defaultQueue :: string where "defaultQueue = ''default''"
definition defaultPollInterval :: duration where "defaultPollInterval = 250 * Millisecond"
definition defaultLeaseTTL :: duration where "defaultLeaseTTL = 30 * Second"
definition defaultHeartbeatInterval :: duration where "defaultHeartbeatInterval = 10 * Second"
definition defaultMaxAttempts :: int where "defaultMaxAttempts = 25"
definition defaultEventTTL :: duration where "defaultEventTTL = 24 * Hour"
definition maxSchemaLength :: nat where "maxSchemaLength = 48"

type_synonym workflowKey = "string \<times> int"

record Engine =
  e_schema :: string
  e_qSchema :: string
  e_queue :: string
  e_channel :: string
  e_maxConcurrency :: int
  e_pollInterval :: duration
  e_leaseTTL :: duration
  e_heartbeatEvery :: duration
  e_eventTTL :: duration
  e_workerID :: string
  e_workflows :: "workflowKey \<rightharpoonup> compiledWorkflow"
  e_activeClaims :: nat
  e_workerRunning :: bool

datatype new_error =
    DBRequired
  | InvalidSchema string
  | HeartbeatTooLong duration duration

text \<open>The defaulting conditionals of \<open>New\<close>.\<close>

definition positive_or :: "int \<Rightarrow> int \<Rightarrow> int" where
  "positive_or x y = (if x \<le> 0 then y else x)"

definition text_or :: "string \<Rightarrow> string \<Rightarrow> string" where
  "text_or s t = (if s = [] then t else s)"

text \<open>\<open>procs\<close> is \<open>runtime.GOMAXPROCS(0)\<close> and \<open>wid\<close> the identifier drawn for the worker.\<close>

definition New :: "int \<Rightarrow> string \<Rightarrow> Config \<Rightarrow> new_error + Engine" where
  "New procs wid cfg =
     (if \<not> cfg_DB cfg then Inl DBRequired
      else
        (let schema = text_or (cfg_Schema cfg) defaultSchema in
         if \<not> identPattern schema \<or> maxSchemaLength < length schema then Inl (InvalidSchema schema)
         else
           (let q = text_or (TrimSpace (cfg_Queue cfg)) defaultQueue;
                maxConcurrency = positive_or (cfg_MaxConcurrency cfg) (positive_or procs 1);
                pollInterval = positive_or (cfg_PollInterval cfg) defaultPollInterval;
                leaseTTL = positive_or (cfg_LeaseTTL cfg) defaultLeaseTTL;
                heartbeat = positive_or (cfg_HeartbeatInterval cfg) defaultHeartbeatInterval
            in if leaseTTL \<le> heartbeat then Inl (HeartbeatTooLong heartbeat leaseTTL)
               else Inr \<lparr>e_schema = schema, e_qSchema = quoteIdentifier schema, e_queue = q,
                         e_channel = ''durablepg_'' @ schema, e_maxConcurrency = maxConcurrency,
                         e_pollInterval = pollInterval, e_leaseTTL = leaseTTL,
                         e_heartbeatEvery = heartbeat, e_eventTTL = defaultEventTTL,
                         e_workerID = wid, e_workflows = Map.empty, e_activeClaims = 0,
                         e_workerRunning = False\<rparr>)))"

definition table :: "Engine \<Rightarrow> string \<Rightarrow> string" where
  "table e name = e_qSchema e @ ''.'' @ quoteIdentifier name"

section \<open>The registry\<close>

datatype register_panic =
    CompileFailed compile_error
  | AlreadyRegistered string int

definition Register :: "Workflow_value option \<Rightarrow> Engine \<Rightarrow> register_panic + Engine" where
  "Register w e =
     (case compileWorkflow w of
        Inl err \<Rightarrow> Inl (CompileFailed err)
      | Inr compiled \<Rightarrow>
          (let key = (cw_name compiled, cw_version compiled) in
           if e_workflows e key \<noteq> None then Inl (AlreadyRegistered (cw_name compiled) (cw_version compiled))
           else Inr (e\<lparr>e_workflows := (e_workflows e)(key \<mapsto> compiled)\<rparr>)))"

definition RegisterWorkflow :: "string \<Rightarrow> build_cmd list option \<Rightarrow> Engine \<Rightarrow> register_panic + Engine" where
  "RegisterWorkflow name build = Register (Some (DefineWorkflow name build))"

definition RegisterWorkflowVersion ::
    "string \<Rightarrow> int \<Rightarrow> build_cmd list option \<Rightarrow> Engine \<Rightarrow> register_panic + Engine" where
  "RegisterWorkflowVersion name version build = Register (Some (DefineWorkflowVersion name version build))"

definition workflow :: "Engine \<Rightarrow> string \<Rightarrow> int \<Rightarrow> compiledWorkflow option" where
  "workflow e name version = e_workflows e (name, version)"

text \<open>\<open>order\<close> is the order in which \<open>range e.workflows\<close> visits the keys.\<close>

fun latest_loop ::
    "(workflowKey \<rightharpoonup> compiledWorkflow) \<Rightarrow> string \<Rightarrow> workflowKey list \<Rightarrow> compiledWorkflow option
     \<Rightarrow> compiledWorkflow option" where
  "latest_loop m name [] latest = latest"
| "latest_loop m name (key # keys) latest =
     latest_loop m name keys
       (if fst key = name \<and> (case latest of None \<Rightarrow> True | Some l \<Rightarrow> cw_version l < snd key)
        then m key else latest)"

definition latestWorkflow :: "workflowKey list \<Rightarrow> Engine \<Rightarrow> string \<Rightarrow> compiledWorkflow option" where
  "latestWorkflow order e name = latest_loop (e_workflows e) name order None"

definition supportedWorkflows :: "workflowKey list \<Rightarrow> Engine \<Rightarrow> string list \<times> int list" where
  "supportedWorkflows order e = (map fst order, map snd order)"

definition map_order :: "('k \<rightharpoonup> 'v) \<Rightarrow> 'k list \<Rightarrow> bool" where
  "map_order m ks \<longleftrightarrow> distinct ks \<and> set ks = dom m"

section \<open>Client operations\<close>

datatype api_error =
    MarshalInput string
  | MarshalPayload string
  | Panicked string
  | NegativeVersion
  | NotRegistered string int
  | QueueEmpty
  | MaxAttemptsNotPositive int
  | EventKeyRequired
  | RunNotFound
  | DecodeOutput string
  | WorkerAlreadyRunning
  | WorkerStillRunning
  | Context_Done
  | ApiDb string pg_error

text \<open>
  \<open>Enqueue\<close> in two parts.  The first computes the arguments of the statement or fails:
  \<open>fresh\<close> is the value of \<open>newUUID()\<close>, drawn when the options give no identifier.
\<close>

record run_request =
  rq_id :: string
  rq_name :: string
  rq_version :: int
  rq_queue :: string
  rq_maxAttempts :: int
  rq_scheduledAt :: "timestamptz option"
  rq_input :: json
  rq_dedup :: "string option"

definition default_options :: "Engine \<Rightarrow> enqueueOptions" where
  "default_options e =
     \<lparr>o_runID = '''', o_workflowVersion = 0, o_queue = e_queue e,
      o_maxAttempts = defaultMaxAttempts, o_idempotencyKey = '''', o_scheduledAt = None\<rparr>"

abbreviation enqueue_options :: "Engine \<Rightarrow> EnqueueOption list \<Rightarrow> enqueueOptions" where
  "enqueue_options e opts \<equiv> apply_options opts (default_options e)"

definition request_of :: "string \<Rightarrow> json \<Rightarrow> compiledWorkflow \<Rightarrow> enqueueOptions \<Rightarrow> run_request" where
  "request_of fresh rawInput cw o1 =
     \<lparr>rq_id = (if o_runID o1 = '''' then fresh else o_runID o1),
      rq_name = cw_name cw, rq_version = cw_version cw, rq_queue = TrimSpace (o_queue o1),
      rq_maxAttempts = o_maxAttempts o1, rq_scheduledAt = o_scheduledAt o1, rq_input = rawInput,
      rq_dedup = (if o_idempotencyKey o1 = '''' then None else Some (o_idempotencyKey o1))\<rparr>"

definition enqueue_request ::
    "workflowKey list \<Rightarrow> string \<Rightarrow> Engine \<Rightarrow> string \<Rightarrow> marshal_result \<Rightarrow> EnqueueOption list
     \<Rightarrow> api_error + run_request" where
  "enqueue_request order fresh e name input opts =
     (case input of
        MarshalError m \<Rightarrow> Inl (MarshalInput m)
      | MarshalPanic m \<Rightarrow> Inl (Panicked m)
      | Marshalled rawInput \<Rightarrow>
          (let o1 = enqueue_options e opts in
           if o_workflowVersion o1 < 0 then Inl NegativeVersion
           else
             (case (if o_workflowVersion o1 = 0 then latestWorkflow order e name
                    else workflow e name (o_workflowVersion o1)) of
                None \<Rightarrow> Inl (NotRegistered name (o_workflowVersion o1))
              | Some cw \<Rightarrow>
                  if TrimSpace (o_queue o1) = '''' then Inl QueueEmpty
                  else if o_maxAttempts o1 \<le> 0 then Inl (MaxAttemptsNotPositive (o_maxAttempts o1))
                  else Inr (request_of fresh rawInput cw o1))))"

text \<open>The second issues the statement.\<close>

definition insert_request :: "pg \<Rightarrow> timestamptz \<Rightarrow> string \<Rightarrow> run_request \<Rightarrow> (uuid \<times> nat) stmt" where
  "insert_request pg now channel rq =
     insertRun pg now (rq_id rq) (rq_name rq) (rq_version rq) (rq_queue rq) (rq_maxAttempts rq)
       (rq_scheduledAt rq) (rq_input rq) (rq_dedup rq) channel"

definition Enqueue ::
    "pg \<Rightarrow> fault \<Rightarrow> timestamptz \<Rightarrow> workflowKey list \<Rightarrow> string \<Rightarrow> Engine \<Rightarrow> string \<Rightarrow> marshal_result
     \<Rightarrow> EnqueueOption list \<Rightarrow> db \<Rightarrow> (api_error + WorkflowID) \<times> db" where
  "Enqueue pg f now order fresh e name input opts d =
     (case enqueue_request order fresh e name input opts of
        Inl err \<Rightarrow> (Inl err, d)
      | Inr rq \<Rightarrow>
          (case exec f (insert_request pg now (e_channel e) rq) d of
             (Inl err, d') \<Rightarrow> (Inl (ApiDb ''enqueue'' err), d')
           | (Inr (i, notified), d') \<Rightarrow> (Inr i, d')))"

definition Run ::
    "pg \<Rightarrow> fault \<Rightarrow> timestamptz \<Rightarrow> workflowKey list \<Rightarrow> string \<Rightarrow> Engine \<Rightarrow> string \<Rightarrow> marshal_result
     \<Rightarrow> EnqueueOption list \<Rightarrow> db \<Rightarrow> (api_error + WorkflowID) \<times> db" where
  "Run pg f now order fresh e name input opts = Enqueue pg f now order fresh e name input opts"

definition RunWorkflow ::
    "pg \<Rightarrow> fault \<Rightarrow> timestamptz \<Rightarrow> workflowKey list \<Rightarrow> string \<Rightarrow> Engine \<Rightarrow> string \<Rightarrow> marshal_result
     \<Rightarrow> EnqueueOption list \<Rightarrow> db \<Rightarrow> (api_error + WorkflowID) \<times> db" where
  "RunWorkflow pg f now order fresh e name input opts = Run pg f now order fresh e name input opts"

text \<open>
  A transaction under the lock of an event key.  Its lock statement fails on a key that is
  not valid text; a fault may strike at each of its stages; when the response to the
  commit is lost, the transaction took effect.
\<close>

datatype tx_fault =
    TxNoFault
  | TxBegin string
  | TxLock string
  | TxQuery string
  | TxCommit string
  | TxCommitLost string

definition EmitEvent ::
    "pg \<Rightarrow> tx_fault \<Rightarrow> timestamptz \<Rightarrow> Engine \<Rightarrow> string \<Rightarrow> marshal_result \<Rightarrow> db \<Rightarrow> (api_error + nat) \<times> db" where
  "EmitEvent pg f now e key0 payload d =
     (let key = TrimSpace key0 in
      if key = '''' then (Inl EventKeyRequired, d)
      else
        (case payload of
           MarshalError m \<Rightarrow> (Inl (MarshalPayload m), d)
         | MarshalPanic m \<Rightarrow> (Inl (Panicked m), d)
         | Marshalled raw \<Rightarrow>
             (case f of
                TxBegin m \<Rightarrow> (Inl (ApiDb ''begin emit tx'' (ConnectionError m)), d)
              | TxLock m \<Rightarrow> (Inl (ApiDb ''lock event key'' (ConnectionError m)), d)
              | _ \<Rightarrow>
                  if \<not> text_ok key then (Inl (ApiDb ''lock event key'' InvalidText), d)
                  else
                    (case f of
                       TxQuery m \<Rightarrow> (Inl (ApiDb ''emit event'' (ConnectionError m)), d)
                     | _ \<Rightarrow>
                         (case emitEvent pg now key raw (milliseconds (e_eventTTL e)) (e_channel e) d of
                            Inl err \<Rightarrow> (Inl (ApiDb ''emit event'' err), d)
                          | Inr ((woken, notified), d') \<Rightarrow>
                              (case f of
                                 TxCommit m \<Rightarrow> (Inl (ApiDb ''commit emit tx'' (ConnectionError m)), d)
                               | TxCommitLost m \<Rightarrow> (Inl (ApiDb ''commit emit tx'' (ConnectionError m)), d')
                               | _ \<Rightarrow> (Inr woken, d')))))))"

text \<open>The reads: a fault is \<^term>\<open>Some\<close> message.\<close>

definition RunStatus_op :: "pg \<Rightarrow> string option \<Rightarrow> WorkflowID \<Rightarrow> db \<Rightarrow> api_error + RunStatus" where
  "RunStatus_op pg f i d =
     (case f of
        Some m \<Rightarrow> Inl (ApiDb ''run status'' (ConnectionError m))
      | None \<Rightarrow>
          (case runStatus pg i d of
             Inl err \<Rightarrow> Inl (ApiDb ''run status'' err)
           | Inr None \<Rightarrow> Inl RunNotFound
           | Inr (Some r) \<Rightarrow>
               Inr \<lparr>st_ID = rid r, st_WorkflowName = workflow_name r,
                    st_WorkflowVersion = workflow_version r, st_Queue = queue r, st_State = state r,
                    st_StepIndex = step_index r, st_Attempt = attempt r,
                    st_MaxAttempts = max_attempts r, st_LeaseFailures = lease_failures r,
                    st_NextRunAt = next_run_at r, st_WaitingEventKey = waiting_event_key r,
                    st_WaitingDeadline = waiting_deadline r, st_LastError = last_error r,
                    st_CreatedAt = created_at r, st_UpdatedAt = updated_at r\<rparr>))"

text \<open>The flag, what is stored in \<open>dst\<close>, and the error.\<close>

definition RunOutput ::
    "pg \<Rightarrow> string option \<Rightarrow> WorkflowID \<Rightarrow> 'v decoder \<Rightarrow> db \<Rightarrow> bool \<times> 'v option \<times> api_error option" where
  "RunOutput pg f i dst d =
     (case f of
        Some m \<Rightarrow> (False, None, Some (ApiDb ''run output'' (ConnectionError m)))
      | None \<Rightarrow>
          (case runOutput pg i d of
             Inl err \<Rightarrow> (False, None, Some (ApiDb ''run output'' err))
           | Inr None \<Rightarrow> (False, None, Some RunNotFound)
           | Inr (Some (st, out)) \<Rightarrow>
               if st \<noteq> RunCompleted then (False, None, None)
               else
                 (case dst (case out of None \<Rightarrow> JNull | Some v \<Rightarrow> v) of
                    Inl m \<Rightarrow> (True, None, Some (DecodeOutput m))
                  | Inr x \<Rightarrow> (True, Some x, None))))"

text \<open>\<open>other\<close> is what other clients do between the two statements.\<close>

definition Cancel ::
    "pg \<Rightarrow> fault \<Rightarrow> string option \<Rightarrow> timestamptz \<Rightarrow> (db \<Rightarrow> db) \<Rightarrow> WorkflowID \<Rightarrow> db
     \<Rightarrow> (api_error + CancelOutcome) \<times> db" where
  "Cancel pg f1 f2 now other i d =
     (case exec f1 (cancelRun pg now i) d of
        (Inl err, d1) \<Rightarrow> (Inl (ApiDb ''cancel run'' err), d1)
      | (Inr n, d1) \<Rightarrow>
          if 0 < n then (Inr \<lparr>Cancelled = True, outcome_State = Some RunCancelled\<rparr>, d1)
          else
            (let d2 = other d1 in
             (case f2 of
                Some m \<Rightarrow> (Inl (ApiDb ''read cancelled run'' (ConnectionError m)), d2)
              | None \<Rightarrow>
                  (case runState pg i d2 of
                     Inl err \<Rightarrow> (Inl (ApiDb ''read cancelled run'' err), d2)
                   | Inr None \<Rightarrow> (Inl RunNotFound, d2)
                   | Inr (Some st) \<Rightarrow> (Inr \<lparr>Cancelled = False, outcome_State = Some st\<rparr>, d2)))))"

section \<open>The worker flag\<close>

definition beginWorker :: "Engine \<Rightarrow> api_error + Engine" where
  "beginWorker e =
     (if e_workerRunning e then Inl WorkerAlreadyRunning else Inr (e\<lparr>e_workerRunning := True\<rparr>))"

definition endWorker :: "Engine \<Rightarrow> Engine" where
  "endWorker e = e\<lparr>e_workerRunning := False\<rparr>"

text \<open>The counter \<open>activeClaims\<close>.\<close>

definition claim_started :: "Engine \<Rightarrow> Engine" where
  "claim_started e = e\<lparr>e_activeClaims := Suc (e_activeClaims e)\<rparr>"

definition claim_done :: "Engine \<Rightarrow> Engine" where
  "claim_done e = e\<lparr>e_activeClaims := e_activeClaims e - 1\<rparr>"

text \<open>
  \<open>WaitForIdle\<close> holds the mutex of the flag, so only the counter changes while it waits.
  \<open>e\<close> is the engine when its \<open>select\<close> looks at the two channels; \<^term>\<open>None\<close> means that it
  goes on waiting.
\<close>

datatype select_case = DoneChan | CtxChan

definition WaitForIdle :: "select_case \<Rightarrow> Engine \<Rightarrow> (api_error + unit) option" where
  "WaitForIdle c e =
     (if e_workerRunning e then Some (Inl WorkerStillRunning)
      else (case c of
              DoneChan \<Rightarrow> if e_activeClaims e = 0 then Some (Inr ()) else None
            | CtxChan \<Rightarrow> Some (Inl Context_Done)))"

section \<open>Engines as constructed\<close>

definition engine_ok :: "Engine \<Rightarrow> bool" where
  "engine_ok e \<longleftrightarrow>
     identPattern (e_schema e) \<and> length (e_schema e) \<le> maxSchemaLength
   \<and> e_qSchema e = quoteIdentifier (e_schema e) \<and> e_channel e = ''durablepg_'' @ e_schema e
   \<and> identPattern (e_channel e) \<and> length (e_channel e) \<le> 63
   \<and> e_queue e \<noteq> '''' \<and> TrimSpace (e_queue e) = e_queue e
   \<and> 0 < e_maxConcurrency e \<and> 0 < e_pollInterval e
   \<and> 0 < e_heartbeatEvery e \<and> e_heartbeatEvery e < e_leaseTTL e
   \<and> e_eventTTL e = defaultEventTTL
   \<and> finite (dom (e_workflows e))
   \<and> (\<forall>name version cw. e_workflows e (name, version) = Some cw \<longrightarrow>
        cw_name cw = name \<and> cw_version cw = version \<and> compiled_ok cw)"

lemma TrimSpace_default: "TrimSpace defaultQueue = defaultQueue"
  unfolding defaultQueue_def by code_simp

lemma identPattern_channel:
  assumes "identPattern s"
  shows "identPattern (''durablepg_'' @ s)"
proof -
  have "list_all ident_char s"
    using assms by (auto simp: identPattern_def ident_char_def split: list.splits)
  moreover have "list_all ident_char ''urablepg_''" "ident_start (CHR ''d'')" by code_simp+
  ultimately show ?thesis by (simp add: identPattern_def)
qed

lemma text_or_queue:
  "text_or (TrimSpace q) defaultQueue \<noteq> []"
  "TrimSpace (text_or (TrimSpace q) defaultQueue) = text_or (TrimSpace q) defaultQueue"
  using TrimSpace_default by (auto simp: text_or_def TrimSpace_idem defaultQueue_def)

lemma positive_or_pos: "0 < y \<Longrightarrow> 0 < positive_or x y"
  by (simp add: positive_or_def)

text \<open>C32: Whatever the configuration, an engine that \<open>New\<close> returns has a schema that is an
  identifier of at most 48 bytes, a notification channel that fits PostgreSQL's 63 bytes, a
  trimmed non-empty queue, positive concurrency and intervals, and a heartbeat shorter than
  its lease; and its registry is empty.\<close>

theorem New_ok:
  assumes "New procs wid cfg = Inr e"
  shows "engine_ok e \<and> e_workflows e = Map.empty \<and> \<not> e_workerRunning e \<and> e_activeClaims e = 0"
proof -
  let ?schema = "text_or (cfg_Schema cfg) defaultSchema"
  let ?ttl = "positive_or (cfg_LeaseTTL cfg) defaultLeaseTTL"
  let ?hb = "positive_or (cfg_HeartbeatInterval cfg) defaultHeartbeatInterval"
  have guards: "cfg_DB cfg" "identPattern ?schema" "length ?schema \<le> maxSchemaLength" "?hb < ?ttl"
    using assms unfolding New_def Let_def by (simp_all split: if_split_asm)
  have e: "e_schema e = ?schema" "e_qSchema e = quoteIdentifier ?schema"
    "e_channel e = ''durablepg_'' @ ?schema" "e_queue e = text_or (TrimSpace (cfg_Queue cfg)) defaultQueue"
    "e_maxConcurrency e = positive_or (cfg_MaxConcurrency cfg) (positive_or procs 1)"
    "e_pollInterval e = positive_or (cfg_PollInterval cfg) defaultPollInterval"
    "e_leaseTTL e = ?ttl" "e_heartbeatEvery e = ?hb" "e_eventTTL e = defaultEventTTL"
    "e_workflows e = Map.empty" "e_activeClaims e = 0" "\<not> e_workerRunning e"
    using assms guards unfolding New_def Let_def by auto
  have "length (''durablepg_'' @ ?schema) \<le> 63" using guards(3) by (simp add: maxSchemaLength_def)
  moreover have "0 < e_maxConcurrency e" "0 < e_pollInterval e" "0 < e_heartbeatEvery e"
    unfolding e defaultPollInterval_def defaultHeartbeatInterval_def Millisecond_def Second_def
    by (intro positive_or_pos; simp)+
  ultimately show ?thesis
    unfolding engine_ok_def using guards identPattern_channel [OF guards(2)] text_or_queue
    by (simp only: e) simp
qed

definition demo_config :: Config where
  "demo_config = \<lparr>cfg_DB = True, cfg_Schema = '''', cfg_Queue = '' mail '', cfg_MaxConcurrency = 0,
     cfg_PollInterval = 0, cfg_LeaseTTL = 0, cfg_HeartbeatInterval = 0\<rparr>"

definition demo_engine :: Engine where
  "demo_engine = \<lparr>e_schema = ''durable'', e_qSchema = quoteIdentifier ''durable'', e_queue = ''mail'',
     e_channel = ''durablepg_durable'', e_maxConcurrency = 8, e_pollInterval = 250000000,
     e_leaseTTL = 30000000000, e_heartbeatEvery = 10000000000, e_eventTTL = defaultEventTTL,
     e_workerID = ''w'', e_workflows = Map.empty, e_activeClaims = 0, e_workerRunning = False\<rparr>"

lemma demo_text: "TrimSpace '' mail '' = ''mail''" "identPattern ''durable''" "TrimSpace ''mail'' = ''mail''"
  by code_simp+

lemma demo_New: "New 8 ''w'' demo_config = Inr demo_engine"
  by (simp add: New_def Let_def text_or_def positive_or_def demo_config_def demo_engine_def demo_text defaultSchema_def maxSchemaLength_def
      defaultPollInterval_def defaultLeaseTTL_def defaultHeartbeatInterval_def Millisecond_def Second_def)

theorem New_ok_witness:
  "engine_ok demo_engine \<and> e_workflows demo_engine = Map.empty \<and> \<not> e_workerRunning demo_engine
   \<and> e_activeClaims demo_engine = 0"
  by (rule New_ok [OF demo_New])

section \<open>The registry\<close>

lemma latest_loop_max:
  assumes "\<forall>k \<in> set ks. \<exists>cw. m k = Some cw \<and> cw_version cw = snd k"
    and "\<forall>l. latest = Some l \<longrightarrow> m (name, cw_version l) = Some l"
  shows "latest_loop m name ks latest =
    (let vs = cw_version ` set_option latest \<union> {v. (name, v) \<in> set ks}
     in if vs = {} then None else m (name, Max vs))"
  using assms
proof (induction ks arbitrary: latest)
  case Nil
  then show ?case by (cases latest) auto
next
  case (Cons k ks)
  obtain n v where k: "k = (n, v)" by (cases k)
  obtain cw where cw: "m (n, v) = Some cw" "cw_version cw = v" using Cons.prems(1) k by auto
  obtain S where S: "S = {v. (name, v) \<in> set ks}" by blast
  have fin: "finite S" unfolding S by (rule finite_subset [of _ "snd ` set ks"]) force+
  have set_cons: "{u. (name, u) \<in> set (k # ks)} = (if n = name then insert v S else S)"
    using k S by auto
  let ?next = "if n = name \<and> (case latest of None \<Rightarrow> True | Some l \<Rightarrow> cw_version l < v) then m k else latest"
  have "latest_loop m name (k # ks) latest = latest_loop m name ks ?next"
    by (cases latest) (simp_all add: k)
  also have "\<dots> = (let vs = cw_version ` set_option ?next \<union> S in if vs = {} then None else m (name, Max vs))"
    using Cons.prems cw k unfolding S by (intro Cons.IH) (auto split: option.splits)
  also have "\<dots> = (let vs = cw_version ` set_option latest \<union> {v. (name, v) \<in> set (k # ks)}
     in if vs = {} then None else m (name, Max vs))"
    using fin cw k unfolding set_cons
    by (cases latest; cases "S = {}"; cases "n = name") (simp_all add: Let_def Max_insert max_def)
  finally show ?case .
qed

lemma latestWorkflow_eq:
  assumes "engine_ok e" "map_order (e_workflows e) order"
  shows "latestWorkflow order e name =
    (let vs = {v. workflow e name v \<noteq> None} in if vs = {} then None else workflow e name (Max vs))"
proof -
  have "\<forall>k \<in> set order. \<exists>cw. e_workflows e k = Some cw \<and> cw_version cw = snd k"
    using assms by (fastforce simp: engine_ok_def map_order_def)
  then have "latestWorkflow order e name = (let vs = {v. (name, v) \<in> set order}
      in if vs = {} then None else e_workflows e (name, Max vs))"
    unfolding latestWorkflow_def by (subst latest_loop_max) (auto simp: Let_def)
  moreover have "{v. (name, v) \<in> set order} = {v. workflow e name v \<noteq> None}"
    using assms(2) by (auto simp: map_order_def workflow_def)
  ultimately show ?thesis by (simp add: workflow_def)
qed

lemma registered_name:
  assumes "engine_ok e" "workflow e name version = Some cw"
  shows "cw_name cw = name" "cw_version cw = version" "compiled_ok cw" "1 \<le> version"
  using assms by (auto simp: engine_ok_def workflow_def compiled_ok_def)

lemma latestWorkflow_registered:
  assumes "engine_ok e" "map_order (e_workflows e) order" "latestWorkflow order e name = Some cw"
  shows "workflow e name (cw_version cw) = Some cw"
proof -
  obtain v where "workflow e name v = Some cw"
    using assms(3) unfolding latestWorkflow_eq [OF assms(1,2)] by (auto simp: Let_def split: if_splits)
  with registered_name(2) [OF assms(1) this] show ?thesis by simp
qed

text \<open>\<open>latestWorkflow\<close> returns the registered definition with the highest version of the
  name, and none exactly when no version is registered, whatever the iteration order of
  Go's map.\<close>

theorem latestWorkflow_highest:
  assumes "engine_ok e" "map_order (e_workflows e) order"
  shows "case latestWorkflow order e name of
      None \<Rightarrow> \<forall>v. workflow e name v = None
    | Some cw \<Rightarrow> cw_name cw = name \<and> workflow e name (cw_version cw) = Some cw
        \<and> (\<forall>v. workflow e name v \<noteq> None \<longrightarrow> v \<le> cw_version cw)"
proof -
  let ?vs = "{v. workflow e name v \<noteq> None}"
  have fin: "finite ?vs"
  proof (rule finite_subset)
    show "?vs \<subseteq> snd ` dom (e_workflows e)" by (force simp: workflow_def)
    show "finite (snd ` dom (e_workflows e))" using assms(1) by (simp add: engine_ok_def)
  qed
  show ?thesis
  proof (cases "?vs = {}")
    case True
    then show ?thesis by (auto simp: latestWorkflow_eq [OF assms] Let_def)
  next
    case False
    then have "Max ?vs \<in> ?vs" using fin by (rule Max_in [rotated])
    then obtain cw where cw: "workflow e name (Max ?vs) = Some cw" by auto
    then have "latestWorkflow order e name = Some cw"
      using False by (simp add: latestWorkflow_eq [OF assms] Let_def)
    moreover have "cw_version cw = Max ?vs" "cw_name cw = name" using registered_name [OF assms(1) cw] by auto
    moreover have "v \<le> Max ?vs" if "workflow e name v \<noteq> None" for v using that fin by (intro Max_ge) auto
    ultimately show ?thesis using cw by auto
  qed
qed

text \<open>An engine with two versions of a workflow of one sleep each.\<close>

definition demo_workflow :: "int \<Rightarrow> compiledWorkflow" where
  "demo_workflow v = \<lparr>cw_name = ''w'', cw_version = v, cw_ops = [opSleep 1], cw_names = Map.empty,
     cw_outputIndex = None\<rparr>"

lemma demo_workflow_simps: "cw_name (demo_workflow v) = ''w''" "cw_version (demo_workflow v) = v"
  by (simp_all add: demo_workflow_def)

definition demo_registered :: Engine where
  "demo_registered = demo_engine\<lparr>e_workflows := [(''w'', 1) \<mapsto> demo_workflow 1, (''w'', 2) \<mapsto> demo_workflow 2]\<rparr>"

lemma TrimSpace_w: "TrimSpace ''w'' = ''w''"
  by code_simp

lemma identPattern_demo: "identPattern ''durablepg_durable''"
  by code_simp

lemma engine_ok_demo: "engine_ok demo_registered"
proof -
  have "compiled_ok (demo_workflow v)" if "1 \<le> v" for v
    using that by (auto simp: compiled_ok_def demo_workflow_def TrimSpace_w ops_ok_def map_filter_def less_Suc_eq)
  then show ?thesis
    using demo_text identPattern_demo
    by (simp add: engine_ok_def demo_registered_def demo_engine_def maxSchemaLength_def)
       (auto simp: demo_workflow_def split: if_splits)
qed

theorem latestWorkflow_highest_witness:
  "case latestWorkflow [(''w'', 2), (''w'', 1)] demo_registered ''w'' of
      None \<Rightarrow> \<forall>v. workflow demo_registered ''w'' v = None
    | Some cw \<Rightarrow> cw_name cw = ''w'' \<and> workflow demo_registered ''w'' (cw_version cw) = Some cw
        \<and> (\<forall>v. workflow demo_registered ''w'' v \<noteq> None \<longrightarrow> v \<le> cw_version cw)"
proof (rule latestWorkflow_highest [OF engine_ok_demo])
  show "map_order (e_workflows demo_registered) [(''w'', 2), (''w'', 1)]"
    by (auto simp: map_order_def demo_registered_def split: if_splits)
qed

lemma compileWorkflow_ok: "compileWorkflow w = Inr cw \<Longrightarrow> compiled_ok cw"
  by (cases w) (auto simp: compileWorkflow_compiled compileWorkflow_def)

text \<open>Registration adds exactly the compiled definition under its name and version, keeps
  the engine well-formed, and panics when that name and version is taken, so a registered
  definition is never replaced.\<close>

theorem Register_adds:
  assumes "engine_ok e" "compileWorkflow w = Inr cw"
  shows "case Register w e of
      Inl p \<Rightarrow> workflow e (cw_name cw) (cw_version cw) \<noteq> None \<and> p = AlreadyRegistered (cw_name cw) (cw_version cw)
    | Inr e' \<Rightarrow> engine_ok e' \<and> workflow e (cw_name cw) (cw_version cw) = None
        \<and> (\<forall>n v. workflow e' n v = (if n = cw_name cw \<and> v = cw_version cw then Some cw else workflow e n v))"
proof (cases "e_workflows e (cw_name cw, cw_version cw)")
  case None
  let ?e = "e\<lparr>e_workflows := (e_workflows e)((cw_name cw, cw_version cw) \<mapsto> cw)\<rparr>"
  have "Register w e = Inr ?e" using assms(2) None by (simp add: Register_def Let_def)
  moreover have "engine_ok ?e"
    using assms(1) compileWorkflow_ok [OF assms(2)] by (auto simp: engine_ok_def split: if_splits)
  ultimately show ?thesis using None by (simp add: workflow_def)
next
  case (Some old)
  then show ?thesis using assms(2) by (simp add: Register_def Let_def workflow_def)
qed

lemma compile_demo: "compileWorkflow (Some (DefineWorkflow ''w'' (Some [CSleep 1]))) = Inr (demo_workflow 1)"
  using TrimSpace_w
  by (simp add: compileWorkflow_def DefineWorkflow_def DefineWorkflowVersion_def empty_builder_def Sleep_def
      demo_workflow_def)

theorem Register_adds_witness:
  "case Register (Some (DefineWorkflow ''w'' (Some [CSleep 1]))) demo_registered of
      Inl p \<Rightarrow> workflow demo_registered ''w'' 1 \<noteq> None \<and> p = AlreadyRegistered ''w'' 1
    | Inr e' \<Rightarrow> engine_ok e' \<and> workflow demo_registered ''w'' 1 = None
        \<and> (\<forall>n v. workflow e' n v = (if n = ''w'' \<and> v = 1 then Some (demo_workflow 1) else workflow demo_registered n v))"
  using Register_adds [OF engine_ok_demo compile_demo] unfolding demo_workflow_simps .

section \<open>Enqueue\<close>

lemma enqueue_request_cases:
  assumes "engine_ok e" "map_order (e_workflows e) order"
    and "enqueue_request order fresh e name input opts = Inr rq"
  obtains rawInput cw where "input = Marshalled rawInput" "cw_name cw = name"
    "workflow e name (cw_version cw) = Some cw"
    "rq = request_of fresh rawInput cw (enqueue_options e opts)"
proof -
  let ?o = "enqueue_options e opts"
  obtain raw where raw: "input = Marshalled raw"
    using assms(3) by (auto simp: enqueue_request_def split: marshal_result.splits)
  then obtain cw where cw: "(if o_workflowVersion ?o = 0 then latestWorkflow order e name
      else workflow e name (o_workflowVersion ?o)) = Some cw" "rq = request_of fresh raw cw ?o"
    using assms(3) by (auto simp: enqueue_request_def Let_def split: if_split_asm option.split_asm)
  have reg: "workflow e name (cw_version cw) = Some cw"
    using cw(1) latestWorkflow_registered [OF assms(1,2)] registered_name(2) [OF assms(1)]
    by (auto split: if_split_asm)
  show thesis using that [OF raw registered_name(1) [OF assms(1) reg] reg cw(2)] .
qed

lemma Enqueue_success:
  assumes "Enqueue pg f now order fresh e name input opts d = (Inr i, d')"
  obtains rq n where "f = NoFault" "enqueue_request order fresh e name input opts = Inr rq"
    "insert_request pg now (e_channel e) rq d = Inr ((i, n), d')"
proof (cases "enqueue_request order fresh e name input opts")
  case (Inr rq)
  obtain n where "exec f (insert_request pg now (e_channel e) rq) d = (Inr (i, n), d')"
    using assms Inr by (auto simp: Enqueue_def split: prod.split_asm sum.split_asm)
  then have "f = NoFault" "insert_request pg now (e_channel e) rq d = Inr ((i, n), d')"
    by (auto simp: exec_def split: fault.split_asm sum.split_asm prod.split_asm)
  with Inr show thesis by (intro that)
qed (use assms in \<open>simp add: Enqueue_def\<close>)

lemma Enqueue_response_lost:
  assumes "Enqueue pg NoFault now order fresh e name input opts d = (Inr i, d')"
  shows "snd (Enqueue pg (ResponseLost m) now order fresh e name input opts d) = d'"
proof -
  obtain rq n where "enqueue_request order fresh e name input opts = Inr rq"
    "insert_request pg now (e_channel e) rq d = Inr ((i, n), d')"
    by (rule Enqueue_success [OF assms])
  then show ?thesis by (simp add: Enqueue_def exec_def)
qed


lemma insert_holds_key:
  assumes "insert_request pg now c rq d = Inr ((i, n), d')" "rq_dedup rq = Some key"
  shows "\<exists>r \<in> set (runs d'). rid r = i \<and> workflow_name r = rq_name rq \<and> dedup_key r = Some key"
  using assms(1) [unfolded insert_request_def]
proof (cases rule: insertRun_cases)
  case (existing r k)
  let ?r = "r\<lparr>updated_at := now\<rparr>"
  have "?r \<in> set (runs d')" using existing(2,6) by (auto simp: set_update_where)
  moreover have "rid ?r = i \<and> workflow_name ?r = rq_name rq \<and> dedup_key ?r = Some key"
    using existing(1,3-5) assms(2) by simp
  ultimately show ?thesis by blast
next
  case (inserted u inp due nts)
  then show ?thesis using assms(2) by simp
qed

lemma insert_finds_key:
  assumes "insert_request pg now c rq d = Inr ((i, n), d')" "rq_dedup rq = Some key" "db_ok d"
    and s: "s \<in> set (runs d)" "workflow_name s = rq_name rq" "dedup_key s = Some key"
  shows "i = rid s \<and> map rid (runs d') = map rid (runs d)"
  using assms(1) [unfolded insert_request_def]
proof (cases rule: insertRun_cases)
  case (existing q k)
  then have "rid q = rid s"
    using runs_okD(4) [of "runs d" q s key] assms(2,3) s by (simp add: db_ok_def)
  with existing show ?thesis by (simp add: map_update_where_key)
next
  case (inserted u inp due nts)
  with s assms(2) show ?thesis by blast
qed

text \<open>C28: Enqueueing is idempotent under a key, also for a client that never saw the first
  response.  If a run was enqueued with an idempotency key, then after any later history an
  \<open>Enqueue\<close> of the same workflow name with the same key, from any engine and with any other
  options, returns the identifier of that run and creates none; and had the response of the
  first call been lost, the tables would have been the same.\<close>

theorem Enqueue_idempotent:
  assumes "engine_ok e" "map_order (e_workflows e) order" "db_ok d"
    and "Enqueue pg NoFault now order fresh e name input opts d = (Inr i, d1)"
    and "db_evolves d1 d2" "db_ok d2"
    and "engine_ok e2" "map_order (e_workflows e2) order2"
    and "Enqueue pg f now2 order2 fresh2 e2 name input2 opts2 d2 = (Inr j, d3)"
    and "o_idempotencyKey (enqueue_options e opts) = key"
    and "o_idempotencyKey (enqueue_options e2 opts2) = key" "key \<noteq> ''''"
  shows "j = i \<and> map rid (runs d3) = map rid (runs d2)
    \<and> snd (Enqueue pg (ResponseLost m) now order fresh e name input opts d) = d1"
proof -
  obtain rq n where rq: "enqueue_request order fresh e name input opts = Inr rq"
    and ins: "insert_request pg now (e_channel e) rq d = Inr ((i, n), d1)"
    by (rule Enqueue_success [OF assms(4)])
  obtain rq2 n2 where rq2: "enqueue_request order2 fresh2 e2 name input2 opts2 = Inr rq2"
    and ins2: "insert_request pg now2 (e_channel e2) rq2 d2 = Inr ((j, n2), d3)"
    by (rule Enqueue_success [OF assms(9)])
  have k: "rq_name rq = name \<and> rq_dedup rq = Some key"
    by (rule enqueue_request_cases [OF assms(1,2) rq]) (use assms(10,12) in \<open>simp add: request_of_def\<close>)
  have k2: "rq_name rq2 = name \<and> rq_dedup rq2 = Some key"
    by (rule enqueue_request_cases [OF assms(7,8) rq2]) (use assms(11,12) in \<open>simp add: request_of_def\<close>)
  have d1ok: "db_ok d1" using insertRun_ok(1) [OF assms(3) ins [unfolded insert_request_def]] .
  obtain r where r: "r \<in> set (runs d1)" "rid r = i" "workflow_name r = name" "dedup_key r = Some key"
    using insert_holds_key [OF ins] k by blast
  have "run_of d1 i = Some r" using row_with_distinct [OF db_okD(1) [OF d1ok] r(1)] r(2) by simp
  with assms(5) obtain s where "run_of d2 i = Some s" "same_identity r s"
    unfolding tables_related_def row_evolves_def by blast
  then have s: "s \<in> set (runs d2)" "rid s = i" "workflow_name s = name" "dedup_key s = Some key"
    using r by (auto simp: same_identity_def dest: row_with_SomeD)
  show ?thesis
    using insert_finds_key [OF ins2 conjunct2 [OF k2] assms(6) s(1)] s(2-) k2
      Enqueue_response_lost [OF assms(4)] by simp
qed

section \<open>Events, status and cancellation\<close>

text \<open>C30: A successful \<open>EmitEvent\<close> logs the event under the trimmed key with the 24 hour
  retention and wakes exactly the runs that wait for that key and whose deadline has not
  passed: each becomes ready at once, its wait is cleared, and its wait is answered by the
  payload unless it was answered before; the result is their number and no other run
  changes.  When it fails, nothing changes, unless only the response to the commit was lost.\<close>

theorem EmitEvent_wakes:
  assumes "EmitEvent pg f now e key payload d = (res, d')"
  shows "case res of
      Inl err \<Rightarrow> (\<forall>m. f \<noteq> TxCommitLost m) \<longrightarrow> d' = d
    | Inr n \<Rightarrow> \<exists>raw p. payload = Marshalled raw \<and> jsonb_in pg raw = Some p
        \<and> n = length (filter (waits_on (TrimSpace key) now) (runs d))
        \<and> events d' = events d @ [\<lparr>ev_id = event_seq d, ev_key = TrimSpace key, ev_payload = p,
             ev_created_at = now, ev_expires_at = now + interval_ms (milliseconds (e_eventTTL e))\<rparr>]
        \<and> (\<forall>i. run_of d' i = map_option (\<lambda>r. if waits_on (TrimSpace key) now r
               then r\<lparr>state := RunReady, next_run_at := now, waiting_event_key := None,
                      waiting_deadline := None, last_error := None, updated_at := now\<rparr> else r) (run_of d i))
        \<and> (\<forall>r \<in> set (runs d). waits_on (TrimSpace key) now r \<longrightarrow>
             checkpoint_of (checkpoints d') (rid r) (step_index r) =
               Some (case checkpoint_of (checkpoints d) (rid r) (step_index r) of Some v \<Rightarrow> v | None \<Rightarrow> received p))"
proof (cases res)
  case (Inl err)
  then show ?thesis
    using assms
    by (auto simp: EmitEvent_def Let_def split: if_split_asm marshal_result.split_asm tx_fault.split_asm
        sum.split_asm prod.split_asm)
next
  case (Inr n)
  then obtain raw k where em: "payload = Marshalled raw"
    "emitEvent pg now (TrimSpace key) raw (milliseconds (e_eventTTL e)) (e_channel e) d = Inr ((n, k), d')"
    using assms
    by (auto simp: EmitEvent_def Let_def split: if_split_asm marshal_result.split_asm tx_fault.split_asm
        sum.split_asm prod.split_asm)
  then obtain p where p: "jsonb_in pg raw = Some p" "text_ok (TrimSpace key)"
    by (auto simp: emitEvent_def split: option.splits if_splits)
  with em Inr show ?thesis
    by (auto simp: emitEvent_def Let_def run_of_update checkpoint_of_record_outcomes split: option.splits)
qed

lemma cancelRun_effect:
  assumes "db_ok d" "cancelRun pg now i d = Inr (n, d1)" "uuid_in pg i = Some u"
  shows "0 < n \<Longrightarrow> \<exists>r. run_of d u = Some r \<and> \<not> Terminal (state r) \<and> run_of d1 u = Some (r\<lparr>state := RunCancelled,
      lease_token := None, lease_until := None, waiting_event_key := None, waiting_deadline := None,
      updated_at := now\<rparr>)"
    and "n = 0 \<Longrightarrow> d1 = d"
    and "n = 0 \<Longrightarrow> run_of d u = Some r \<Longrightarrow> Terminal (state r)"
proof -
  have c: "n = count_where (cancellable u) (runs d)"
    "d1 = d\<lparr>runs := update_where (cancellable u) (\<lambda>r. r\<lparr>state := RunCancelled, lease_token := None,
       lease_until := None, waiting_event_key := None, waiting_deadline := None, updated_at := now\<rparr>) (runs d)\<rparr>"
    using assms(2,3) by (auto simp: cancelRun_def)
  show "0 < n \<Longrightarrow> \<exists>r. run_of d u = Some r \<and> \<not> Terminal (state r) \<and> run_of d1 u = Some (r\<lparr>state := RunCancelled,
      lease_token := None, lease_until := None, waiting_event_key := None, waiting_deadline := None,
      updated_at := now\<rparr>)"
  proof -
    assume "0 < n"
    then obtain r where r: "r \<in> set (runs d)" "cancellable u r" unfolding c(1) count_where_pos by blast
    then have "run_of d u = Some r"
      using row_with_distinct [OF db_okD(1) [OF assms(1)] r(1)] by (simp add: cancellable_def)
    with r show ?thesis by (auto simp: c(2) run_of_update cancellable_def)
  qed
  show "n = 0 \<Longrightarrow> d1 = d" by (simp add: c update_where_count_zero)
  show "Terminal (state r)" if "n = 0" "run_of d u = Some r"
    using that row_with_SomeD [OF that(2)] by (cases "state r") (auto simp: c(1) count_where_zero cancellable_def)
qed

text \<open>C31: \<open>Cancel\<close> tells the truth about a run that exists when it is called.  If it reports
  success, the run was unfinished and is now cancelled; otherwise it reports a terminal state,
  the one the run has, whatever other clients did between its two statements.\<close>

theorem Cancel_outcome:
  assumes "db_ok d" "\<And>x. db_ok x \<Longrightarrow> db_evolves x (other x)"
    and "uuid_in pg i = Some u" "run_of d u = Some r"
    and "Cancel pg NoFault None now other i d = (res, d')"
  shows "\<exists>st r'. res = Inr \<lparr>Cancelled = (st = RunCancelled \<and> \<not> Terminal (state r)), outcome_State = Some st\<rparr>
      \<and> Terminal st \<and> run_of d' u = Some r' \<and> state r' = st \<and> (Terminal (state r) \<longrightarrow> st = state r)"
proof -
  obtain n d1 where c: "cancelRun pg now i d = Inr (n, d1)" using assms(3) by (simp add: cancelRun_def)
  note eff = cancelRun_effect [OF assms(1) c assms(3)]
  show ?thesis
  proof (cases "0 < n")
    case True
    from eff(1) [OF True] assms(4) have "\<not> Terminal (state r)" "\<exists>r'. run_of d1 u = Some r' \<and> state r' = RunCancelled"
      by auto
    with assms(5) c True show ?thesis by (auto simp: Cancel_def exec_def)
  next
    case False
    then have d1: "d1 = d" and t: "Terminal (state r)" using eff(2,3) assms(4) by auto
    obtain r' where r': "run_of (other d) u = Some r'" "row_evolves r r'"
      using assms(1,2,4) unfolding tables_related_def by blast
    then have "state r' = state r" using t lifecycle_terminal_closed by (auto simp: row_evolves_def)
    moreover have "res = Inr \<lparr>Cancelled = False, outcome_State = Some (state r')\<rparr>" "d' = other d"
      using assms(3,5) c False d1 r'(1) by (auto simp: Cancel_def exec_def runState_def Let_def)
    ultimately show ?thesis using t r'(1) by auto
  qed
qed

definition racing_enqueue :: "db \<Rightarrow> db" where
  "racing_enqueue d =
     (case insertRun \<lparr>uuid_in = Some, jsonb_in = Some\<rparr> 0 ''r1'' ''w'' 1 ''mail'' 3 None JNull None ''c'' d of
        Inl _ \<Rightarrow> d | Inr (res, d') \<Rightarrow> d')"

lemma racing_enqueue_ok: "db_ok d \<Longrightarrow> db_ok (racing_enqueue d) \<and> db_evolves d (racing_enqueue d)"
  using insertRun_ok by (fastforce simp: racing_enqueue_def split: sum.splits intro: db_step_evolves)

text \<open>Without that condition the reported state need not be terminal: when the identifier
  is unknown at the first statement and a client enqueues a run under it before the second,
  \<open>Cancel\<close> returns no error, no cancellation, and the state of a live run, although the
  outcome is documented as the existing terminal state.\<close>

theorem Cancel_may_report_live_state:
  "db_ok empty_db \<and> db_ok (racing_enqueue empty_db) \<and> db_evolves empty_db (racing_enqueue empty_db)
   \<and> fst (Cancel \<lparr>uuid_in = Some, jsonb_in = Some\<rparr> NoFault None 0 racing_enqueue ''r1'' empty_db)
       = Inr \<lparr>Cancelled = False, outcome_State = Some RunReady\<rparr>"
proof -
  have letters: "text_ok ''w''" "text_ok ''mail''" by code_simp+
  have "map_option state (run_of (racing_enqueue empty_db) ''r1'') = Some RunReady"
    by (simp add: racing_enqueue_def insertRun_def letters int4_ok_def empty_db_def)
  then show ?thesis
    using db_ok_empty racing_enqueue_ok [OF db_ok_empty]
    by (auto simp: Cancel_def exec_def cancelRun_def empty_db_def count_where_def update_where_def runState_def
        Let_def)
qed

text \<open>\<open>RunOutput\<close> decodes exactly the output of a completed run, JSON null when the workflow
  has none; it reports an unfinished run by false without touching the destination, and an
  unknown one by \<open>ErrRunNotFound\<close>.\<close>

theorem RunOutput_result:
  assumes "uuid_in pg i = Some u"
  shows "RunOutput pg None i dst d =
    (case run_of d u of
       None \<Rightarrow> (False, None, Some RunNotFound)
     | Some r \<Rightarrow>
         if state r \<noteq> RunCompleted then (False, None, None)
         else (case dst (case output_json r of None \<Rightarrow> JNull | Some v \<Rightarrow> v) of
                 Inl m \<Rightarrow> (True, None, Some (DecodeOutput m)) | Inr x \<Rightarrow> (True, Some x, None)))"
  using assms by (auto simp: RunOutput_def runOutput_def split: option.splits)

text \<open>One worker per engine: \<open>beginWorker\<close> succeeds exactly when none runs, a second call
  fails until \<open>endWorker\<close>; and \<open>WaitForIdle\<close> refuses while a worker runs and otherwise returns
  without error only when no claim is active.\<close>

theorem worker_flag:
  "(beginWorker e = Inr e' \<longleftrightarrow> \<not> e_workerRunning e \<and> e' = e\<lparr>e_workerRunning := True\<rparr>)
   \<and> beginWorker (e\<lparr>e_workerRunning := True\<rparr>) = Inl WorkerAlreadyRunning
   \<and> beginWorker (endWorker e) = Inr (e\<lparr>e_workerRunning := True\<rparr>)
   \<and> (WaitForIdle c e = Some (Inr ()) \<longleftrightarrow> \<not> e_workerRunning e \<and> c = DoneChan \<and> e_activeClaims e = 0)
   \<and> (e_workerRunning e = (WaitForIdle c e = Some (Inl WorkerStillRunning)))"
  by (auto simp: beginWorker_def endWorker_def WaitForIdle_def split: select_case.splits)

section \<open>Examples\<close>

definition demo_api_pg :: pg where "demo_api_pg = \<lparr>uuid_in = Some, jsonb_in = Some\<rparr>"

definition demo_new_row :: run_row where
  "demo_new_row = \<lparr>rid = ''r1'', workflow_name = ''w'', workflow_version = 2, queue = ''mail'',
     state = RunReady, step_index = 0, attempt = 0, max_attempts = 25, lease_failures = 0,
     next_run_at = 5, lease_token = None, lease_until = None, waiting_event_key = None,
     waiting_deadline = None, input_json = JNull, output_json = None, dedup_key = Some ''k'',
     last_error = None, created_at = 5, updated_at = 5\<rparr>"

definition demo_new_db :: "run_row \<Rightarrow> db" where
  "demo_new_db r = \<lparr>runs = [r], checkpoints = [], events = [], event_seq = 0,
     notifications = [(''durablepg_durable'', ''mail'')]\<rparr>"

definition demo_opts :: "EnqueueOption list" where
  "demo_opts = [WithIdempotencyKey ''k'', None]"

abbreviation demo_order :: "workflowKey list" where "demo_order \<equiv> [(''w'', 1), (''w'', 2)]"

lemma demo_map_order: "map_order (e_workflows demo_registered) demo_order"
  by (auto simp: map_order_def demo_registered_def split: if_splits)

lemma demo_request:
  "enqueue_request demo_order ''r1'' demo_registered ''w'' (Marshalled JNull) demo_opts =
     Inr \<lparr>rq_id = ''r1'', rq_name = ''w'', rq_version = 2, rq_queue = ''mail'', rq_maxAttempts = 25,
          rq_scheduledAt = None, rq_input = JNull, rq_dedup = Some ''k''\<rparr>"
  by (simp add: enqueue_request_def demo_opts_def default_options_def WithIdempotencyKey_def
      defaultMaxAttempts_def latestWorkflow_def demo_registered_def demo_workflow_def demo_engine_def
      request_of_def demo_text)

lemma demo_channel: "e_channel demo_registered = ''durablepg_durable''"
  by (simp add: demo_registered_def demo_engine_def)

lemma demo_letters: "text_ok ''w''" "text_ok ''mail''" "text_ok ''k''"
  by code_simp+

lemma demo_enqueue_first:
  "Enqueue demo_api_pg NoFault 5 demo_order ''r1'' demo_registered ''w'' (Marshalled JNull) demo_opts empty_db
     = (Inr ''r1'', demo_new_db demo_new_row)"
  by (simp add: Enqueue_def demo_request insert_request_def exec_def insertRun_def demo_api_pg_def int4_ok_def
      demo_letters empty_db_def demo_new_db_def demo_new_row_def demo_channel)

lemma demo_new_db_ok: "db_ok (demo_new_db demo_new_row)"
proof -
  have "insertRun demo_api_pg 5 ''r1'' ''w'' 2 ''mail'' 25 None JNull (Some ''k'') ''durablepg_durable'' empty_db
      = Inr ((''r1'', 1), demo_new_db demo_new_row)"
    by (simp add: insertRun_def demo_api_pg_def int4_ok_def demo_letters empty_db_def demo_new_db_def demo_new_row_def)
  then show ?thesis by (rule insertRun_ok(1) [OF db_ok_empty])
qed

lemma demo_enqueue_again:
  "Enqueue demo_api_pg NoFault 9 demo_order ''r2'' demo_registered ''w'' (Marshalled JNull) demo_opts
     (demo_new_db demo_new_row) = (Inr ''r1'', demo_new_db (demo_new_row\<lparr>updated_at := 9\<rparr>))"
proof -
  have "enqueue_request demo_order ''r2'' demo_registered ''w'' (Marshalled JNull) demo_opts =
     Inr \<lparr>rq_id = ''r2'', rq_name = ''w'', rq_version = 2, rq_queue = ''mail'', rq_maxAttempts = 25,
          rq_scheduledAt = None, rq_input = JNull, rq_dedup = Some ''k''\<rparr>"
    by (simp add: enqueue_request_def demo_opts_def default_options_def WithIdempotencyKey_def
        defaultMaxAttempts_def latestWorkflow_def demo_registered_def demo_workflow_def demo_engine_def
        request_of_def demo_text)
  then show ?thesis
    by (simp add: Enqueue_def insert_request_def exec_def insertRun_def demo_api_pg_def int4_ok_def
        demo_letters demo_new_db_def demo_new_row_def update_where_def demo_channel)
qed


theorem Enqueue_idempotent_witness:
  "''r1'' = ''r1'' \<and> map rid (runs (demo_new_db (demo_new_row\<lparr>updated_at := 9\<rparr>))) = [''r1'']
   \<and> snd (Enqueue demo_api_pg (ResponseLost ''eof'') 5 demo_order ''r1'' demo_registered ''w'' (Marshalled JNull)
        demo_opts empty_db) = demo_new_db demo_new_row"
  using Enqueue_idempotent [OF engine_ok_demo demo_map_order db_ok_empty demo_enqueue_first db_evolves_refl
      demo_new_db_ok engine_ok_demo demo_map_order demo_enqueue_again, where key = "''k''" and m = "''eof''"]
  by (simp add: demo_opts_def default_options_def WithIdempotencyKey_def demo_new_db_def demo_new_row_def)

definition demo_wait_db :: db where
  "demo_wait_db = demo_new_db (demo_new_row\<lparr>state := RunWaitingEvent, waiting_event_key := Some ''k'',
     waiting_deadline := Some 8\<rparr>)"

lemma demo_emit:
  "EmitEvent demo_api_pg TxNoFault 7 demo_engine '' k '' (Marshalled JNull) demo_wait_db
   = (Inr 1, snd (EmitEvent demo_api_pg TxNoFault 7 demo_engine '' k '' (Marshalled JNull) demo_wait_db))"
proof -
  have "TrimSpace '' k '' = ''k''" by code_simp
  then show ?thesis
    by (simp add: EmitEvent_def demo_letters emitEvent_def demo_api_pg_def demo_wait_db_def demo_new_db_def
        demo_new_row_def waits_on_def Let_def)
qed

theorem EmitEvent_wakes_witness:
  "\<exists>raw p. Marshalled JNull = Marshalled raw \<and> jsonb_in demo_api_pg raw = Some p
     \<and> 1 = length (filter (waits_on (TrimSpace '' k '') 7) (runs demo_wait_db))"
  using EmitEvent_wakes [OF demo_emit] unfolding sum.case by blast

theorem Cancel_outcome_witness:
  "\<exists>st r'. Terminal st \<and> run_of (snd (Cancel demo_api_pg NoFault None 9 id ''r1'' (demo_new_db demo_new_row))) ''r1''
      = Some r' \<and> state r' = st"
  using Cancel_outcome [of "demo_new_db demo_new_row" id demo_api_pg "''r1''" "''r1''" demo_new_row 9
      "fst (Cancel demo_api_pg NoFault None 9 id ''r1'' (demo_new_db demo_new_row))"
      "snd (Cancel demo_api_pg NoFault None 9 id ''r1'' (demo_new_db demo_new_row))"] demo_new_db_ok
  by (auto simp: demo_api_pg_def demo_new_db_def demo_new_row_def)

theorem RunOutput_result_witness:
  "RunOutput demo_api_pg None ''r1'' (\<lambda>v. Inr v) (demo_new_db (demo_new_row\<lparr>state := RunCompleted\<rparr>))
     = (True, Some JNull, (None :: api_error option))"
  using RunOutput_result [of demo_api_pg "''r1''" "''r1''" "\<lambda>v. Inr v"
      "demo_new_db (demo_new_row\<lparr>state := RunCompleted\<rparr>)"]
  by (simp add: demo_api_pg_def demo_new_db_def demo_new_row_def)

end
