(* ===== verification/Run_System.thy ===== *)
theory Run_System
  imports Store_Invariant
begin

text \<open>
  All the statements together: a transition system of the database, the clock, and the
  claims that workers hold.  A step is one statement (or, for parking on an event, one
  transaction under the key's lock) issued by some engine or worker at the current time;
  any number of processes interleave.  A worker that lost its lease keeps its claim and
  may still try to write, so stale writers are part of the model.  The theorems are the
  engine's durability guarantees: consistent tables, legal and irrevocable transitions,
  exclusive and never resurrected leases, write-once checkpoints, a cursor that only moves
  forward, bounded attempts, and no missed event.
\<close>

section \<open>States and steps\<close>

text \<open>A claim and the position its worker has reached (where it will write next).  The
  state also remembers every claim ever handed out, and when each run last parked on an
  event; no statement reads either.\<close>

record active =
  ac_claim :: claim_row
  ac_index :: nat

record sys =
  s_db :: db
  s_clock :: timestamptz
  s_claims :: "active list"
  s_parked :: "uuid \<Rightarrow> timestamptz"

abbreviation ac_id :: "active \<Rightarrow> uuid" where "ac_id a \<equiv> cl_id (ac_claim a)"
abbreviation ac_token :: "active \<Rightarrow> uuid" where "ac_token a \<equiv> cl_token (ac_claim a)"

definition init_sys :: "timestamptz \<Rightarrow> sys" where
  "init_sys t = \<lparr>s_db = empty_db, s_clock = t, s_claims = [], s_parked = (\<lambda>_. t)\<rparr>"

definition new_claims :: "claim_row list \<Rightarrow> active list" where
  "new_claims cs = map (\<lambda>c. \<lparr>ac_claim = c, ac_index = cl_step_index c\<rparr>) cs"

definition advance :: "uuid \<Rightarrow> nat \<Rightarrow> active list \<Rightarrow> active list" where
  "advance token k cs = update_where (\<lambda>a. ac_token a = token) (\<lambda>a. a\<lparr>ac_index := k\<rparr>) cs"

text \<open>
  \<open>clock_timestamp()\<close> is the current time; a transaction may have started earlier, so
  \<open>now()\<close> is any time up to it.  The claim rule assumes of \<open>gen_random_uuid\<close> that it does
  not repeat a token.
\<close>

inductive sys_step :: "pg \<Rightarrow> sys \<Rightarrow> sys \<Rightarrow> bool" for pg where
  tick: "s_clock s \<le> t \<Longrightarrow> sys_step pg s (s\<lparr>s_clock := t\<rparr>)"
| enqueue: "\<lbrakk>now \<le> s_clock s;
     insertRun pg now i name version q maxA sched input dedup channel (s_db s) = Inr (res, d')\<rbrakk>
     \<Longrightarrow> sys_step pg s (s\<lparr>s_db := d'\<rparr>)"
| emit: "\<lbrakk>now \<le> s_clock s; emitEvent pg now key payload ttl channel (s_db s) = Inr (res, d')\<rbrakk>
     \<Longrightarrow> sys_step pg s (s\<lparr>s_db := d'\<rparr>)"
| cancel: "\<lbrakk>now \<le> s_clock s; cancelRun pg now i (s_db s) = Inr (n, d')\<rbrakk>
     \<Longrightarrow> sys_step pg s (s\<lparr>s_db := d'\<rparr>)"
| claim: "\<lbrakk>now \<le> s_clock s;
     claim pred gen locked now (s_clock s) q limit ttl (s_db s) = Inr (cs, d');
     fresh_tokens gen (map cl_id cs) (map ac_token (s_claims s))\<rbrakk>
     \<Longrightarrow> sys_step pg s (s\<lparr>s_db := d', s_claims := s_claims s @ new_claims cs\<rparr>)"
| renew: "\<lbrakk>now \<le> s_clock s; renewLeases now (s_clock s) ids tokens ttl (s_db s) = Inr (ts, d')\<rbrakk>
     \<Longrightarrow> sys_step pg s (s\<lparr>s_db := d'\<rparr>)"
| commit: "\<lbrakk>now \<le> s_clock s; a \<in> set (s_claims s); ac_index a \<le> index;
     commitStep pg now (s_clock s) (ac_id a) (ac_token a) index v complete (s_db s) = Inr (res, d')\<rbrakk>
     \<Longrightarrow> sys_step pg s (s\<lparr>s_db := d', s_claims :=
           (if res = None then s_claims s else advance (ac_token a) (Suc index) (s_claims s))\<rparr>)"
| complete: "\<lbrakk>now \<le> s_clock s; a \<in> set (s_claims s); ac_index a \<le> index;
     completeRun pg now (s_clock s) (ac_id a) (ac_token a) index out (s_db s) = Inr (n, d')\<rbrakk>
     \<Longrightarrow> sys_step pg s (s\<lparr>s_db := d'\<rparr>)"
| park_sleep: "\<lbrakk>now \<le> s_clock s; a \<in> set (s_claims s); ac_index a \<le> index;
     parkSleep now (s_clock s) (ac_id a) (ac_token a) (Suc index) ms (s_db s) = Inr (n, d')\<rbrakk>
     \<Longrightarrow> sys_step pg s (s\<lparr>s_db := d'\<rparr>)"
| park_wait: "\<lbrakk>now \<le> s_clock s; a \<in> set (s_claims s); ac_index a \<le> index;
     latestEvent now key (s_db s) = Inr None;
     parkWait now (s_clock s) (ac_id a) (ac_token a) index key ms (s_db s) = Inr (n, d')\<rbrakk>
     \<Longrightarrow> sys_step pg s (s\<lparr>s_db := d', s_parked :=
           (if n = 0 then s_parked s else (s_parked s)(ac_id a := now))\<rparr>)"
| fail: "\<lbrakk>now \<le> s_clock s; a \<in> set (s_claims s);
     failOrRetry_stmt now (s_clock s) (ac_id a) (ac_token a) (cl_attempt (ac_claim a) + 1) ms msg
       (s_db s) = Inr (n, d')\<rbrakk>
     \<Longrightarrow> sys_step pg s (s\<lparr>s_db := d'\<rparr>)"
| recover: "\<lbrakk>now \<le> s_clock s; recoverLeases locked now (s_clock s) (s_db s) = Inr (n, d')\<rbrakk>
     \<Longrightarrow> sys_step pg s (s\<lparr>s_db := d'\<rparr>)"
| promote: "\<lbrakk>now \<le> s_clock s; promoteTimedOut locked now channel (s_db s) = Inr (res, d')\<rbrakk>
     \<Longrightarrow> sys_step pg s (s\<lparr>s_db := d'\<rparr>)"
| prune: "\<lbrakk>now \<le> s_clock s; pruneEvents elocked now (s_db s) = Inr (n, d')\<rbrakk>
     \<Longrightarrow> sys_step pg s (s\<lparr>s_db := d'\<rparr>)"

inductive reachable :: "pg \<Rightarrow> sys \<Rightarrow> bool" for pg where
  init: "reachable pg (init_sys t)"
| step: "reachable pg s \<Longrightarrow> sys_step pg s t \<Longrightarrow> reachable pg t"

section \<open>Leases and waits across a statement\<close>

text \<open>
  The part of a row a claim relies on.  Most statements create no lease and no wait: a
  leased row of the result was leased before, under the same token, with the same cursor
  and attempt count.
\<close>

definition lease_view :: "run_row \<Rightarrow> uuid \<times> uuid option \<times> nat \<times> int" where
  "lease_view r = (rid r, lease_token r, step_index r, attempt r)"

definition no_new_leases :: "db \<Rightarrow> db \<Rightarrow> bool" where
  "no_new_leases d d' \<longleftrightarrow>
     (\<forall>r' \<in> set (runs d'). lease_token r' \<noteq> None \<longrightarrow> (\<exists>r \<in> set (runs d). lease_view r = lease_view r'))"

definition wait_view :: "run_row \<Rightarrow> uuid \<times> string option \<times> timestamptz option" where
  "wait_view r = (rid r, waiting_event_key r, waiting_deadline r)"

definition no_new_waits :: "db \<Rightarrow> db \<Rightarrow> bool" where
  "no_new_waits d d' \<longleftrightarrow>
     (\<forall>r' \<in> set (runs d'). waiting_event_key r' \<noteq> None \<longrightarrow> (\<exists>r \<in> set (runs d). wait_view r = wait_view r'))"

lemma no_new_leases_update:
  assumes "\<And>r. lease_token (f r) = None \<or> lease_view (f r) = lease_view r"
  shows "no_new_leases d (d\<lparr>runs := update_where p f (runs d)\<rparr>)"
  unfolding no_new_leases_def
proof (intro ballI impI)
  fix r'
  assume "r' \<in> set (runs (d\<lparr>runs := update_where p f (runs d)\<rparr>))" and t: "lease_token r' \<noteq> None"
  then obtain r where r: "r \<in> set (runs d)" "r' = (if p r then f r else r)"
    by (auto simp: set_update_where)
  then have "lease_view r = lease_view r'" using t assms [of r] by (auto split: if_splits)
  with r(1) show "\<exists>r \<in> set (runs d). lease_view r = lease_view r'" by blast
qed

lemma no_new_waits_update:
  assumes "\<And>r. waiting_event_key (f r) = None \<or> wait_view (f r) = wait_view r"
  shows "no_new_waits d (d\<lparr>runs := update_where p f (runs d)\<rparr>)"
  unfolding no_new_waits_def
proof (intro ballI impI)
  fix r'
  assume "r' \<in> set (runs (d\<lparr>runs := update_where p f (runs d)\<rparr>))" and t: "waiting_event_key r' \<noteq> None"
  then obtain r where r: "r \<in> set (runs d)" "r' = (if p r then f r else r)"
    by (auto simp: set_update_where)
  then have "wait_view r = wait_view r'" using t assms [of r] by (auto split: if_splits)
  with r(1) show "\<exists>r \<in> set (runs d). wait_view r = wait_view r'" by blast
qed

lemma no_new_cong:
  "runs d' = runs e \<Longrightarrow> no_new_leases d d' = no_new_leases d e"
  "runs d' = runs e \<Longrightarrow> no_new_waits d d' = no_new_waits d e"
  by (simp_all add: no_new_leases_def no_new_waits_def)

text \<open>An update whose effect on a row keeps or clears its lease and its wait.\<close>

lemma quiet_update:
  assumes "runs d' = update_where p f (runs d)"
    and "\<And>r. lease_token (f r) = None \<or> lease_view (f r) = lease_view r"
    and "\<And>r. waiting_event_key (f r) = None \<or> wait_view (f r) = wait_view r"
  shows "no_new_leases d d' \<and> no_new_waits d d'"
proof -
  let ?e = "d\<lparr>runs := update_where p f (runs d)\<rparr>"
  have "runs d' = runs ?e" using assms(1) by simp
  then show ?thesis
    using no_new_cong [of d' ?e d] no_new_leases_update [of f d p, OF assms(2)]
      no_new_waits_update [of f d p, OF assms(3)] by simp
qed

lemmas view_defs = lease_view_def wait_view_def

lemma quiet_insertRun:
  assumes "insertRun pg now i name version q maxA sched input dedup channel d = Inr (res, d')"
  shows "no_new_leases d d' \<and> no_new_waits d d'"
  using assms
proof (cases rule: insertRun_cases)
  case (existing r k)
  then show ?thesis by (intro quiet_update) (auto simp: view_defs)
next
  case (inserted u inp due nts)
  then show ?thesis by (auto simp: no_new_leases_def no_new_waits_def)
qed

lemma quiet_emitEvent:
  "emitEvent pg now key payload ttl channel d = Inr (res, d') \<Longrightarrow> no_new_leases d d' \<and> no_new_waits d d'"
  by (rule quiet_update) (auto simp: emitEvent_def Let_def view_defs split: option.splits if_splits)

lemma quiet_cancelRun:
  assumes "cancelRun pg now i d = Inr (n, d')"
  shows "no_new_leases d d' \<and> no_new_waits d d'"
proof -
  obtain u where "uuid_in pg i = Some u" using assms by (auto simp: cancelRun_def split: option.splits)
  then show ?thesis
    using assms by (intro quiet_update [where p = "cancellable u"]) (auto simp: cancelRun_def view_defs)
qed

lemma quiet_renewLeases:
  assumes "renewLeases now clk ids tokens ttl d = Inr (ts, d')"
  shows "no_new_leases d d' \<and> no_new_waits d d'"
  using assms by (intro quiet_update) (auto simp: renewLeases_def view_defs)

lemma quiet_fenced:
  assumes "fenced_update i token clk f d = Inr (n, d')"
    and "\<And>r. lease_token (f r) = None" and "\<And>r. waiting_event_key (f r) = None \<or> wait_view (f r) = wait_view r"
  shows "no_new_leases d d' \<and> no_new_waits d d'"
  using assms by (intro quiet_update) (auto simp: fenced_update_def)

lemma quiet_completeRun:
  assumes "completeRun pg now clk i token index out d = Inr (n, d')"
  shows "no_new_leases d d' \<and> no_new_waits d d'"
  using assms unfolding completeRun_def
  by (auto split: option.splits elim!: quiet_fenced simp: view_defs)

lemma quiet_parkSleep:
  assumes "parkSleep now clk i token next ms d = Inr (n, d')"
  shows "no_new_leases d d' \<and> no_new_waits d d'"
  using assms unfolding parkSleep_def by (rule quiet_fenced) (simp_all add: view_defs)

lemma quiet_failOrRetry:
  assumes "failOrRetry_stmt now clk i token att ms msg d = Inr (n, d')"
  shows "no_new_leases d d' \<and> no_new_waits d d'"
proof -
  have "fenced_update i token clk
        (\<lambda>r. r\<lparr>state := (if max_attempts r \<le> att then RunFailed else RunReady), attempt := att,
              next_run_at := now + interval_ms ms, last_error := Some msg, lease_token := None,
              lease_until := None, updated_at := now\<rparr>) d = Inr (n, d')"
    using assms by (auto simp: failOrRetry_stmt_def split: if_splits)
  then show ?thesis by (rule quiet_fenced) (simp_all add: view_defs)
qed

lemma quiet_recoverLeases:
  assumes "recoverLeases locked now clk d = Inr (n, d')"
  shows "no_new_leases d d' \<and> no_new_waits d d'"
  using assms by (intro quiet_update) (auto simp: recoverLeases_def Let_def view_defs)

lemma quiet_promoteTimedOut:
  assumes "promoteTimedOut locked now channel d = Inr (n, d')"
  shows "no_new_leases d d' \<and> no_new_waits d d'"
  using assms by (intro quiet_update) (auto simp: promoteTimedOut_def Let_def view_defs)

lemma quiet_pruneEvents:
  assumes "pruneEvents elocked now d = Inr (n, d')"
  shows "no_new_leases d d' \<and> no_new_waits d d'"
  using assms by (auto simp: pruneEvents_def Let_def no_new_leases_def no_new_waits_def)

section \<open>The invariant\<close>

text \<open>
  Every current lease belongs to a claim that was handed out, whose view of the run
  (identifier, attempt count, position) is the stored one; and while a run waits for a key,
  every logged event of that key either arrived at or after the run's deadline or had
  already expired when the run parked.
\<close>

definition claim_matches :: "active \<Rightarrow> run_row \<Rightarrow> bool" where
  "claim_matches a r \<longleftrightarrow>
     lease_token r = Some (ac_token a) \<and> ac_id a = rid r
   \<and> cl_attempt (ac_claim a) = attempt r \<and> ac_index a = step_index r"

definition leases_ok :: "db \<Rightarrow> active list \<Rightarrow> bool" where
  "leases_ok d cs \<longleftrightarrow>
     distinct (map ac_token cs)
   \<and> (\<forall>r \<in> set (runs d). lease_token r \<noteq> None \<longrightarrow> (\<exists>a \<in> set cs. claim_matches a r))"

definition no_missed_event :: "db \<Rightarrow> (uuid \<Rightarrow> timestamptz) \<Rightarrow> bool" where
  "no_missed_event d parked \<longleftrightarrow>
     (\<forall>r \<in> set (runs d). \<forall>e \<in> set (events d). \<forall>t.
        waiting_event_key r = Some (ev_key e) \<and> waiting_deadline r = Some t
        \<longrightarrow> t \<le> ev_created_at e \<or> ev_expires_at e \<le> parked (rid r))"

definition sys_ok :: "sys \<Rightarrow> bool" where
  "sys_ok s \<longleftrightarrow> db_ok (s_db s) \<and> leases_ok (s_db s) (s_claims s) \<and> no_missed_event (s_db s) (s_parked s)"

lemma sys_ok_init: "sys_ok (init_sys t)"
  using db_ok_empty
  by (simp add: sys_ok_def init_sys_def leases_ok_def no_missed_event_def empty_db_def)

lemma leases_ok_quiet: "leases_ok d cs \<Longrightarrow> no_new_leases d d' \<Longrightarrow> leases_ok d' cs"
  unfolding leases_ok_def no_new_leases_def
proof (intro conjI ballI impI; elim conjE)
  fix r'
  assume old: "\<forall>r \<in> set (runs d). lease_token r \<noteq> None \<longrightarrow> (\<exists>a \<in> set cs. claim_matches a r)"
    and new: "\<forall>r' \<in> set (runs d'). lease_token r' \<noteq> None \<longrightarrow> (\<exists>r \<in> set (runs d). lease_view r = lease_view r')"
    and r': "r' \<in> set (runs d')" "lease_token r' \<noteq> None"
  then obtain r where r: "r \<in> set (runs d)" "lease_view r = lease_view r'" by blast
  with r' have "lease_token r \<noteq> None" by (simp add: lease_view_def)
  with r old obtain a where "a \<in> set cs" "claim_matches a r" by blast
  with r(2) show "\<exists>a \<in> set cs. claim_matches a r'" by (auto simp: claim_matches_def lease_view_def)
qed auto

lemma no_missed_quiet:
  assumes "no_missed_event d parked" "no_new_waits d d'" "set (events d') \<subseteq> set (events d)"
  shows "no_missed_event d' parked"
  unfolding no_missed_event_def
proof (intro ballI allI impI; elim conjE)
  fix r' e t
  assume r': "r' \<in> set (runs d')" and e: "e \<in> set (events d')"
    and k: "waiting_event_key r' = Some (ev_key e)" "waiting_deadline r' = Some t"
  then obtain r where "r \<in> set (runs d)" "wait_view r = wait_view r'"
    using assms(2) by (auto simp: no_new_waits_def)
  with assms(1,3) e k show "t \<le> ev_created_at e \<or> ev_expires_at e \<le> parked (rid r')"
    by (fastforce simp: no_missed_event_def wait_view_def)
qed

lemma quiet_sys_ok:
  assumes "sys_ok s" "db_ok d'" "no_new_leases (s_db s) d' \<and> no_new_waits (s_db s) d'"
    and "set (events d') \<subseteq> set (events (s_db s))"
  shows "sys_ok (s\<lparr>s_db := d'\<rparr>)"
  using assms leases_ok_quiet no_missed_quiet by (auto simp: sys_ok_def)

lemma quiet_step:
  assumes "sys_ok s" "db_ok (s_db s) \<Longrightarrow> db_ok d'" "db_ok (s_db s) \<Longrightarrow> db_step (s_db s) d'"
    and "no_new_leases (s_db s) d' \<and> no_new_waits (s_db s) d'"
    and "set (events d') \<subseteq> set (events (s_db s))"
  shows "sys_ok (s\<lparr>s_db := d'\<rparr>) \<and> db_step (s_db s) (s_db (s\<lparr>s_db := d'\<rparr>))"
proof -
  have "db_ok (s_db s)" using assms(1) by (simp add: sys_ok_def)
  then show ?thesis using quiet_sys_ok [OF assms(1,2,4,5)] assms(3) by simp
qed

text \<open>The token identifies the claim, so a fenced row is in the state its claim believes.\<close>

lemma claim_of_token:
  assumes "sys_ok s" "a \<in> set (s_claims s)" "r \<in> set (runs (s_db s))" "lease_token r = Some (ac_token a)"
  shows "claim_matches a r"
proof -
  obtain b where b: "b \<in> set (s_claims s)" "claim_matches b r"
    using assms by (auto simp: sys_ok_def leases_ok_def)
  then have "ac_token b = ac_token a" using assms(4) by (simp add: claim_matches_def)
  then have "b = a"
    using assms(1,2) b(1) by (metis distinct_map inj_onD leases_ok_def sys_ok_def)
  with b show ?thesis by simp
qed

lemma fence_claim_matches:
  assumes "sys_ok s" "a \<in> set (s_claims s)" "r \<in> set (runs (s_db s))" "fence i (ac_token a) clk r"
  shows "claim_matches a r"
  using assms by (intro claim_of_token) (auto simp: fence_def)

section \<open>Every step keeps the invariant\<close>

lemma sys_ok_emit:
  assumes ok: "sys_ok s" and em: "emitEvent pg now key payload ttl channel (s_db s) = Inr (res, d')"
  shows "sys_ok (s\<lparr>s_db := d'\<rparr>)"
proof -
  let ?d = "s_db s"
  have q: "no_new_leases ?d d' \<and> no_new_waits ?d d'" using em by (rule quiet_emitEvent)
  have dok: "db_ok d'" using emitEvent_ok(1) [OF _ em] ok by (simp add: sys_ok_def)
  have "no_missed_event d' (s_parked s)"
    unfolding no_missed_event_def
  proof (intro ballI allI impI; elim conjE)
    fix r' e t
    assume r': "r' \<in> set (runs d')" and e: "e \<in> set (events d')"
      and k: "waiting_event_key r' = Some (ev_key e)" "waiting_deadline r' = Some t"
    let ?g = "\<lambda>r. if waits_on key now r then r\<lparr>state := RunReady, next_run_at := now,
        waiting_event_key := None, waiting_deadline := None, last_error := None, updated_at := now\<rparr> else r"
    have runs: "set (runs d') = ?g ` set (runs ?d)"
      using em by (auto simp: emitEvent_def Let_def set_update_where split: option.splits if_splits)
    then obtain r where r: "r \<in> set (runs ?d)" "r' = ?g r" using r' by blast
    with k have rr: "r' = r" "\<not> waits_on key now r" by (auto split: if_splits)
    consider "e \<in> set (events ?d)" | "ev_key e = key" "ev_created_at e = now"
      using e em by (auto simp: emitEvent_def Let_def split: option.splits if_splits)
    then show "t \<le> ev_created_at e \<or> ev_expires_at e \<le> s_parked s (rid r')"
    proof cases
      case 1
      with ok r rr k show ?thesis by (auto simp: sys_ok_def no_missed_event_def)
    next
      case 2
      have "state r = RunWaitingEvent"
        using ok r(1) k rr by (auto simp: sys_ok_def dest: db_okD(2) simp: row_ok_def)
      with 2 rr k show ?thesis by (auto simp: waits_on_def)
    qed
  qed
  with ok dok q show ?thesis using leases_ok_quiet by (auto simp: sys_ok_def)
qed

lemma latestEvent_None:
  "latestEvent now key d = Inr None \<longleftrightarrow>
   text_ok key \<and> (\<forall>e \<in> set (events d). ev_key e = key \<longrightarrow> ev_expires_at e \<le> now)"
proof -
  let ?p = "\<lambda>e. ev_key e = key \<and> now < ev_expires_at e"
  have "select_limit (\<lambda>e. (- ev_created_at e, - int (ev_id e))) 1 ?p (events d) = [] \<longleftrightarrow> count_where ?p (events d) = 0"
    using length_select_limit [of "\<lambda>e. (- ev_created_at e, - int (ev_id e))" 1 ?p "events d"]
    by (cases "count_where ?p (events d)") (auto simp del: length_0_conv simp: length_0_conv [symmetric])
  then show ?thesis
    by (auto simp: latestEvent_def count_where_zero not_less split: list.splits)
qed

text \<open>Only one run can pass the fence of an identifier.\<close>

lemma fence_unique:
  assumes "db_ok d" "r \<in> set (runs d)" "q \<in> set (runs d)" "fence (rid r) token clk q"
  shows "q = r"
  using assms by (metis db_okD(1) fence_def option.inject row_with_distinct)

lemma sys_ok_park_wait:
  assumes ok: "sys_ok s" and none: "latestEvent now key (s_db s) = Inr None"
    and pk: "parkWait now clk i token index key ms (s_db s) = Inr (n, d')"
  shows "sys_ok (s\<lparr>s_db := d', s_parked := (if n = 0 then s_parked s else (s_parked s)(i := now))\<rparr>)"
proof -
  let ?d = "s_db s" and ?P = "if n = 0 then s_parked s else (s_parked s)(i := now)"
  let ?f = "\<lambda>r. r\<lparr>state := RunWaitingEvent, step_index := index, waiting_event_key := Some key,
              waiting_deadline := Some (now + interval_ms ms), lease_token := None,
              lease_until := None, last_error := None, lease_failures := 0, updated_at := now\<rparr>"
  have d': "d' = ?d\<lparr>runs := update_where (fence i token clk) ?f (runs ?d)\<rparr>"
    and n: "n = count_where (fence i token clk) (runs ?d)"
    using pk by (auto simp: parkWait_def fenced_update_def split: if_splits)
  have dok: "db_ok d'" using parkWait_ok(1) [OF _ pk] ok by (simp add: sys_ok_def)
  have "no_new_leases ?d d'" unfolding d' by (rule no_new_leases_update) simp
  moreover have expired: "ev_expires_at e \<le> now" if "e \<in> set (events ?d)" "ev_key e = key" for e
    using none that by (simp add: latestEvent_None)
  have "no_missed_event d' ?P"
    unfolding no_missed_event_def
  proof (intro ballI allI impI; elim conjE)
    fix r' e t
    assume r': "r' \<in> set (runs d')" and e: "e \<in> set (events d')"
      and k: "waiting_event_key r' = Some (ev_key e)" "waiting_deadline r' = Some t"
    obtain r where r: "r \<in> set (runs ?d)" "r' = (if fence i token clk r then ?f r else r)"
      using r' by (auto simp: d' set_update_where)
    have e': "e \<in> set (events ?d)" using e by (simp add: d')
    show "t \<le> ev_created_at e \<or> ev_expires_at e \<le> ?P (rid r')"
    proof (cases "fence i token clk r")
      case True
      with r k have "ev_key e = key" "rid r' = i" by (auto simp: fence_def)
      moreover have "n \<noteq> 0" using True r(1) by (auto simp: n count_where_zero)
      ultimately show ?thesis using expired [OF e'] by simp
    next
      case False
      with r have "r' = r" by simp
      have "n = 0 \<or> rid r \<noteq> i"
        using fence_unique [of ?d r] ok r(1) False by (auto simp: sys_ok_def n count_where_zero)
      then have "?P (rid r') = s_parked s (rid r)" using \<open>r' = r\<close> by auto
      with \<open>r' = r\<close> r k e' ok show ?thesis unfolding sys_ok_def no_missed_event_def by metis
    qed
  qed
  ultimately show ?thesis using ok dok leases_ok_quiet by (auto simp: sys_ok_def)
qed

lemma commitStep_cases [consumes 1, case_names lost owned]:
  assumes "commitStep pg now clk i token index v complete d = Inr (res, d')"
  obtains "res = None" "d' = d" "\<not> list_ex (owned i token index clk) (runs d)"
  | w out where "jsonb_in pg v = Some w" "list_ex (owned i token index clk) (runs d)"
      "res = Some (checkpoint_of (checkpoints d) i index)"
      "checkpoints d' = insert_checkpoint now i index w (checkpoints d)" "events d' = events d"
      "out = (case checkpoint_of (checkpoints d) i index of Some x \<Rightarrow> x | None \<Rightarrow> w)"
      "runs d' = update_where (owned i token index clk)
        (\<lambda>r. r\<lparr>step_index := Suc index, last_error := None, lease_failures := 0, updated_at := now,
              state := (if complete then RunCompleted else state r),
              output_json := (if complete then Some out else None),
              lease_token := (if complete then None else lease_token r),
              lease_until := (if complete then None else lease_until r)\<rparr>) (runs d)"
proof (cases "jsonb_in pg v")
  case (Some w)
  show ?thesis
  proof (cases "list_ex (owned i token index clk) (runs d)")
    case True
    with Some assms show ?thesis by (intro that(2)) (simp_all add: commitStep_def Let_def, auto)
  next
    case False
    with Some assms show ?thesis by (intro that(1)) (simp_all add: commitStep_def)
  qed
qed (use assms in \<open>simp add: commitStep_def\<close>)

lemma advance_tokens [simp]: "map ac_token (advance token k cs) = map ac_token cs"
  unfolding advance_def by (rule map_update_where_key) simp

lemma leases_ok_commit:
  assumes ok: "sys_ok s" and a: "a \<in> set (s_claims s)" and own: "o' \<in> set (runs (s_db s))" "owned (ac_id a) (ac_token a) index clk o'"
    and r: "r \<in> set (runs (s_db s))" "lease_token r' \<noteq> None"
    and p: "owned (ac_id a) (ac_token a) index clk r \<Longrightarrow>
      rid r' = rid r \<and> attempt r' = attempt r \<and> step_index r' = Suc index \<and> lease_token r' = lease_token r"
    and np: "\<not> owned (ac_id a) (ac_token a) index clk r \<Longrightarrow> r' = r"
  shows "\<exists>b \<in> set (advance (ac_token a) (Suc index) (s_claims s)). claim_matches b r'"
proof (cases "owned (ac_id a) (ac_token a) index clk r")
  case True
  then have "claim_matches a r" using fence_claim_matches [OF ok a r(1)] unfolding owned_def by blast
  with p [OF True] have "claim_matches (a\<lparr>ac_index := Suc index\<rparr>) r'" by (simp add: claim_matches_def)
  moreover have "a\<lparr>ac_index := Suc index\<rparr> \<in> set (advance (ac_token a) (Suc index) (s_claims s))"
    using a by (auto simp: advance_def set_update_where)
  ultimately show ?thesis by blast
next
  case False
  then obtain b where b: "b \<in> set (s_claims s)" "claim_matches b r"
    using ok r np by (auto simp: sys_ok_def leases_ok_def)
  have "ac_token b \<noteq> ac_token a"
  proof
    assume same: "ac_token b = ac_token a"
    have "lease_token o' = Some (ac_token a)" using own(2) by (simp add: owned_def fence_def)
    then have "rid r = rid o'"
      using runs_okD(3) [of "runs (s_db s)" r o' "ac_token a"] ok r(1) own(1) b same
      by (simp add: sys_ok_def db_ok_def claim_matches_def)
    with own(1) r(1) ok have "r = o'" by (metis db_okD(1) option.inject row_with_distinct sys_ok_def)
    with own(2) False show False by simp
  qed
  then have "b \<in> set (advance (ac_token a) (Suc index) (s_claims s))" using b(1) by (force simp: advance_def set_update_where)
  with b np [OF False] show ?thesis by blast
qed

lemma sys_ok_commit:
  assumes ok: "sys_ok s" and a: "a \<in> set (s_claims s)" and ix: "ac_index a \<le> index"
    and cm: "commitStep pg now clk (ac_id a) (ac_token a) index v complete (s_db s) = Inr (res, d')"
  shows "sys_ok (s\<lparr>s_db := d', s_claims :=
           (if res = None then s_claims s else advance (ac_token a) (Suc index) (s_claims s))\<rparr>)"
  using cm
proof (cases rule: commitStep_cases)
  case lost
  with ok show ?thesis by simp
next
  case (owned w out)
  let ?p = "owned (ac_id a) (ac_token a) index clk"
  note ev = owned(5) and out = owned(7)
  have dok: "db_ok d'" using commitStep_ok(1) [OF _ cm] ok by (simp add: sys_ok_def)
  have nw: "no_new_waits (s_db s) d'"
    unfolding no_new_waits_def by (auto simp: out set_update_where wait_view_def)
  obtain o' where o: "o' \<in> set (runs (s_db s))" "?p o'" using owned(2) by (auto simp: list_ex_iff)
  have "\<exists>b \<in> set (advance (ac_token a) (Suc index) (s_claims s)). claim_matches b r'"
    if r': "r' \<in> set (runs d')" "lease_token r' \<noteq> None" for r'
  proof -
    obtain r where r: "r \<in> set (runs (s_db s))" "?p r \<longrightarrow> rid r' = rid r \<and> attempt r' = attempt r
        \<and> step_index r' = Suc index \<and> lease_token r' = lease_token r" "\<not> ?p r \<longrightarrow> r' = r"
      using r' by (auto simp: out set_update_where split: if_splits)
    show ?thesis using leases_ok_commit [OF ok a o r(1) r'(2)] r(2,3) by blast
  qed
  then have "leases_ok d' (advance (ac_token a) (Suc index) (s_claims s))" using ok by (simp add: sys_ok_def leases_ok_def)
  moreover have "no_missed_event d' (s_parked s)"
    using no_missed_quiet [OF _ nw] ok by (simp add: sys_ok_def ev)
  ultimately show ?thesis using owned(3) dok by (simp add: sys_ok_def)
qed

text \<open>The claims that a statement hands out have new tokens, and with them every lease has its claim.\<close>

lemma new_claims_tokens:
  assumes "leases_ok d cs0" "distinct (map cl_id cs)" "map cl_token cs = map gen (map cl_id cs)"
    and "fresh_tokens gen (map cl_id cs) (map ac_token cs0)"
  shows "distinct (map ac_token (cs0 @ new_claims cs))"
proof -
  have "map ac_token (new_claims cs) = map gen (map cl_id cs)" using assms(3) by (simp add: new_claims_def)
  moreover have "distinct (map gen (map cl_id cs))"
    using assms(2,4) unfolding fresh_tokens_def by (metis distinct_map)
  moreover have "set (map gen (map cl_id cs)) \<inter> set (map ac_token cs0) = {}"
    using assms(4) unfolding fresh_tokens_def set_map by simp
  ultimately show ?thesis using assms(1) unfolding map_append distinct_append leases_ok_def by auto
qed

lemma claimed_row_matches:
  assumes "db_ok d" "leases_ok d cs0" "lease_token r' \<noteq> None" and r: "r \<in> set (runs d)"
    and r': "r' = (if rid r \<in> set (map rid ws) then lease_row now clk ttl gen r else r)"
    and ws: "ws = claim_picked pred locked now q limit d"
  shows "\<exists>a \<in> set (cs0 @ new_claims (map (claim_result gen (checkpoints d)) ws)). claim_matches a r'"
proof (cases "rid r \<in> set (map rid ws)")
  case True
  then have "r \<in> set ws"
    using picked_by_id(1) [OF db_okD(1) [OF assms(1)] r] unfolding ws claim_picked_def by blast
  moreover have "claim_matches \<lparr>ac_claim = claim_result gen (checkpoints d) r,
      ac_index = cl_step_index (claim_result gen (checkpoints d) r)\<rparr> r'"
    using r' True by (simp add: claim_matches_def claim_result_def lease_row_def)
  ultimately show ?thesis by (force simp: new_claims_def)
next
  case False
  then have "r' = r" using r' by simp
  then show ?thesis using assms(2,3) r by (auto simp: leases_ok_def)
qed

lemma sys_ok_claim:
  assumes ok: "sys_ok s" and cl: "claim pred gen locked now clk q limit ttl (s_db s) = Inr (cs, d')"
    and fresh: "fresh_tokens gen (map cl_id cs) (map ac_token (s_claims s))"
  shows "sys_ok (s\<lparr>s_db := d', s_claims := s_claims s @ new_claims cs\<rparr>)"
    and "db_step (s_db s) d'"
proof -
  let ?d = "s_db s" and ?ws = "claim_picked pred locked now q limit (s_db s)"
  have dok: "db_ok ?d" and lok: "leases_ok ?d (s_claims s)" using ok by (simp_all add: sys_ok_def)
  have cs: "cs = map (claim_result gen (checkpoints ?d)) ?ws"
    and d': "d' = ?d\<lparr>runs := update_where (\<lambda>r. rid r \<in> set (map rid ?ws)) (lease_row now clk ttl gen) (runs ?d)\<rparr>"
    using cl by (simp_all add: claim_def Let_def)
  have ids: "map cl_id cs = map rid ?ws" and toks: "map cl_token cs = map gen (map cl_id cs)"
    by (simp_all add: cs claim_result_def)
  have "set (List.map_filter lease_token (runs ?d)) \<subseteq> set (map ac_token (s_claims s))"
    using lok by (force simp: map_filter_def leases_ok_def claim_matches_def)
  then have fr: "fresh_tokens gen (map rid ?ws) (List.map_filter lease_token (runs ?d))"
    using fresh unfolding ids fresh_tokens_def by blast
  show "db_step ?d d'" using claim_ok(2) [OF dok cl fr] .
  have "distinct (map cl_id cs)"
    unfolding ids claim_picked_def by (rule distinct_select_limit [OF db_okD(1) [OF dok]])
  note dist = new_claims_tokens [OF lok this toks fresh]
  have "\<exists>a \<in> set (s_claims s @ new_claims cs). claim_matches a r'"
    if r': "r' \<in> set (runs d')" "lease_token r' \<noteq> None" for r'
  proof -
    obtain r where r: "r \<in> set (runs ?d)" "r' = (if rid r \<in> set (map rid ?ws) then lease_row now clk ttl gen r else r)"
      using r'(1) by (auto simp: d' set_update_where)
    show ?thesis unfolding cs by (rule claimed_row_matches [OF dok lok r'(2) r refl])
  qed
  then have "leases_ok d' (s_claims s @ new_claims cs)" using dist unfolding leases_ok_def by blast
  moreover have "no_missed_event d' (s_parked s)"
  proof (rule no_missed_quiet)
    show "no_new_waits ?d d'"
      unfolding d' by (rule no_new_waits_update) (simp add: lease_row_def wait_view_def)
  qed (use ok in \<open>simp_all add: sys_ok_def d'\<close>)
  ultimately show "sys_ok (s\<lparr>s_db := d', s_claims := s_claims s @ new_claims cs\<rparr>)"
    using claim_ok(1) [OF dok cl fr] by (simp add: sys_ok_def)
qed

lemma fail_attempt:
  assumes "sys_ok s" "a \<in> set (s_claims s)" "r \<in> set (runs (s_db s))" "fence i (ac_token a) clk r"
  shows "cl_attempt (ac_claim a) + 1 = attempt r + 1"
  using fence_claim_matches [OF assms] by (simp add: claim_matches_def)

lemma events_frame:
  "insertRun pg now i name version q maxA sched input dedup channel d = Inr (res, d') \<Longrightarrow> set (events d') \<subseteq> set (events d)"
  "cancelRun pg now i d = Inr (n, d') \<Longrightarrow> set (events d') \<subseteq> set (events d)"
  "renewLeases now clk ids tokens ttl d = Inr (ts, d') \<Longrightarrow> set (events d') \<subseteq> set (events d)"
  "completeRun pg now clk i token index out d = Inr (n, d') \<Longrightarrow> set (events d') \<subseteq> set (events d)"
  "parkSleep now clk i token next ms d = Inr (n, d') \<Longrightarrow> set (events d') \<subseteq> set (events d)"
  "failOrRetry_stmt now clk i token att ms msg d = Inr (n, d') \<Longrightarrow> set (events d') \<subseteq> set (events d)"
  "recoverLeases locked now clk d = Inr (n, d') \<Longrightarrow> set (events d') \<subseteq> set (events d)"
  "promoteTimedOut locked now channel d = Inr (p, d') \<Longrightarrow> set (events d') \<subseteq> set (events d)"
  by (erule insertRun_cases; simp)
     (auto simp: cancelRun_def renewLeases_def completeRun_def parkSleep_def failOrRetry_stmt_def
       recoverLeases_def promoteTimedOut_def fenced_update_def Let_def split: option.splits if_splits)

lemma prune_events_subset: "pruneEvents el now d = Inr (n, d') \<Longrightarrow> set (events d') \<subseteq> set (events d)"
  by (auto simp: pruneEvents_def Let_def)

theorem sys_step_ok:
  assumes "sys_step pg s t" "sys_ok s"
  shows "sys_ok t \<and> db_step (s_db s) (s_db t)"
  using assms
proof (induction rule: sys_step.induct)
  case (tick s t)
  then show ?case by (simp add: sys_ok_def)
next
  case (enqueue now s i name version q maxA sched input dedup channel res d')
  show ?case
    by (rule quiet_step [OF enqueue(3) insertRun_ok [OF _ enqueue(2)]
        quiet_insertRun [OF enqueue(2)] events_frame(1) [OF enqueue(2)]])
next
  case (emit now s key payload ttl channel res d')
  then show ?case using sys_ok_emit [OF emit(3,2)] emitEvent_ok(2) [OF _ emit(2)] by (simp add: sys_ok_def)
next
  case (cancel now s i n d')
  show ?case
    by (rule quiet_step [OF cancel(3) cancelRun_ok [OF _ cancel(2)]
        quiet_cancelRun [OF cancel(2)] events_frame(2) [OF cancel(2)]])
next
  case (claim now s pred gen locked q limit ttl cs d')
  then show ?case using sys_ok_claim [OF claim(4,2,3)] by simp
next
  case (renew now s ids tokens ttl ts d')
  show ?case
    by (rule quiet_step [OF renew(3) renewLeases_ok [OF _ renew(2)]
        quiet_renewLeases [OF renew(2)] events_frame(3) [OF renew(2)]])
next
  case (commit now s a index v complete res d')
  then show ?case
    using sys_ok_commit [OF commit(5,2,3,4)] commitStep_ok(2) [OF _ commit(4)]
    by (simp add: sys_ok_def)
next
  case (complete now s a index out n d')
  show ?case
    by (rule quiet_step [OF complete(5) completeRun_ok [OF _ complete(4)]
        quiet_completeRun [OF complete(4)] events_frame(4) [OF complete(4)]])
next
  case (park_sleep now s a index ms n d')
  show ?case
    by (rule quiet_step [OF park_sleep(5) parkSleep_ok [OF _ park_sleep(4)]
        quiet_parkSleep [OF park_sleep(4)] events_frame(5) [OF park_sleep(4)]])
next
  case (park_wait now s a index ms key n d')
  then show ?case
    using sys_ok_park_wait [OF park_wait(6,4,5)] parkWait_ok(2) [OF _ park_wait(5)]
    by (simp add: sys_ok_def)
next
  case (fail now s a ms msg n d')
  have "db_ok (s_db s)" using fail(4) by (simp add: sys_ok_def)
  note f = failOrRetry_stmt_ok [OF this fail(3) fail_attempt [OF fail(4,2)]]
  show ?case
    by (rule quiet_step [OF fail(4) f quiet_failOrRetry [OF fail(3)] events_frame(6) [OF fail(3)]])
next
  case (recover now s locked n d')
  show ?case
    by (rule quiet_step [OF recover(3) recoverLeases_ok [OF _ recover(2)]
        quiet_recoverLeases [OF recover(2)] events_frame(7) [OF recover(2)]])
next
  case (promote now s locked channel res d')
  show ?case
    by (rule quiet_step [OF promote(3) promoteTimedOut_ok [OF _ promote(2)]
        quiet_promoteTimedOut [OF promote(2)] events_frame(8) [OF promote(2)]])
next
  case (prune now s elocked n d')
  show ?case
    by (rule quiet_step [OF prune(3) pruneEvents_ok [OF _ prune(2)]
        quiet_pruneEvents [OF prune(2)] prune_events_subset [OF prune(2)]])
qed

interpretation system: transition_invariant "sys_step pg" sys_ok for pg
  using sys_step_ok by unfold_locales blast

interpretation history: transition_preorder "sys_step pg" sys_ok "\<lambda>s t. db_evolves (s_db s) (s_db t)" for pg
proof unfold_locales
  show "db_evolves (s_db s) (s_db u)"
    if "db_evolves (s_db s) (s_db t)" "db_evolves (s_db t) (s_db u)" for s t u
    using that by (rule db_evolves_trans)
  show "db_evolves (s_db s) (s_db t)" if "sys_ok s" "sys_step pg s t" for s t
    using that sys_step_ok db_step_evolves by blast
qed simp

lemma reachable_sys_ok: "reachable pg s \<Longrightarrow> sys_ok s"
  by (induction rule: reachable.induct) (auto intro: sys_ok_init system.step_inv)

lemma reachable_steps: "reachable pg s \<Longrightarrow> (sys_step pg)\<^sup>*\<^sup>* s t \<Longrightarrow> reachable pg t"
  by (rotate_tac, induction rule: rtranclp_induct) (auto intro: reachable.step)

section \<open>Leases are never revived\<close>

text \<open>Where the leases of a state come from: everything but claiming and renewing leaves
  a lease as it is or ends it.\<close>

definition leases_from :: "db \<Rightarrow> db \<Rightarrow> bool" where
  "leases_from d d' \<longleftrightarrow>
     (\<forall>r' \<in> set (runs d'). lease_token r' \<noteq> None \<longrightarrow>
        (\<exists>r \<in> set (runs d). lease_token r = lease_token r' \<and> lease_until r = lease_until r'))"

lemma leases_from_update:
  assumes "runs d' = update_where p f (runs d)"
    and "\<And>r. lease_token (f r) = None \<or> lease_token (f r) = lease_token r \<and> lease_until (f r) = lease_until r"
  shows "leases_from d d'"
  unfolding leases_from_def
proof (intro ballI impI)
  fix r'
  assume "r' \<in> set (runs d')" and t: "lease_token r' \<noteq> None"
  then obtain r where r: "r \<in> set (runs d)" "r' = (if p r then f r else r)"
    by (auto simp: assms(1) set_update_where)
  then have "lease_token r = lease_token r' \<and> lease_until r = lease_until r'"
    using t assms(2) [of r] by (auto split: if_splits)
  with r(1) show "\<exists>r \<in> set (runs d). lease_token r = lease_token r' \<and> lease_until r = lease_until r'"
    by blast
qed

lemma leases_from_fenced:
  assumes "fenced_update i token clk f d = Inr (n, d')" "\<And>r. lease_token (f r) = None"
  shows "leases_from d d'"
  using assms by (intro leases_from_update) (auto simp: fenced_update_def)

lemma leases_from_insertRun:
  assumes "insertRun pg now i name version q maxA sched input dedup channel d = Inr (res, d')"
  shows "leases_from d d'"
  using assms
proof (cases rule: insertRun_cases)
  case (existing r k)
  then show ?thesis by (intro leases_from_update) auto
next
  case (inserted u inp due nts)
  then show ?thesis by (auto simp: leases_from_def)
qed

lemma leases_from_commitStep:
  assumes "commitStep pg now clk i token index v complete d = Inr (res, d')"
  shows "leases_from d d'"
  using assms
proof (cases rule: commitStep_cases)
  case lost
  then show ?thesis by (auto simp: leases_from_def)
next
  case (owned w out)
  show ?thesis by (rule leases_from_update [OF owned(7)]) simp
qed

lemma leases_from_statements:
  "emitEvent pg now key payload ttl channel d = Inr (wn, d') \<Longrightarrow> leases_from d d'"
  "cancelRun pg now i d = Inr (n, d') \<Longrightarrow> leases_from d d'"
  "completeRun pg now clk i token index out d = Inr (n, d') \<Longrightarrow> leases_from d d'"
  "parkSleep now clk i token next ms d = Inr (n, d') \<Longrightarrow> leases_from d d'"
  "parkWait now clk i token index key ms d = Inr (n, d') \<Longrightarrow> leases_from d d'"
  "failOrRetry_stmt now clk i token att ms msg d = Inr (n, d') \<Longrightarrow> leases_from d d'"
  "recoverLeases locked now clk d = Inr (n, d') \<Longrightarrow> leases_from d d'"
  "promoteTimedOut locked now channel d = Inr (wn, d') \<Longrightarrow> leases_from d d'"
  "pruneEvents elocked now d = Inr (n, d') \<Longrightarrow> leases_from d d'"
proof -
  show "leases_from d d'" if "emitEvent pg now key payload ttl channel d = Inr (wn, d')"
    using that by (intro leases_from_update [where p = "waits_on key now"])
      (auto simp: emitEvent_def Let_def split: option.splits if_splits)
  show "leases_from d d'" if c: "cancelRun pg now i d = Inr (n, d')"
  proof -
    obtain u where "uuid_in pg i = Some u" using c by (auto simp: cancelRun_def split: option.splits)
    with c show ?thesis
      by (intro leases_from_update [where p = "cancellable u"]) (auto simp: cancelRun_def)
  qed
  show "leases_from d d'" if "completeRun pg now clk i token index out d = Inr (n, d')"
    using that unfolding completeRun_def by (auto split: option.splits elim!: leases_from_fenced)
  show "leases_from d d'" if "parkSleep now clk i token next ms d = Inr (n, d')"
    using that unfolding parkSleep_def by (rule leases_from_fenced) simp
  show "leases_from d d'" if "parkWait now clk i token index key ms d = Inr (n, d')"
    using that unfolding parkWait_def by (auto split: if_splits elim!: leases_from_fenced)
  show "leases_from d d'" if "failOrRetry_stmt now clk i token att ms msg d = Inr (n, d')"
    using that unfolding failOrRetry_stmt_def by (auto split: if_splits elim!: leases_from_fenced)
  show "leases_from d d'" if "recoverLeases locked now clk d = Inr (n, d')"
    using that by (intro leases_from_update) (auto simp: recoverLeases_def Let_def)
  show "leases_from d d'" if "promoteTimedOut locked now channel d = Inr (wn, d')"
    using that by (intro leases_from_update) (auto simp: promoteTimedOut_def Let_def)
  show "leases_from d d'" if "pruneEvents elocked now d = Inr (n, d')"
    using that by (auto simp: pruneEvents_def Let_def leases_from_def)
qed

text \<open>A token that was handed out and no longer protects a live lease.\<close>

definition token_dead :: "uuid \<Rightarrow> sys \<Rightarrow> bool" where
  "token_dead token s \<longleftrightarrow>
     token \<in> set (map ac_token (s_claims s))
   \<and> (\<forall>r \<in> set (runs (s_db s)). lease_token r = Some token \<longrightarrow>
        (\<forall>u. lease_until r = Some u \<longrightarrow> u \<le> s_clock s))"

lemma token_dead_from:
  assumes "token_dead token s" "leases_from (s_db s) d'"
    "set (map ac_token (s_claims s)) \<subseteq> set (map ac_token cs)"
  shows "token_dead token (s\<lparr>s_db := d', s_claims := cs\<rparr>)"
  unfolding token_dead_def
proof (intro conjI ballI impI)
  show "token \<in> set (map ac_token (s_claims (s\<lparr>s_db := d', s_claims := cs\<rparr>)))"
    using assms(1,3) by (auto simp: token_dead_def)
  fix r'
  assume "r' \<in> set (runs (s_db (s\<lparr>s_db := d', s_claims := cs\<rparr>)))" and t: "lease_token r' = Some token"
  then obtain r where r: "r \<in> set (runs (s_db s))" "lease_token r = Some token" "lease_until r = lease_until r'"
    using assms(2) unfolding leases_from_def by (metis option.distinct(1) sys.select_convs(1) sys.surjective sys.update_convs(1,3))
  have "\<forall>u. lease_until r = Some u \<longrightarrow> u \<le> s_clock s"
    using assms(1) r(1,2) unfolding token_dead_def by blast
  with r(3) show "\<forall>u. lease_until r' = Some u \<longrightarrow> u \<le> s_clock (s\<lparr>s_db := d', s_claims := cs\<rparr>)"
    by simp
qed

lemma token_dead_quiet:
  "token_dead token s \<Longrightarrow> leases_from (s_db s) d' \<Longrightarrow> token_dead token (s\<lparr>s_db := d'\<rparr>)"
  using token_dead_from [of token s d' "s_claims s"] by simp

lemma token_dead_fence:
  "token_dead token s \<Longrightarrow> r \<in> set (runs (s_db s)) \<Longrightarrow> \<not> fence i token (s_clock s) r"
  by (auto simp: token_dead_def fence_def split: option.splits)

lemma token_dead_claim:
  assumes "token_dead token s" "claim pred gen locked now clk q limit ttl (s_db s) = Inr (cs, d')"
    and fresh: "fresh_tokens gen (map cl_id cs) (map ac_token (s_claims s))"
  shows "token_dead token (s\<lparr>s_db := d', s_claims := s_claims s @ new_claims cs\<rparr>)"
proof -
  let ?ws = "claim_picked pred locked now q limit (s_db s)"
  have cs: "map cl_id cs = map rid ?ws"
    and d': "runs d' = update_where (\<lambda>r. rid r \<in> set (map rid ?ws)) (lease_row now clk ttl gen) (runs (s_db s))"
    using assms(2) by (auto simp: claim_def Let_def claim_result_def)
  have new: "gen (rid r) \<noteq> token" if "rid r \<in> set (map rid ?ws)" for r
    using that fresh assms(1) unfolding cs fresh_tokens_def token_dead_def by blast
  have "\<forall>u. lease_until r' = Some u \<longrightarrow> u \<le> s_clock s"
    if r': "r' \<in> set (runs d')" and t: "lease_token r' = Some token" for r'
  proof -
    obtain r where r: "r \<in> set (runs (s_db s))"
      "r' = (if rid r \<in> set (map rid ?ws) then lease_row now clk ttl gen r else r)"
      using r' unfolding d' set_update_where by blast
    have "r' = r" using new [of r] t r(2) by (auto simp: lease_row_def split: if_splits)
    with r(1) t assms(1) show ?thesis unfolding token_dead_def by blast
  qed
  moreover have "token \<in> set (map ac_token (s_claims s @ new_claims cs))"
    using assms(1) by (simp add: token_dead_def)
  ultimately show ?thesis unfolding token_dead_def by simp
qed

lemma token_dead_renew:
  assumes dead: "token_dead token s"
    and rn: "renewLeases now (s_clock s) ids tokens ttl (s_db s) = Inr (ts, d')"
  shows "token_dead token (s\<lparr>s_db := d'\<rparr>)"
proof -
  let ?p = "renewable (zip ids tokens) (s_clock s)"
  have d': "runs d' = update_where ?p
      (\<lambda>r. r\<lparr>lease_until := Some (s_clock s + interval_ms ttl), updated_at := now\<rparr>) (runs (s_db s))"
    using rn by (auto simp: renewLeases_def)
  have "\<forall>u. lease_until r' = Some u \<longrightarrow> u \<le> s_clock s"
    if r': "r' \<in> set (runs d')" and t: "lease_token r' = Some token" for r'
  proof -
    obtain r where r: "r \<in> set (runs (s_db s))"
      "r' = (if ?p r then r\<lparr>lease_until := Some (s_clock s + interval_ms ttl), updated_at := now\<rparr> else r)"
      using r' unfolding d' set_update_where by blast
    then have tr: "lease_token r = Some token" using t by (auto split: if_splits)
    have "\<not> ?p r"
    proof
      assume "?p r"
      then obtain i t' where "fence i t' (s_clock s) r" by (auto simp: renewable_def list_ex_iff)
      with tr have "fence i token (s_clock s) r" by (simp add: fence_def)
      with token_dead_fence [OF dead r(1)] show False by blast
    qed
    with r tr dead show ?thesis unfolding token_dead_def by simp
  qed
  with dead show ?thesis unfolding token_dead_def by simp
qed

theorem token_dead_step:
  assumes "sys_step pg s t" "token_dead token s"
  shows "token_dead token t"
  using assms
proof (induction rule: sys_step.induct)
  case (tick s t)
  then show ?case by (auto simp: token_dead_def split: option.splits)
next
  case (claim now s pred gen locked q limit ttl cs d')
  then show ?case by (intro token_dead_claim)
next
  case (renew now s ids tokens ttl ts d')
  then show ?case by (intro token_dead_renew)
next
  case (commit now s a index v complete res d')
  have "set (map ac_token (s_claims s)) \<subseteq> set (map ac_token
      (if res = None then s_claims s else advance (ac_token a) (Suc index) (s_claims s)))"
    by (simp only: if_distrib [of "map ac_token"] advance_tokens if_cancel order_refl)
  with commit leases_from_commitStep show ?case by (blast intro: token_dead_from)
next
  case (park_wait now s a index key ms n d')
  then have "token_dead token (s\<lparr>s_db := d'\<rparr>)" by (intro token_dead_quiet leases_from_statements)
  then show ?case by (simp add: token_dead_def)
qed (auto intro: token_dead_quiet leases_from_insertRun leases_from_statements)

interpretation dead_token: transition_invariant "sys_step pg" "token_dead token" for pg token
  using token_dead_step by unfold_locales blast

section \<open>The cursor and the attempt count only grow\<close>

definition row_forward :: "run_row \<Rightarrow> run_row \<Rightarrow> bool" where
  "row_forward r r' \<longleftrightarrow> step_index r \<le> step_index r' \<and> attempt r \<le> attempt r'"

definition runs_forward :: "db \<Rightarrow> db \<Rightarrow> bool" where
  "runs_forward d d' \<longleftrightarrow>
     (\<forall>i r. run_of d i = Some r \<longrightarrow> (\<exists>r'. run_of d' i = Some r' \<and> row_forward r r'))"

lemma runs_forward_refl [simp]: "runs_forward d d"
  by (simp add: runs_forward_def row_forward_def)

lemma runs_forward_trans: "runs_forward d e \<Longrightarrow> runs_forward e f \<Longrightarrow> runs_forward d f"
  unfolding runs_forward_def row_forward_def by (meson order_trans)

lemma runs_forward_update:
  assumes "runs d' = update_where p f (runs d)" "\<And>r. rid (f r) = rid r"
    and "\<And>r. r \<in> set (runs d) \<Longrightarrow> p r \<Longrightarrow> row_forward r (f r)"
  shows "runs_forward d d'"
  unfolding runs_forward_def
proof (intro allI impI)
  fix i r
  assume r: "run_of d i = Some r"
  then have "r \<in> set (runs d)" using row_with_SomeD by fast
  with r assms show "\<exists>r'. run_of d' i = Some r' \<and> row_forward r r'"
    by (auto simp: run_of_update row_forward_def)
qed

lemma runs_forward_fenced:
  assumes "fenced_update i token clk f d = Inr (n, d')" "\<And>r. rid (f r) = rid r"
    and "\<And>r. r \<in> set (runs d) \<Longrightarrow> fence i token clk r \<Longrightarrow> row_forward r (f r)"
  shows "runs_forward d d'"
proof (rule runs_forward_update)
  show "runs d' = update_where (fence i token clk) f (runs d)"
    using assms(1) by (auto simp: fenced_update_def)
qed (use assms(2,3) in auto)

lemma runs_forward_insertRun:
  assumes "insertRun pg now i name version q maxA sched input dedup channel d = Inr (res, d')"
  shows "runs_forward d d'"
  using assms
proof (cases rule: insertRun_cases)
  case (existing r k)
  then show ?thesis by - (rule runs_forward_update, simp, auto simp: row_forward_def)
next
  case (inserted u inp due nts)
  then show ?thesis by (auto simp: runs_forward_def row_forward_def row_with_append)
qed

lemma runs_forward_statements:
  "emitEvent pg now key payload ttl channel d = Inr (wn, d') \<Longrightarrow> runs_forward d d'"
  "cancelRun pg now i d = Inr (n, d') \<Longrightarrow> runs_forward d d'"
  "claim pred gen locked now clk q limit ms d = Inr (cs, d') \<Longrightarrow> runs_forward d d'"
  "renewLeases now clk ids tokens ms d = Inr (ts, d') \<Longrightarrow> runs_forward d d'"
  "commitStep pg now clk i token index v complete d = Inr (res, d') \<Longrightarrow> runs_forward d d'"
  "recoverLeases locked now clk d = Inr (n, d') \<Longrightarrow> runs_forward d d'"
  "promoteTimedOut locked now channel d = Inr (wn, d') \<Longrightarrow> runs_forward d d'"
  "pruneEvents elocked now d = Inr (n, d') \<Longrightarrow> runs_forward d d'"
proof -
  show "runs_forward d d'" if "emitEvent pg now key payload ttl channel d = Inr (wn, d')"
    using that
    by - (rule runs_forward_update, fastforce simp: emitEvent_def Let_def split: option.splits if_splits,
        auto simp: row_forward_def)
  show "runs_forward d d'" if c: "cancelRun pg now i d = Inr (n, d')"
  proof -
    obtain u where "uuid_in pg i = Some u" using c by (auto simp: cancelRun_def split: option.splits)
    with c show ?thesis
      by - (rule runs_forward_update, fastforce simp: cancelRun_def, auto simp: row_forward_def)
  qed
  show "runs_forward d d'" if "claim pred gen locked now clk q limit ms d = Inr (cs, d')"
    using that
    by - (rule runs_forward_update, fastforce simp: claim_def Let_def, auto simp: lease_row_def row_forward_def)
  show "runs_forward d d'" if "renewLeases now clk ids tokens ms d = Inr (ts, d')"
    using that
    by - (rule runs_forward_update, fastforce simp: renewLeases_def, auto simp: row_forward_def)
  show "runs_forward d d'" if "commitStep pg now clk i token index v complete d = Inr (res, d')"
    using that
  proof (cases rule: commitStep_cases)
    case (owned w out)
    show ?thesis
      by (rule runs_forward_update [OF owned(7)]) (auto simp: row_forward_def owned_def)
  qed simp
  show "runs_forward d d'" if "recoverLeases locked now clk d = Inr (n, d')"
    using that
    by - (rule runs_forward_update, fastforce simp: recoverLeases_def Let_def, auto simp: row_forward_def)
  show "runs_forward d d'" if "promoteTimedOut locked now channel d = Inr (wn, d')"
    using that
    by - (rule runs_forward_update, fastforce simp: promoteTimedOut_def Let_def, auto simp: row_forward_def)
  show "runs_forward d d'" if "pruneEvents elocked now d = Inr (n, d')"
    using that by (auto simp: pruneEvents_def Let_def runs_forward_def row_forward_def)
qed

text \<open>The writes that set the cursor set it to the worker's position or beyond; a fenced
  row is where the worker believes it to be.\<close>

lemma runs_forward_worker:
  assumes ok: "sys_ok s" and a: "a \<in> set (s_claims s)"
  shows "ac_index a \<le> index \<Longrightarrow>
      completeRun pg now clk (ac_id a) (ac_token a) index out (s_db s) = Inr (n, d') \<Longrightarrow> runs_forward (s_db s) d'"
    and "ac_index a \<le> index \<Longrightarrow>
      parkSleep now clk (ac_id a) (ac_token a) index ms (s_db s) = Inr (n, d') \<Longrightarrow> runs_forward (s_db s) d'"
    and "ac_index a \<le> index \<Longrightarrow>
      parkWait now clk (ac_id a) (ac_token a) index key ms (s_db s) = Inr (n, d') \<Longrightarrow> runs_forward (s_db s) d'"
    and "failOrRetry_stmt now clk (ac_id a) (ac_token a) (cl_attempt (ac_claim a) + 1) ms msg (s_db s)
      = Inr (n, d') \<Longrightarrow> runs_forward (s_db s) d'"
proof -
  have cm: "ac_index a = step_index r \<and> cl_attempt (ac_claim a) = attempt r"
    if "r \<in> set (runs (s_db s))" "fence (ac_id a) (ac_token a) clk r" for r
    using fence_claim_matches [OF ok a that] by (simp add: claim_matches_def)
  show "runs_forward (s_db s) d'" if "ac_index a \<le> index"
      "completeRun pg now clk (ac_id a) (ac_token a) index out (s_db s) = Inr (n, d')"
    using that cm unfolding completeRun_def
    by (auto split: option.splits elim!: runs_forward_fenced simp: row_forward_def)
  show "runs_forward (s_db s) d'" if "ac_index a \<le> index"
      "parkSleep now clk (ac_id a) (ac_token a) index ms (s_db s) = Inr (n, d')"
    using that cm unfolding parkSleep_def by (auto elim!: runs_forward_fenced simp: row_forward_def)
  show "runs_forward (s_db s) d'" if "ac_index a \<le> index"
      "parkWait now clk (ac_id a) (ac_token a) index key ms (s_db s) = Inr (n, d')"
    using that cm unfolding parkWait_def
    by (auto split: if_splits elim!: runs_forward_fenced simp: row_forward_def)
  show "runs_forward (s_db s) d'"
    if "failOrRetry_stmt now clk (ac_id a) (ac_token a) (cl_attempt (ac_claim a) + 1) ms msg (s_db s)
      = Inr (n, d')"
    using that cm unfolding failOrRetry_stmt_def
    by (auto split: if_splits elim!: runs_forward_fenced simp: row_forward_def)
qed

theorem runs_forward_step:
  assumes "sys_step pg s t" "sys_ok s"
  shows "runs_forward (s_db s) (s_db t)"
  using assms
proof (induction rule: sys_step.induct)
  case (park_sleep now s a index ms n d')
  then show ?case using runs_forward_worker(2) [OF park_sleep(5,2), of "Suc index"] by simp
qed (auto intro: runs_forward_insertRun runs_forward_statements runs_forward_worker)

interpretation progress: transition_preorder "sys_step pg" sys_ok "\<lambda>s t. runs_forward (s_db s) (s_db t)" for pg
proof unfold_locales
  show "runs_forward (s_db s) (s_db u)"
    if "runs_forward (s_db s) (s_db t)" "runs_forward (s_db t) (s_db u)" for s t u
    using that by (rule runs_forward_trans)
  show "runs_forward (s_db s) (s_db t)" if "sys_ok s" "sys_step pg s t" for s t
    using that by (intro runs_forward_step)
qed simp

section \<open>An example history\<close>

text \<open>One run that is enqueued and claimed under a 30 second lease, which then expires;
  and one whose worker commits a step, parks on an event, and is woken by it.\<close>

definition demo_pg :: pg where "demo_pg = \<lparr>uuid_in = Some, jsonb_in = Some\<rparr>"

definition demo_row :: run_row where
  "demo_row = \<lparr>rid = ''r1'', workflow_name = ''w'', workflow_version = 1, queue = ''q'',
     state = RunReady, step_index = 0, attempt = 0, max_attempts = 3, lease_failures = 0,
     next_run_at = 0, lease_token = None, lease_until = None, waiting_event_key = None,
     waiting_deadline = None, input_json = JNull, output_json = None, dedup_key = Some ''k'',
     last_error = None, created_at = 0, updated_at = 0\<rparr>"

definition demo_leased_row :: run_row where
  "demo_leased_row = demo_row\<lparr>state := RunLeased, lease_token := Some ''t1'',
     lease_until := Some 30000000\<rparr>"

definition demo_db :: "run_row \<Rightarrow> db" where
  "demo_db r = \<lparr>runs = [r], checkpoints = [], events = [], event_seq = 0,
     notifications = [(''c'', ''q'')]\<rparr>"

definition demo_claim :: active where
  "demo_claim = \<lparr>ac_claim = claim_result (\<lambda>_. ''t1'') [] demo_row, ac_index = 0\<rparr>"

definition demo_sys :: "run_row \<Rightarrow> active list \<Rightarrow> timestamptz \<Rightarrow> sys" where
  "demo_sys r cs t = \<lparr>s_db = demo_db r, s_clock = t, s_claims = cs, s_parked = (\<lambda>_. 0)\<rparr>"

lemma text_ok_letter: "text_ok ''w''" "text_ok ''q''" "text_ok ''k''"
  by code_simp+

lemma demo_enqueue_step: "sys_step demo_pg (init_sys 0) (demo_sys demo_row [] 0)"
proof -
  have ins: "insertRun demo_pg 0 ''r1'' ''w'' 1 ''q'' 3 None JNull (Some ''k'') ''c'' empty_db
      = Inr ((''r1'', 1), demo_db demo_row)"
    by (simp add: insertRun_def demo_pg_def demo_db_def demo_row_def empty_db_def int4_ok_def text_ok_letter)
  have "sys_step demo_pg (init_sys 0) ((init_sys 0)\<lparr>s_db := demo_db demo_row\<rparr>)"
    by (rule sys_step.enqueue [where now = 0]) (use ins in \<open>simp_all add: init_sys_def\<close>)
  then show ?thesis by (simp add: demo_sys_def init_sys_def)
qed

lemma demo_enqueued: "reachable demo_pg (demo_sys demo_row [] 0)"
  by (rule reachable.step [OF reachable.init demo_enqueue_step])

lemma demo_claim_stmt:
  "claim (\<lambda>_. True) (\<lambda>_. ''t1'') (\<lambda>_. False) 0 0 ''q'' 1 30000 (demo_db demo_row)
     = Inr ([ac_claim demo_claim], demo_db demo_leased_row)"
  by (simp add: claim_def claim_picked_def demo_db_def demo_row_def demo_claim_def demo_leased_row_def
      select_limit_def due_in_def update_where_def lease_row_def interval_ms_def)

lemma demo_claim_step: "sys_step demo_pg (demo_sys demo_row [] 0) (demo_sys demo_leased_row [demo_claim] 0)"
proof -
  have "sys_step demo_pg (demo_sys demo_row [] 0)
      ((demo_sys demo_row [] 0)\<lparr>s_db := demo_db demo_leased_row,
         s_claims := s_claims (demo_sys demo_row [] 0) @ new_claims [ac_claim demo_claim]\<rparr>)"
    by (rule sys_step.claim [where now = 0 and gen = "\<lambda>_. ''t1''"])
       (use demo_claim_stmt in \<open>simp_all add: demo_sys_def fresh_tokens_def demo_claim_def\<close>)
  then show ?thesis
    by (simp add: demo_sys_def new_claims_def demo_claim_def claim_result_def demo_row_def)
qed

lemma demo_claim_steps:
  "(sys_step demo_pg)\<^sup>*\<^sup>* (demo_sys demo_row [] 0) (demo_sys demo_leased_row [demo_claim] 0)"
  using demo_claim_step by (rule r_into_rtranclp)

lemma demo_leased: "reachable demo_pg (demo_sys demo_leased_row [demo_claim] 0)"
  by (rule reachable.step [OF demo_enqueued demo_claim_step])

lemma demo_tick: "t \<le> u \<Longrightarrow> sys_step demo_pg (demo_sys r cs t) (demo_sys r cs u)"
  using sys_step.tick [of "demo_sys r cs t" u demo_pg] by (simp add: demo_sys_def)

lemma demo_expired: "reachable demo_pg (demo_sys demo_leased_row [demo_claim] 30000000)"
  by (rule reachable.step [OF demo_leased demo_tick]) simp

text \<open>The claim's first step committed.\<close>

definition demo_committed :: "timestamptz \<Rightarrow> sys" where
  "demo_committed t = \<lparr>s_db = (demo_db (demo_leased_row\<lparr>step_index := 1\<rparr>))\<lparr>checkpoints :=
       [\<lparr>cp_run = ''r1'', cp_index = 0, cp_value = JBool True, cp_completed_at = 0\<rparr>]\<rparr>,
     s_clock = t, s_claims = [demo_claim\<lparr>ac_index := 1\<rparr>], s_parked = (\<lambda>_. 0)\<rparr>"

lemma demo_claim_simps: "ac_id demo_claim = ''r1''" "ac_token demo_claim = ''t1''" "ac_index demo_claim = 0"
  by (simp_all add: demo_claim_def claim_result_def demo_row_def)

lemma demo_commit_reachable: "reachable demo_pg (demo_committed 0)"
proof -
  let ?s = "demo_sys demo_leased_row [demo_claim] 0"
  have c: "commitStep demo_pg 0 0 ''r1'' ''t1'' 0 (JBool True) False (demo_db demo_leased_row)
      = Inr (Some None, s_db (demo_committed 0))"
    by (simp add: commitStep_def demo_pg_def demo_db_def demo_leased_row_def demo_row_def owned_def fence_def
        checkpoint_of_def insert_checkpoint_def update_where_def demo_committed_def)
  have "sys_step demo_pg ?s (?s\<lparr>s_db := s_db (demo_committed 0), s_claims :=
      (if Some None = (None :: json option option) then s_claims ?s
       else advance (ac_token demo_claim) (Suc 0) (s_claims ?s))\<rparr>)"
    by (rule sys_step.commit [where now = 0 and v = "JBool True" and complete = False])
       (use c in \<open>simp_all add: demo_sys_def demo_claim_simps\<close>)
  from reachable.step [OF demo_leased this] show ?thesis
    by (simp add: demo_sys_def demo_committed_def advance_def update_where_def demo_claim_simps)
qed

lemma demo_commit_later: "(sys_step demo_pg)\<^sup>*\<^sup>* (demo_committed 0) (demo_committed 7)"
  using sys_step.tick [of "demo_committed 0" 7 demo_pg]
  by (intro r_into_rtranclp) (simp add: demo_committed_def)

text \<open>The run parked on a key that has an event which had expired before.\<close>

definition demo_event :: event_row where
  "demo_event = \<lparr>ev_id = 0, ev_key = ''k'', ev_payload = JNull, ev_created_at = 0, ev_expires_at = 0\<rparr>"

definition demo_waiting_row :: run_row where
  "demo_waiting_row = demo_row\<lparr>state := RunWaitingEvent, waiting_event_key := Some ''k'',
     waiting_deadline := Some 1000000\<rparr>"

definition demo_events :: "run_row \<Rightarrow> db" where
  "demo_events r = (demo_db r)\<lparr>events := [demo_event], event_seq := 1\<rparr>"

definition demo_waiting :: sys where
  "demo_waiting = \<lparr>s_db = demo_events demo_waiting_row, s_clock = 0, s_claims = [demo_claim],
     s_parked = (\<lambda>_. 0)\<rparr>"

lemma demo_waiting_reachable: "reachable demo_pg demo_waiting"
proof -
  let ?s = "demo_sys demo_leased_row [demo_claim] 0"
  let ?t = "?s\<lparr>s_db := demo_events demo_leased_row\<rparr>"
  have em: "emitEvent demo_pg 0 ''k'' JNull 0 ''c'' (demo_db demo_leased_row)
      = Inr ((0, 0), demo_events demo_leased_row)"
    by (simp add: emitEvent_def demo_pg_def text_ok_letter demo_db_def demo_leased_row_def demo_row_def
        waits_on_def update_where_def record_outcomes_def notify_queues_def demo_events_def demo_event_def
        interval_ms_def)
  have "sys_step demo_pg ?s ?t"
    by (rule sys_step.emit [where now = 0]) (use em in \<open>simp_all add: demo_sys_def\<close>)
  then have t: "reachable demo_pg ?t" by (rule reachable.step [OF demo_leased])
  have lt: "latestEvent 0 ''k'' (demo_events demo_leased_row) = Inr None"
    by (simp add: latestEvent_def text_ok_letter demo_events_def demo_db_def demo_event_def select_limit_def)
  have pk: "parkWait 0 0 ''r1'' ''t1'' 0 ''k'' 1000 (demo_events demo_leased_row)
      = Inr (1, demo_events demo_waiting_row)"
    by (simp add: parkWait_def text_ok_letter fenced_update_def demo_events_def demo_db_def demo_leased_row_def
        demo_row_def demo_waiting_row_def fence_def count_where_def update_where_def interval_ms_def)
  have "sys_step demo_pg ?t (?t\<lparr>s_db := demo_events demo_waiting_row, s_parked :=
      (if (1::nat) = 0 then s_parked ?t else (s_parked ?t)(ac_id demo_claim := 0))\<rparr>)"
    by (rule sys_step.park_wait [where now = 0 and index = 0 and key = "''k''" and ms = 1000])
       (use lt pk in \<open>simp_all add: demo_sys_def demo_claim_simps\<close>)
  from reachable.step [OF t this] show ?thesis
    by (simp add: demo_sys_def demo_waiting_def fun_upd_def)
qed

section \<open>The guarantees\<close>

text \<open>C1: However engines and workers interleave, the stored state is consistent: run
  identifiers, lease tokens and (workflow, idempotency key) pairs are unique; a run is
  leased exactly when it has a token and a lease end, waits exactly when it has a key and
  a deadline, and has an output only when completed; attempts and lease failures stay
  within the run's limit and the run is failed exactly when one of them reached it;
  checkpoints are unique per (run, position) and belong to a run.\<close>

theorem reachable_consistent:
  assumes "reachable pg s"
  shows "db_ok (s_db s)"
  using reachable_sys_ok [OF assms] by (simp add: sys_ok_def)

theorem reachable_consistent_witness:
  "db_ok (s_db (demo_sys demo_leased_row [demo_claim] 0))"
  by (rule reachable_consistent [OF demo_leased])



text \<open>C12: A checkpoint, once stored, is never lost and never rewritten, whatever statements
  follow and whoever issues them.\<close>

theorem checkpoints_write_once:
  assumes "reachable pg s" "(sys_step pg)\<^sup>*\<^sup>* s t"
    and "checkpoint_of (checkpoints (s_db s)) i k = Some v"
  shows "checkpoint_of (checkpoints (s_db t)) i k = Some v"
  using history.steps_rel [OF assms(2) reachable_sys_ok [OF assms(1)]] assms(3)
  by (simp add: tables_related_def)

theorem checkpoints_write_once_witness:
  "checkpoint_of (checkpoints (s_db (demo_committed 7))) ''r1'' 0 = Some (JBool True)"
  using checkpoints_write_once [OF demo_commit_reachable demo_commit_later, of "''r1''" 0 "JBool True"]
  by (simp add: demo_committed_def demo_db_def checkpoint_of_def)

text \<open>C8: At most one claim can write to a run: two claims that pass the ownership fence
  of the same run at the same time are the same claim.\<close>

theorem one_owner_per_run:
  assumes "reachable pg s" "a \<in> set (s_claims s)" "b \<in> set (s_claims s)"
    and "r \<in> set (runs (s_db s))" "q \<in> set (runs (s_db s))"
    and "fence i (ac_token a) (s_clock s) r" "fence i (ac_token b) (s_clock s) q"
  shows "a = b"
proof -
  have ok: "sys_ok s" using assms(1) by (rule reachable_sys_ok)
  have "r = q"
    using assms(4-7) ok by (metis db_okD(1) fence_def option.inject row_with_distinct sys_ok_def)
  then have "ac_token a = ac_token b" using assms(6,7) by (simp add: fence_def)
  then show ?thesis
    using ok assms(2,3) by (metis distinct_map inj_onD leases_ok_def sys_ok_def)
qed

theorem one_owner_per_run_witness:
  "fence ''r1'' (ac_token demo_claim) 0 demo_leased_row \<and> demo_claim = demo_claim"
  using one_owner_per_run [OF demo_leased, of demo_claim demo_claim demo_leased_row demo_leased_row "''r1''"]
  by (simp add: demo_sys_def demo_db_def demo_leased_row_def demo_row_def fence_def demo_claim_def
      claim_result_def)

text \<open>C7: A lost lease is lost for good.  Once no run carries a live lease of a token that
  was handed out (it expired, was recovered, was given up, or the run was cancelled), no
  later sequence of statements by any engines or workers, renewals included, makes the
  token pass the ownership fence of any run again.\<close>

theorem lost_lease_never_revived:
  assumes "reachable pg s" "a \<in> set (s_claims s)"
    and "\<forall>r \<in> set (runs (s_db s)). \<not> fence (ac_id a) (ac_token a) (s_clock s) r"
    and "(sys_step pg)\<^sup>*\<^sup>* s t" "r \<in> set (runs (s_db t))"
  shows "\<not> fence i (ac_token a) (s_clock t) r"
proof -
  have ok: "sys_ok s" using assms(1) by (rule reachable_sys_ok)
  have "token_dead (ac_token a) s"
    unfolding token_dead_def
  proof (intro conjI ballI impI)
    show "ac_token a \<in> set (map ac_token (s_claims s))" using assms(2) by simp
    fix r
    assume r: "r \<in> set (runs (s_db s))" and tok: "lease_token r = Some (ac_token a)"
    then have "claim_matches a r"
      using claim_of_token [OF ok assms(2) r tok] by blast
    moreover have "row_ok r" using ok r by (auto simp: sys_ok_def db_ok_def dest: runs_okD(2))
    ultimately show "\<forall>u. lease_until r = Some u \<longrightarrow> u \<le> s_clock s"
      using assms(3) r by (auto simp: claim_matches_def fence_def row_ok_def split: option.splits)
  qed
  with assms(4) have "token_dead (ac_token a) t" by (rule dead_token.steps_inv)
  then show ?thesis using assms(5) by (rule token_dead_fence)
qed

theorem lost_lease_never_revived_witness:
  "\<not> fence ''r1'' ''t1'' 40000000 demo_leased_row"
  using lost_lease_never_revived [OF demo_expired, of demo_claim "demo_sys demo_leased_row [demo_claim] 40000000"
      demo_leased_row "''r1''"] demo_tick [of 30000000 40000000 demo_leased_row "[demo_claim]"]
  by (simp add: r_into_rtranclp demo_sys_def demo_db_def demo_leased_row_def demo_row_def fence_def
      demo_claim_def claim_result_def)

text \<open>C14: The position of a run and its attempt count never decrease, in any history: no
  statement, no stale worker and no recovery moves a run back over a step it passed.\<close>

theorem cursor_never_moves_back:
  assumes "reachable pg s" "(sys_step pg)\<^sup>*\<^sup>* s t" "run_of (s_db s) i = Some r"
  shows "\<exists>r'. run_of (s_db t) i = Some r' \<and> step_index r \<le> step_index r' \<and> attempt r \<le> attempt r'"
  using progress.steps_rel [OF assms(2) reachable_sys_ok [OF assms(1)]] assms(3)
  by (auto simp: runs_forward_def row_forward_def)

theorem cursor_never_moves_back_witness:
  "\<exists>r'. run_of (s_db (demo_sys demo_leased_row [demo_claim] 0)) ''r1'' = Some r'
     \<and> 0 \<le> step_index r' \<and> 0 \<le> attempt r'"
  using cursor_never_moves_back [OF demo_enqueued demo_claim_steps, of "''r1''" demo_row]
  by (simp add: demo_sys_def demo_db_def demo_row_def)

text \<open>C13: No event is missed.  While a run waits for a key, every event of that key in the
  log either was emitted at or after the run's deadline or had already expired when the run
  parked: an event that was there to be found, or that came in time, has woken the run.\<close>

theorem no_event_missed:
  assumes "reachable pg s" "r \<in> set (runs (s_db s))" "e \<in> set (events (s_db s))"
    and "state r = RunWaitingEvent" "waiting_event_key r = Some (ev_key e)" "waiting_deadline r = Some t"
  shows "t \<le> ev_created_at e \<or> ev_expires_at e \<le> s_parked s (rid r)"
  using reachable_sys_ok [OF assms(1)] assms(2-) unfolding sys_ok_def no_missed_event_def by blast

theorem no_event_missed_witness:
  "demo_event \<in> set (events (s_db demo_waiting))
   \<and> (1000000 \<le> ev_created_at demo_event \<or> ev_expires_at demo_event \<le> s_parked demo_waiting ''r1'')"
  using no_event_missed [OF demo_waiting_reachable, of demo_waiting_row demo_event 1000000]
  by (simp add: demo_waiting_def demo_events_def demo_db_def demo_waiting_row_def demo_row_def demo_event_def)

text \<open>C17: A write of a claim that does not own its run (any of step commit, completion, sleep,
  wait and failure) changes nothing and reports that no row was affected; the worker turns
  that into a lost lease.\<close>

theorem stale_writes_have_no_effect:
  assumes "\<forall>r \<in> set (runs d). \<not> fence i token clk r"
    and "jsonb_in pg v = Some w" "text_ok key" "text_ok msg" "int4_ok att"
  shows "commitStep pg now clk i token index v complete d = Inr (None, d)
    \<and> completeRun pg now clk i token index (Some v) d = Inr (0, d)
    \<and> parkSleep now clk i token index ms d = Inr (0, d)
    \<and> parkWait now clk i token index key ms d = Inr (0, d)
    \<and> failOrRetry_stmt now clk i token att ms msg d = Inr (0, d)"
proof -
  have "fenced_update i token clk f d = Inr (0, d)" for f
    using assms(1) count_where_zero [of "fence i token clk" "runs d"]
    by (simp add: fenced_update_def update_where_count_zero)
  moreover have "\<not> list_ex (owned i token index clk) (runs d)"
    using assms(1) by (auto simp: list_ex_iff owned_def)
  ultimately show ?thesis
    using assms by (simp add: commitStep_def completeRun_def parkSleep_def parkWait_def failOrRetry_stmt_def)
qed

theorem stale_writes_have_no_effect_witness:
  "commitStep demo_pg 0 40000000 ''r1'' ''t1'' 0 JNull True (demo_db demo_leased_row)
     = Inr (None, demo_db demo_leased_row)"
  using stale_writes_have_no_effect [of "demo_db demo_leased_row" "''r1''" "''t1''" 40000000 demo_pg JNull JNull
      "''k''" "''w''" 1 0 0 True 0]
  by (simp add: demo_db_def demo_leased_row_def demo_row_def fence_def demo_pg_def text_ok_letter int4_ok_def)

end
