(* ===== verification/Lease_Table.thy ===== *)
theory Lease_Table
  imports Engine_Api Run_System
begin

text \<open>
  The model of \<open>leases.go\<close> and of the heartbeat in \<open>worker.go\<close>: the table of the claims a
  worker holds, with the deadline until which each lease is confirmed and whether its
  context is cancelled, and the loop that renews them.  The table is a map from tokens, and
  the order in which Go iterates over it is an argument.  The lemmas characterise the four
  operations independently of that order and show what the local deadlines mean for the
  database: they never outlive the stored lease, so maintenance cannot take a run from a
  claim that is still live, provided the lease time is a whole number of milliseconds.
\<close>

section \<open>The table\<close>

record leaseEntry =
  le_runID :: string
  le_deadline :: gotime
  le_cancelled :: bool \<comment> \<open>\<open>ctx.Err() != nil\<close>\<close>

type_synonym leaseTable = "string \<rightharpoonup> leaseEntry"

definition newLeaseTable :: leaseTable where
  "newLeaseTable = Map.empty"

text \<open>The context of a claim is derived from \<open>parent\<close>, so it starts cancelled if that is.\<close>

definition lt_insert :: "bool \<Rightarrow> string \<Rightarrow> string \<Rightarrow> gotime \<Rightarrow> leaseTable \<Rightarrow> leaseTable" where
  "lt_insert parent_cancelled runID token deadline t =
     t(token \<mapsto> \<lparr>le_runID = runID, le_deadline = deadline, le_cancelled = parent_cancelled\<rparr>)"

definition lt_release :: "string \<Rightarrow> leaseTable \<Rightarrow> leaseTable" where
  "lt_release token t = t(token := None)"

definition cancel_entry :: "leaseEntry \<Rightarrow> leaseEntry" where
  "cancel_entry e = e\<lparr>le_cancelled := True\<rparr>"

fun snapshot_loop :: "leaseTable \<Rightarrow> string list \<Rightarrow> string list \<Rightarrow> string list \<Rightarrow> string list \<times> string list" where
  "snapshot_loop t [] runIDs tokens = (runIDs, tokens)"
| "snapshot_loop t (token # order) runIDs tokens =
     (case t token of
        None \<Rightarrow> snapshot_loop t order runIDs tokens
      | Some entry \<Rightarrow>
          if \<not> le_cancelled entry
          then snapshot_loop t order (runIDs @ [le_runID entry]) (tokens @ [token])
          else snapshot_loop t order runIDs tokens)"

definition snapshot :: "string list \<Rightarrow> leaseTable \<Rightarrow> string list \<times> string list" where
  "snapshot order t = snapshot_loop t order [] []"

fun applyRenewal :: "string list \<Rightarrow> string set \<Rightarrow> gotime \<Rightarrow> leaseTable \<Rightarrow> leaseTable" where
  "applyRenewal [] renewed deadline t = t"
| "applyRenewal (token # sent) renewed deadline t =
     applyRenewal sent renewed deadline
       (case t token of
          None \<Rightarrow> t
        | Some entry \<Rightarrow>
            if token \<in> renewed then t(token \<mapsto> entry\<lparr>le_deadline := deadline\<rparr>)
            else t(token \<mapsto> cancel_entry entry))"

fun expire_loop :: "gotime \<Rightarrow> string list \<Rightarrow> gotime option \<Rightarrow> leaseTable \<Rightarrow> gotime option \<times> leaseTable" where
  "expire_loop now [] earliest t = (earliest, t)"
| "expire_loop now (token # order) earliest t =
     (case t token of
        None \<Rightarrow> expire_loop now order earliest t
      | Some entry \<Rightarrow>
          if le_cancelled entry then expire_loop now order earliest t
          else if le_deadline entry \<le> now
          then expire_loop now order earliest (t(token \<mapsto> cancel_entry entry))
          else if (case earliest of None \<Rightarrow> True | Some m \<Rightarrow> le_deadline entry < m)
          then expire_loop now order (Some (le_deadline entry)) t
          else expire_loop now order earliest t)"

definition expire :: "string list \<Rightarrow> gotime \<Rightarrow> leaseTable \<Rightarrow> gotime option \<times> leaseTable" where
  "expire order now t = expire_loop now order None t"

section \<open>The heartbeat\<close>

record heartbeat =
  hb_next :: gotime \<comment> \<open>\<open>nextRenewal\<close>\<close>
  hb_table :: leaseTable

text \<open>The top of the loop: expired claims are cancelled and the time to wake is computed.\<close>

definition heartbeat_wake :: "string list \<Rightarrow> gotime \<Rightarrow> heartbeat \<Rightarrow> gotime \<times> heartbeat" where
  "heartbeat_wake order now hb =
     (let (earliest, t) = expire order now (hb_table hb);
          wakeAt = (case earliest of Some m \<Rightarrow> if m < hb_next hb then m else hb_next hb | None \<Rightarrow> hb_next hb)
      in (wakeAt, hb\<lparr>hb_table := t\<rparr>))"

text \<open>
  After the timer: before the renewal time the loop starts over; otherwise it cancels
  expired claims and, if claims are left, asks for their renewal.  The result is the bound
  of the request, its two arrays, and the new state.
\<close>

definition heartbeat_request ::
    "Engine \<Rightarrow> string list \<Rightarrow> string list \<Rightarrow> gotime \<Rightarrow> heartbeat
     \<Rightarrow> (gotime \<times> string list \<times> string list) option \<times> heartbeat" where
  "heartbeat_request e order order' now hb =
     (if now < hb_next hb then (None, hb)
      else
        (let (earliest, t) = expire order now (hb_table hb);
             (runIDs, tokens) = snapshot order' t;
             hb' = \<lparr>hb_next = now + e_heartbeatEvery e, hb_table = t\<rparr>
         in if tokens = [] then (None, hb')
            else (Some (case earliest of Some m \<Rightarrow> m | None \<Rightarrow> now + e_leaseTTL e, runIDs, tokens), hb')))"

text \<open>The worker's \<open>renewLeases\<close>: the set of returned tokens.\<close>

definition renewLeases_op ::
    "fault \<Rightarrow> timestamptz \<Rightarrow> timestamptz \<Rightarrow> Engine \<Rightarrow> string list \<Rightarrow> string list \<Rightarrow> db
     \<Rightarrow> (pg_error + string set) \<times> db" where
  "renewLeases_op f now clk e runIDs tokens d =
     (case exec f (renewLeases now clk runIDs tokens (milliseconds (e_leaseTTL e))) d of
        (Inl err, d') \<Rightarrow> (Inl err, d')
      | (Inr renewed, d') \<Rightarrow> (Inr (set renewed), d'))"

text \<open>The answer is applied to the table as it is by then; an error leaves it alone.\<close>

definition heartbeat_apply ::
    "Engine \<Rightarrow> gotime \<Rightarrow> string list \<Rightarrow> pg_error + string set \<Rightarrow> leaseTable \<Rightarrow> leaseTable" where
  "heartbeat_apply e now tokens answer t =
     (case answer of
        Inl err \<Rightarrow> t
      | Inr renewed \<Rightarrow> applyRenewal tokens renewed (now + e_leaseTTL e) t)"

section \<open>The operations, independently of the iteration order\<close>

definition live :: "leaseEntry \<Rightarrow> bool" where
  "live e \<longleftrightarrow> \<not> le_cancelled e"

definition expire_entry :: "gotime \<Rightarrow> leaseEntry \<Rightarrow> leaseEntry" where
  "expire_entry now e = (if le_deadline e \<le> now then cancel_entry e else e)"

definition pending :: "gotime \<Rightarrow> leaseTable \<Rightarrow> string list \<Rightarrow> gotime set" where
  "pending now t order =
     {le_deadline e | token e. token \<in> set order \<and> t token = Some e \<and> live e \<and> now < le_deadline e}"

lemma expire_entry_cancelled [simp]: "le_cancelled e \<Longrightarrow> expire_entry now e = e"
  by (simp add: expire_entry_def cancel_entry_def)

lemma expire_entry_live [simp]:
  "le_deadline e \<le> now \<Longrightarrow> expire_entry now e = cancel_entry e"
  "now < le_deadline e \<Longrightarrow> expire_entry now e = e"
  by (simp_all add: expire_entry_def)

lemma applyRenewal_lookup:
  "applyRenewal sent renewed deadline t k =
     (if k \<in> set sent
      then map_option (\<lambda>e. if k \<in> renewed then e\<lparr>le_deadline := deadline\<rparr> else cancel_entry e) (t k)
      else t k)"
  by (induction sent arbitrary: t) (auto simp: cancel_entry_def split: option.splits)

lemma snapshot_loop_eq:
  "snapshot_loop t order runIDs tokens =
     (runIDs @ map (\<lambda>k. le_runID (the (t k))) (filter (\<lambda>k. case t k of Some e \<Rightarrow> live e | None \<Rightarrow> False) order),
      tokens @ filter (\<lambda>k. case t k of Some e \<Rightarrow> live e | None \<Rightarrow> False) order)"
  by (induction order arbitrary: runIDs tokens) (auto simp: live_def split: option.splits)

lemma snapshot_eq:
  "snapshot order t =
     (let tokens = filter (\<lambda>k. case t k of Some e \<Rightarrow> live e | None \<Rightarrow> False) order
      in (map (\<lambda>k. le_runID (the (t k))) tokens, tokens))"
  by (simp add: snapshot_def snapshot_loop_eq Let_def)

lemma expire_loop_table:
  "distinct order \<Longrightarrow> snd (expire_loop now order m t) k =
     (if k \<in> set order then map_option (expire_entry now) (t k) else t k)"
proof (induction order arbitrary: m t)
  case (Cons token order)
  then show ?case
    by (cases "t token") (auto split: option.splits)
qed simp

definition least :: "gotime set \<Rightarrow> gotime option" where
  "least S = (if S = {} then None else Some (Min S))"

lemma least_insert: "finite S \<Longrightarrow> least (insert x S) = (case least S of None \<Rightarrow> Some x | Some m \<Rightarrow> Some (min x m))"
  by (auto simp: least_def)

lemma pending_Cons:
  "pending now t (k # ks) =
     (case t k of
        Some e \<Rightarrow> if live e \<and> now < le_deadline e then insert (le_deadline e) (pending now t ks) else pending now t ks
      | None \<Rightarrow> pending now t ks)"
  by (auto simp: pending_def split: option.splits)

lemma pending_finite [simp]: "finite (pending now t ks)"
  by (rule finite_subset [of _ "(\<lambda>k. le_deadline (the (t k))) ` set ks"]) (force simp: pending_def)+

lemma pending_upd [simp]: "k \<notin> set ks \<Longrightarrow> pending now (t(k := x)) ks = pending now t ks"
  by (auto simp: pending_def split: if_splits)

lemma expire_loop_earliest:
  assumes "distinct order"
  shows "fst (expire_loop now order m t) = least (set_option m \<union> pending now t order)"
  using assms
proof (induction order arbitrary: m t)
  case Nil
  then show ?case by (cases m) (auto simp: pending_def least_def)
next
  case (Cons token order)
  show ?case
  proof (cases "t token")
    case None
    with Cons show ?thesis by (simp add: pending_Cons)
  next
    case (Some e)
    have up: "set_option (if (case m of None \<Rightarrow> True | Some x \<Rightarrow> le_deadline e < x) then Some (le_deadline e) else m)
        = (case m of None \<Rightarrow> {le_deadline e} | Some x \<Rightarrow> {min (le_deadline e) x})"
      by (auto split: option.splits)
    have "least (set_option (if (case m of None \<Rightarrow> True | Some x \<Rightarrow> le_deadline e < x) then Some (le_deadline e) else m)
        \<union> pending now t order) = least (set_option m \<union> insert (le_deadline e) (pending now t order))"
      unfolding up by (cases m) (simp_all add: least_insert split: option.splits, auto simp: min_def)
    then show ?thesis
      using Cons Some by (auto simp: pending_Cons live_def split: if_splits)
  qed
qed

text \<open>C34: \<open>expire\<close> cancels exactly the claims whose confirmed deadline has passed and returns
  the earliest deadline of those still running, none if there is none, in every iteration
  order: afterwards each running claim has a deadline in the future and no earlier than the
  returned one.\<close>

theorem expire_exact:
  assumes "map_order t order"
  shows "snd (expire order now t) k = map_option (expire_entry now) (t k)
    \<and> fst (expire order now t) = least {le_deadline e | token e. t token = Some e \<and> live e \<and> now < le_deadline e}
    \<and> (\<forall>e m. snd (expire order now t) k = Some e \<longrightarrow> live e \<longrightarrow> now < le_deadline e
         \<and> (fst (expire order now t) = Some m \<longrightarrow> m \<le> le_deadline e))"
proof -
  have table: "snd (expire order now t) j = map_option (expire_entry now) (t j)" for j
    using assms expire_loop_table [of order now None t j]
    by (cases "t j") (auto simp: expire_def map_order_def)
  have pend: "pending now t order = {le_deadline e | token e. t token = Some e \<and> live e \<and> now < le_deadline e}"
    using assms by (auto simp: pending_def map_order_def)
  have first: "fst (expire order now t) = least (pending now t order)"
    using assms expire_loop_earliest [of order now None t] by (simp add: expire_def map_order_def)
  have "now < le_deadline e \<and> (fst (expire order now t) = Some m \<longrightarrow> m \<le> le_deadline e)"
    if found: "snd (expire order now t) k = Some e" and "live e" for e m
  proof -
    obtain e0 where e0: "t k = Some e0" "e = expire_entry now e0" using found unfolding table by auto
    then have "now < le_deadline e0" "e = e0" "live e0"
      using that(2) by (auto simp: expire_entry_def live_def cancel_entry_def split: if_splits)
    then have "le_deadline e \<in> pending now t order" using e0(1) by (auto simp: pend)
    with \<open>now < le_deadline e0\<close> \<open>e = e0\<close> show ?thesis
      unfolding first least_def by (auto intro: Min_le split: if_splits)
  qed
  then show ?thesis using table [of k] first unfolding pend by blast
qed

definition demo_table :: leaseTable where
  "demo_table = [''a'' \<mapsto> \<lparr>le_runID = ''r1'', le_deadline = 5, le_cancelled = False\<rparr>,
                 ''b'' \<mapsto> \<lparr>le_runID = ''r2'', le_deadline = 9, le_cancelled = False\<rparr>]"

theorem expire_exact_witness:
  "snd (expire [''b'', ''a''] 5 demo_table) ''a'' = Some \<lparr>le_runID = ''r1'', le_deadline = 5, le_cancelled = True\<rparr>
   \<and> fst (expire [''b'', ''a''] 5 demo_table) = Some 9"
proof -
  have "map_order demo_table [''b'', ''a'']" by (auto simp: map_order_def demo_table_def split: if_splits)
  from expire_exact [OF this, of 5 "''a''"] show ?thesis
    by (auto simp: expire_def demo_table_def expire_entry_def cancel_entry_def)
qed

section \<open>A heartbeat and the database\<close>

lemma renewable_iff:
  "renewable (zip ids tokens) clk r \<longleftrightarrow> (\<exists>i token. (i, token) \<in> set (zip ids tokens) \<and> fence i token clk r)"
  by (auto simp: renewable_def list_ex_iff)

lemma renewed_tokens:
  assumes "renewLeases now clk ids tokens ttl d = Inr (ts, d')"
  shows "token \<in> set ts \<longleftrightarrow>
    (\<exists>r \<in> set (runs d). lease_token r = Some token \<and> (\<exists>i. (i, token) \<in> set (zip ids tokens) \<and> fence i token clk r))"
proof -
  have ts: "ts = List.map_filter lease_token (filter (renewable (zip ids tokens) clk) (runs d))"
    using assms by (simp add: renewLeases_def)
  have "token \<in> set ts \<longleftrightarrow> (\<exists>r \<in> set (runs d). renewable (zip ids tokens) clk r \<and> lease_token r = Some token)"
    unfolding ts by (force simp: map_filter_def image_iff)
  also have "\<dots> \<longleftrightarrow> (\<exists>r \<in> set (runs d). lease_token r = Some token \<and>
      (\<exists>i. (i, token) \<in> set (zip ids tokens) \<and> fence i token clk r))"
    unfolding renewable_iff by (fastforce simp: fence_def)
  finally show ?thesis .
qed

lemma in_zip_map: "(i, k) \<in> set (zip (map f xs) xs) \<longleftrightarrow> k \<in> set xs \<and> i = f k"
  by (induction xs) auto

lemma zip_snapshot:
  assumes "snapshot order t = (ids, tokens)"
  shows "(i, k) \<in> set (zip ids tokens) \<longleftrightarrow> k \<in> set order \<and> (\<exists>e. t k = Some e \<and> live e \<and> le_runID e = i)"
proof -
  let ?xs = "filter (\<lambda>k. case t k of Some e \<Rightarrow> live e | None \<Rightarrow> False) order"
  have "tokens = ?xs" "ids = map (\<lambda>k. le_runID (the (t k))) ?xs"
    using assms by (auto simp: snapshot_eq Let_def)
  then show ?thesis unfolding \<open>ids = _\<close> \<open>tokens = _\<close> in_zip_map by (cases "t k") auto
qed

text \<open>C35: A heartbeat tells apart the claims that still own their runs.  When the renewal of
  all running claims succeeds, a claim that passes the fence of its run keeps running, with
  its deadline moved to one lease time after the request; any other running claim is
  cancelled; and a claim that was cancelled before stays cancelled.\<close>

theorem heartbeat_renews:
  assumes "map_order t order" "t k = Some e" "snapshot order t = (ids, tokens)"
    and "renewLeases_op NoFault now clk eng ids tokens d = (Inr renewed, d')"
  shows "heartbeat_apply eng local tokens (Inr renewed) t k = Some
    (if le_cancelled e then e
     else if \<exists>r \<in> set (runs d). fence (le_runID e) k clk r
     then e\<lparr>le_deadline := local + e_leaseTTL eng\<rparr>
     else e\<lparr>le_cancelled := True\<rparr>)"
proof -
  obtain ts where ts: "renewLeases now clk ids tokens (milliseconds (e_leaseTTL eng)) d = Inr (ts, d')"
    "renewed = set ts"
    using assms(4) by (auto simp: renewLeases_op_def exec_def split: sum.splits prod.splits)
  have k: "k \<in> set order" using assms(1,2) by (auto simp: map_order_def)
  have sent: "k \<in> set tokens \<longleftrightarrow> live e"
    using assms(2,3) k by (auto simp: snapshot_eq Let_def)
  have "k \<in> renewed \<longleftrightarrow> (\<exists>r \<in> set (runs d). fence (le_runID e) k clk r)" if "live e"
    unfolding ts(2) renewed_tokens [OF ts(1)] zip_snapshot [OF assms(3)]
    using that assms(2) k by (auto simp: fence_def)
  then show ?thesis
    using assms(2) sent by (auto simp: heartbeat_apply_def applyRenewal_lookup cancel_entry_def live_def)
qed

section \<open>The worker's deadlines and the stored leases\<close>

text \<open>
  A worker beside the rest of the system.  Between a statement and the update of the table
  with its result other things happen, so claims that were returned but not yet inserted,
  and the answer to a renewal that was not yet applied, are part of the state.
\<close>

record worker =
  w_table :: leaseTable
  w_claimed :: "(claim_row \<times> gotime) list" \<comment> \<open>with the deadline \<open>started + leaseTTL\<close>\<close>
  w_answer :: "(gotime \<times> string list \<times> string set) option" \<comment> \<open>request time, tokens sent, tokens renewed\<close>

definition new_worker :: worker where
  "new_worker = \<lparr>w_table = newLeaseTable, w_claimed = [], w_answer = None\<rparr>"

text \<open>Other statements never shorten the lease of a token the worker holds.\<close>

definition leases_kept :: "string set \<Rightarrow> db \<Rightarrow> db \<Rightarrow> bool" where
  "leases_kept T d d' \<longleftrightarrow>
     (\<forall>r' \<in> set (runs d'). \<forall>token \<in> T. lease_token r' = Some token \<longrightarrow>
        (\<exists>r \<in> set (runs d). lease_token r = Some token \<and>
           (\<forall>u. lease_until r = Some u \<longrightarrow> (\<exists>u'. lease_until r' = Some u' \<and> u \<le> u'))))"

text \<open>The tokens with a time until which the worker takes their lease to be confirmed.\<close>

definition confirmed :: "Engine \<Rightarrow> worker \<Rightarrow> (string \<times> gotime) set" where
  "confirmed eng w =
     {(token, le_deadline e) | token e. w_table w token = Some e}
   \<union> {(cl_token c, deadline) | c deadline. (c, deadline) \<in> set (w_claimed w)}
   \<union> {(token, local + e_leaseTTL eng) | token local. \<exists>sent renewed. w_answer w = Some (local, sent, renewed) \<and> token \<in> renewed}"

text \<open>
  The steps.  A claim reads the local clock before its statement and a renewal before its
  request; the clocks agree, so these readings are not later than the time of the statement.
\<close>

inductive lease_step :: "pg \<Rightarrow> Engine \<Rightarrow> sys \<times> worker \<Rightarrow> sys \<times> worker \<Rightarrow> bool" for pg eng where
  others: "\<lbrakk>sys_step pg s s'; leases_kept (fst ` confirmed eng w) (s_db s) (s_db s')\<rbrakk>
     \<Longrightarrow> lease_step pg eng (s, w) (s', w)"
| claim: "\<lbrakk>now \<le> s_clock s; started \<le> s_clock s * 1000;
     claim pred gen locked now (s_clock s) q limit (milliseconds (e_leaseTTL eng)) (s_db s) = Inr (cs, d');
     fresh_tokens gen (map cl_id cs) (map ac_token (s_claims s))\<rbrakk>
     \<Longrightarrow> lease_step pg eng (s, w)
           (s\<lparr>s_db := d', s_claims := s_claims s @ new_claims cs\<rparr>,
            w\<lparr>w_claimed := w_claimed w @ map (\<lambda>c. (c, started + e_leaseTTL eng)) cs\<rparr>)"
| insert: "w_claimed w = (c, deadline) # rest
     \<Longrightarrow> lease_step pg eng (s, w)
           (s, w\<lparr>w_claimed := rest, w_table := lt_insert stopped (cl_id c) (cl_token c) deadline (w_table w)\<rparr>)"
| renew: "\<lbrakk>now \<le> s_clock s; local \<le> s_clock s * 1000; snapshot order (w_table w) = (ids, tokens);
     w_answer w = None;
     renewLeases_op NoFault now (s_clock s) eng ids tokens (s_db s) = (Inr renewed, d')\<rbrakk>
     \<Longrightarrow> lease_step pg eng (s, w) (s\<lparr>s_db := d'\<rparr>, w\<lparr>w_answer := Some (local, tokens, renewed)\<rparr>)"
| answered: "w_answer w = Some (local, tokens, renewed)
     \<Longrightarrow> lease_step pg eng (s, w)
           (s, w\<lparr>w_answer := None, w_table := heartbeat_apply eng local tokens (Inr renewed) (w_table w)\<rparr>)"
| expire: "\<lbrakk>map_order (w_table w) order; expire order local (w_table w) = (earliest, t')\<rbrakk>
     \<Longrightarrow> lease_step pg eng (s, w) (s, w\<lparr>w_table := t'\<rparr>)"
| release: "lease_step pg eng (s, w) (s, w\<lparr>w_table := lt_release token (w_table w)\<rparr>)"

text \<open>
  The stored lease of a token reaches at least as far as any time confirmed for it, and no
  such time is further away than one lease.  A timestamp of the database counts
  microseconds, a local time nanoseconds.
\<close>

definition covered :: "Engine \<Rightarrow> sys \<Rightarrow> (string \<times> gotime) set \<Rightarrow> bool" where
  "covered eng s C \<longleftrightarrow>
     (\<forall>(token, deadline) \<in> C.
        token \<in> set (map ac_token (s_claims s)) \<and> deadline \<le> s_clock s * 1000 + e_leaseTTL eng
      \<and> (\<forall>r \<in> set (runs (s_db s)). lease_token r = Some token \<longrightarrow>
           (\<exists>u. lease_until r = Some u \<and> deadline \<le> u * 1000)))"

definition whole_ms :: "duration \<Rightarrow> bool" where
  "whole_ms ttl \<longleftrightarrow> milliseconds ttl * Millisecond = ttl"

lemma whole_ms_interval: "whole_ms ttl \<Longrightarrow> (c + interval_ms (milliseconds ttl)) * 1000 = c * 1000 + ttl"
  by (simp add: whole_ms_def interval_ms_def Millisecond_def algebra_simps)

lemma coveredI:
  assumes "\<And>token dl. (token, dl) \<in> C \<Longrightarrow> token \<in> set (map ac_token (s_claims s))"
    and "\<And>token dl. (token, dl) \<in> C \<Longrightarrow> dl \<le> s_clock s * 1000 + e_leaseTTL eng"
    and "\<And>token dl r. (token, dl) \<in> C \<Longrightarrow> r \<in> set (runs (s_db s)) \<Longrightarrow> lease_token r = Some token \<Longrightarrow>
      \<exists>u. lease_until r = Some u \<and> dl \<le> u * 1000"
  shows "covered eng s C"
  using assms unfolding covered_def by blast

lemma coveredD:
  assumes "covered eng s C" "(token, dl) \<in> C"
  shows "token \<in> set (map ac_token (s_claims s))" and "dl \<le> s_clock s * 1000 + e_leaseTTL eng"
    and "r \<in> set (runs (s_db s)) \<Longrightarrow> lease_token r = Some token \<Longrightarrow> \<exists>u. lease_until r = Some u \<and> dl \<le> u * 1000"
  using assms unfolding covered_def by blast+

lemma covered_mono: "covered eng s C \<Longrightarrow> D \<subseteq> C \<Longrightarrow> covered eng s D"
  unfolding covered_def by blast

lemma covered_Un: "covered eng s (C \<union> D) \<longleftrightarrow> covered eng s C \<and> covered eng s D"
  unfolding covered_def by blast

lemma sys_step_claims: "sys_step pg s s' \<Longrightarrow> set (map ac_token (s_claims s)) \<subseteq> set (map ac_token (s_claims s'))"
proof (induction rule: sys_step.induct)
  case (commit now s a index v complete res d')
  then show ?case by (cases "res = None") (simp_all del: set_map)
qed auto

lemma sys_step_clock: "sys_step pg s s' \<Longrightarrow> s_clock s \<le> s_clock s'"
  by (induction rule: sys_step.induct) auto

lemma covered_others:
  assumes "covered eng s C" "sys_step pg s s'" "leases_kept (fst ` C) (s_db s) (s_db s')"
  shows "covered eng s' C"
proof (rule coveredI)
  fix token dl
  assume e: "(token, dl) \<in> C"
  note c = coveredD [OF assms(1) e]
  show "token \<in> set (map ac_token (s_claims s'))" using c(1) sys_step_claims [OF assms(2)] by blast
  show "dl \<le> s_clock s' * 1000 + e_leaseTTL eng" using c(2) sys_step_clock [OF assms(2)] by simp
  fix r'
  assume r': "r' \<in> set (runs (s_db s'))" "lease_token r' = Some token"
  have "token \<in> fst ` C" using e by force
  then obtain r where r: "r \<in> set (runs (s_db s))" "lease_token r = Some token"
    "\<And>u. lease_until r = Some u \<Longrightarrow> \<exists>u'. lease_until r' = Some u' \<and> u \<le> u'"
    using assms(3) r' unfolding leases_kept_def by blast
  obtain u where u: "lease_until r = Some u" "dl \<le> u * 1000" using c(3) [OF r(1,2)] by blast
  obtain u' where "lease_until r' = Some u'" "u \<le> u'" using r(3) [OF u(1)] by blast
  then show "\<exists>u. lease_until r' = Some u \<and> dl \<le> u * 1000" using u(2) by auto
qed

text \<open>A statement that sets the leases of some rows to one lease time from now keeps what is
  covered, and covers every deadline counted from an earlier time for the tokens it sets.\<close>

lemma covered_lease_update:
  assumes ms: "whole_ms (e_leaseTTL eng)"
    and kept: "\<And>token dl r'. (token, dl) \<in> C \<Longrightarrow> r' \<in> set (runs d') \<Longrightarrow> lease_token r' = Some token \<Longrightarrow>
      lease_until r' = Some (s_clock s + interval_ms (milliseconds (e_leaseTTL eng))) \<or> covered eng s {(token, dl)} \<and> r' \<in> set (runs (s_db s))"
    and tok: "\<And>token dl. (token, dl) \<in> C \<Longrightarrow> token \<in> set (map ac_token cs)"
    and near: "\<And>token dl. (token, dl) \<in> C \<Longrightarrow> dl \<le> s_clock s * 1000 + e_leaseTTL eng"
  shows "covered eng (s\<lparr>s_db := d', s_claims := cs\<rparr>) C"
proof (rule coveredI)
  fix token dl
  assume c: "(token, dl) \<in> C"
  show "token \<in> set (map ac_token (s_claims (s\<lparr>s_db := d', s_claims := cs\<rparr>)))" using tok [OF c] by simp
  show "dl \<le> s_clock (s\<lparr>s_db := d', s_claims := cs\<rparr>) * 1000 + e_leaseTTL eng" using near [OF c] by simp
  fix r'
  assume "r' \<in> set (runs (s_db (s\<lparr>s_db := d', s_claims := cs\<rparr>)))" and t: "lease_token r' = Some token"
  then have r': "r' \<in> set (runs d')" by simp
  from kept [OF c r' t] show "\<exists>u. lease_until r' = Some u \<and> dl \<le> u * 1000"
  proof
    assume "lease_until r' = Some (s_clock s + interval_ms (milliseconds (e_leaseTTL eng)))"
    then show ?thesis using near [OF c] whole_ms_interval [OF ms] by simp
  next
    assume "covered eng s {(token, dl)} \<and> r' \<in> set (runs (s_db s))"
    then show ?thesis using t coveredD(3) by blast
  qed
qed

lemma leased_token_claimed:
  assumes "sys_ok s" "r \<in> set (runs (s_db s))" "lease_token r = Some token"
  shows "token \<in> set (map ac_token (s_claims s))"
proof -
  obtain a where "a \<in> set (s_claims s)" "claim_matches a r"
    using assms unfolding sys_ok_def leases_ok_def by (metis option.distinct(1))
  with assms(3) show ?thesis by (auto simp: claim_matches_def)
qed

lemma covered_claim:
  assumes cov: "covered eng s C" and st: "started \<le> s_clock s * 1000" and ms: "whole_ms (e_leaseTTL eng)"
    and cl: "claim pred gen locked now (s_clock s) q limit (milliseconds (e_leaseTTL eng)) (s_db s) = Inr (cs, d')"
    and fresh: "fresh_tokens gen (map cl_id cs) (map ac_token (s_claims s))"
    and ok: "sys_ok s"
  shows "covered eng (s\<lparr>s_db := d', s_claims := s_claims s @ new_claims cs\<rparr>)
    (C \<union> (\<lambda>c. (cl_token c, started + e_leaseTTL eng)) ` set cs)" (is "covered eng ?s ?C")
proof (rule covered_lease_update [OF ms])
  let ?ws = "claim_picked pred locked now q limit (s_db s)"
  let ?f = "lease_row now (s_clock s) (milliseconds (e_leaseTTL eng)) gen"
  have d': "runs d' = update_where (\<lambda>r. rid r \<in> set (map rid ?ws)) ?f (runs (s_db s))"
    and tok: "map cl_token cs = map gen (map rid ?ws)" and ids: "map cl_id cs = map rid ?ws"
    using cl by (auto simp: claim_def Let_def claim_result_def)
  have nc: "map ac_token (new_claims cs) = map cl_token cs" by (simp add: new_claims_def)
  fix token dl
  assume c: "(token, dl) \<in> ?C"
  then consider (old) "(token, dl) \<in> C" | (new) "token \<in> set (map cl_token cs)" "dl = started + e_leaseTTL eng"
    by auto
  note split = this
  show "token \<in> set (map ac_token (s_claims s @ new_claims cs))"
    using split coveredD(1) [OF cov] by cases (auto simp del: set_map simp: nc)
  show "dl \<le> s_clock s * 1000 + e_leaseTTL eng"
    using split coveredD(2) [OF cov] st by cases auto
  fix r'
  assume r': "r' \<in> set (runs d')" "lease_token r' = Some token"
  then obtain r where r: "r \<in> set (runs (s_db s))" "r' = (if rid r \<in> set (map rid ?ws) then ?f r else r)"
    by (auto simp: d' set_update_where)
  show "lease_until r' = Some (s_clock s + interval_ms (milliseconds (e_leaseTTL eng)))
      \<or> covered eng s {(token, dl)} \<and> r' \<in> set (runs (s_db s))"
  proof (cases "rid r \<in> set (map rid ?ws)")
    case True
    then show ?thesis using r(2) by (simp add: lease_row_def)
  next
    case False
    then have rr: "r' = r" using r(2) by simp
    then have "token \<in> set (map ac_token (s_claims s))" using leased_token_claimed [OF ok r(1)] r'(2) by blast
    then have "token \<notin> set (map cl_token cs)" using fresh unfolding tok ids fresh_tokens_def by auto
    then have "(token, dl) \<in> C" using split by blast
    then show ?thesis using covered_mono [OF cov, of "{(token, dl)}"] rr r(1) by simp
  qed
qed

lemma covered_renew:
  assumes cov: "covered eng s C" and loc: "local \<le> s_clock s * 1000" and ms: "whole_ms (e_leaseTTL eng)"
    and rn: "renewLeases_op NoFault now (s_clock s) eng ids tokens (s_db s) = (Inr renewed, d')"
    and ok: "sys_ok s"
  shows "covered eng (s\<lparr>s_db := d'\<rparr>) (C \<union> (\<lambda>token. (token, local + e_leaseTTL eng)) ` renewed)"
    (is "covered eng ?s ?C")
proof -
  let ?ttl = "milliseconds (e_leaseTTL eng)" and ?p = "renewable (zip ids tokens) (s_clock s)"
  obtain ts where ts: "renewLeases now (s_clock s) ids tokens ?ttl (s_db s) = Inr (ts, d')" "renewed = set ts"
    using rn by (auto simp: renewLeases_op_def exec_def split: sum.splits prod.splits)
  have d': "runs d' = update_where ?p
      (\<lambda>r. r\<lparr>lease_until := Some (s_clock s + interval_ms ?ttl), updated_at := now\<rparr>) (runs (s_db s))"
    using ts(1) by (auto simp: renewLeases_def)
  note renewed = renewed_tokens [OF ts(1), folded ts(2)]
  have "covered eng (s\<lparr>s_db := d', s_claims := s_claims s\<rparr>) ?C"
  proof (rule covered_lease_update [OF ms])
    fix token dl
    assume "(token, dl) \<in> ?C"
    then consider (old) "(token, dl) \<in> C" | (new) "token \<in> renewed" "dl = local + e_leaseTTL eng" by auto
    note split = this
    show "token \<in> set (map ac_token (s_claims s))"
      using split coveredD(1) [OF cov] renewed leased_token_claimed [OF ok] by cases blast+
    show "dl \<le> s_clock s * 1000 + e_leaseTTL eng" using split coveredD(2) [OF cov] loc by cases auto
    fix r'
    assume r': "r' \<in> set (runs d')" "lease_token r' = Some token"
    then obtain r where r: "r \<in> set (runs (s_db s))" "r' = (if ?p r
        then r\<lparr>lease_until := Some (s_clock s + interval_ms ?ttl), updated_at := now\<rparr> else r)"
      by (auto simp: d' set_update_where)
    show "lease_until r' = Some (s_clock s + interval_ms ?ttl)
        \<or> covered eng s {(token, dl)} \<and> r' \<in> set (runs (s_db s))"
    proof (cases "?p r")
      case False
      then have rr: "r' = r" using r(2) by simp
      have "token \<notin> renewed"
      proof
        assume "token \<in> renewed"
        then obtain q i where q: "q \<in> set (runs (s_db s))" "lease_token q = Some token"
          "(i, token) \<in> set (zip ids tokens)" "fence i token (s_clock s) q"
          unfolding renewed by blast
        then have "rid q = rid r"
          using ok r(1) r'(2) rr by (meson db_ok_def runs_okD(3) sys_ok_def)
        then have "q = r"
          using q(1) r(1) ok by (metis db_okD(1) option.inject row_with_distinct sys_ok_def)
        with q False show False by (auto simp: renewable_iff)
      qed
      then have "(token, dl) \<in> C" using split by blast
      then show ?thesis using covered_mono [OF cov, of "{(token, dl)}"] rr r(1) by simp
    qed (use r(2) in simp)
  qed
  then show ?thesis by simp
qed

lemma confirmed_table:
  assumes "\<And>token e'. t' token = Some e' \<Longrightarrow> (token, le_deadline e') \<in> confirmed eng w"
  shows "confirmed eng (w\<lparr>w_table := t'\<rparr>) \<subseteq> confirmed eng w"
proof -
  have "confirmed eng (w\<lparr>w_table := t'\<rparr>) \<subseteq> {(token, le_deadline e) | token e. t' token = Some e} \<union> confirmed eng w"
    by (auto simp: confirmed_def)
  then show ?thesis using assms by blast
qed

lemma confirmed_entry: "w_table w token = Some e \<Longrightarrow> (token, le_deadline e) \<in> confirmed eng w"
  by (auto simp: confirmed_def)

text \<open>The steps that only touch the worker confirm nothing new.\<close>

lemma confirmed_insert:
  assumes "w_claimed w = (c, deadline) # rest"
  shows "confirmed eng (w\<lparr>w_claimed := rest, w_table := lt_insert stopped (cl_id c) (cl_token c) deadline (w_table w)\<rparr>)
    \<subseteq> confirmed eng w"
  using assms by (auto simp: confirmed_def lt_insert_def split: if_splits)

lemma confirmed_answered:
  assumes "w_answer w = Some (local, tokens, renewed)"
  shows "confirmed eng (w\<lparr>w_answer := None, w_table := heartbeat_apply eng local tokens (Inr renewed) (w_table w)\<rparr>)
    \<subseteq> confirmed eng w" (is "confirmed eng (w\<lparr>w_answer := None, w_table := ?t\<rparr>) \<subseteq> _")
proof -
  have "confirmed eng (w\<lparr>w_table := ?t\<rparr>) \<subseteq> confirmed eng w"
  proof (rule confirmed_table)
    fix token e'
    assume "?t token = Some e'"
    then obtain e where "w_table w token = Some e"
      "le_deadline e' = le_deadline e \<or> token \<in> renewed \<and> le_deadline e' = local + e_leaseTTL eng"
      by (cases "token \<in> set tokens"; cases "token \<in> renewed")
         (auto simp: heartbeat_apply_def applyRenewal_lookup cancel_entry_def)
    then show "(token, le_deadline e') \<in> confirmed eng w"
      using assms unfolding confirmed_def by auto
  qed
  then show ?thesis by (auto simp: confirmed_def)
qed

lemma confirmed_expire:
  assumes "map_order (w_table w) order" "expire order local (w_table w) = (earliest, t')"
  shows "confirmed eng (w\<lparr>w_table := t'\<rparr>) \<subseteq> confirmed eng w"
proof (rule confirmed_table)
  fix token e'
  assume e': "t' token = Some e'"
  have "t' token = (if token \<in> set order then map_option (expire_entry local) (w_table w token) else w_table w token)"
    using expire_loop_table [of order local None "w_table w" token] assms by (simp add: expire_def map_order_def)
  with e' obtain e where "w_table w token = Some e" "le_deadline e' = le_deadline e"
    by (auto simp: expire_entry_def cancel_entry_def split: if_splits)
  then show "(token, le_deadline e') \<in> confirmed eng w" using confirmed_entry by metis
qed

lemma lease_step_inv:
  assumes "lease_step pg eng st st'" "whole_ms (e_leaseTTL eng)"
    and "sys_ok (fst st) \<and> covered eng (fst st) (confirmed eng (snd st))"
  shows "sys_ok (fst st') \<and> covered eng (fst st') (confirmed eng (snd st'))"
  using assms
proof (induction rule: lease_step.induct)
  case (others s s' w)
  then show ?case using covered_others sys_step_ok by auto
next
  case (claim now s started pred gen locked q limit cs d' w)
  then have ok: "sys_ok s" and cov: "covered eng s (confirmed eng w)" by auto
  have "confirmed eng (w\<lparr>w_claimed := w_claimed w @ map (\<lambda>c. (c, started + e_leaseTTL eng)) cs\<rparr>)
      \<subseteq> confirmed eng w \<union> (\<lambda>c. (cl_token c, started + e_leaseTTL eng)) ` set cs"
    by (auto simp: confirmed_def)
  then show ?case
    using covered_mono [OF covered_claim [OF cov claim(2,5,3,4) ok]] sys_ok_claim(1) [OF ok claim(3,4)]
    by auto
next
  case (renew now s local order w ids tokens renewed d')
  then have ok: "sys_ok s" and cov: "covered eng s (confirmed eng w)" by auto
  obtain ts where "renewLeases now (s_clock s) ids tokens (milliseconds (e_leaseTTL eng)) (s_db s) = Inr (ts, d')"
    using renew(5) by (auto simp: renewLeases_op_def exec_def split: sum.splits prod.splits)
  then have "sys_ok (s\<lparr>s_db := d'\<rparr>)" using ok renew(1) sys_step.renew sys_step_ok by blast
  moreover have "confirmed eng (w\<lparr>w_answer := Some (local, tokens, renewed)\<rparr>)
      \<subseteq> confirmed eng w \<union> (\<lambda>token. (token, local + e_leaseTTL eng)) ` renewed"
    by (auto simp: confirmed_def)
  ultimately show ?case
    using covered_mono [OF covered_renew [OF cov renew(2,6,5) ok]] by auto
next
  case (insert w c deadline rest s stopped)
  then show ?case using covered_mono [OF _ confirmed_insert [OF insert(1)]] by simp
next
  case (answered w local tokens renewed s)
  then show ?case using covered_mono [OF _ confirmed_answered [OF answered(1)]] by simp
next
  case (expire w order local earliest t' s)
  then show ?case using covered_mono [OF _ confirmed_expire [OF expire(1,2)]] by simp
next
  case (release s w token)
  have "confirmed eng (w\<lparr>w_table := lt_release token (w_table w)\<rparr>) \<subseteq> confirmed eng w"
    by (rule confirmed_table) (auto simp: lt_release_def intro: confirmed_entry split: if_splits)
  with release show ?case using covered_mono by auto
qed

interpretation leasing: transition_invariant "lease_step pg eng"
    "\<lambda>st. whole_ms (e_leaseTTL eng) \<and> sys_ok (fst st) \<and> covered eng (fst st) (confirmed eng (snd st))" for pg eng
  by unfold_locales (use lease_step_inv in blast)


text \<open>A worker claims the run of the demo history and inserts it in its table.\<close>

definition demo_worker :: worker where
  "demo_worker = new_worker\<lparr>w_table := lt_insert False ''r1'' ''t1'' 30000000000 newLeaseTable\<rparr>"

lemma demo_lease_steps:
  "(lease_step demo_pg demo_engine)\<^sup>*\<^sup>* (init_sys 0, new_worker)
     (demo_sys demo_leased_row [demo_claim] 0, demo_worker)"
proof -
  let ?c = "ac_claim demo_claim" and ?step = "lease_step demo_pg demo_engine"
  let ?w = "new_worker\<lparr>w_claimed := [(?c, 30000000000)]\<rparr>"
  have "?step (init_sys 0, new_worker) (demo_sys demo_row [] 0, new_worker)"
    by (rule lease_step.others [OF demo_enqueue_step])
       (simp add: leases_kept_def confirmed_def new_worker_def newLeaseTable_def)
  moreover have "?step (demo_sys demo_row [] 0, new_worker)
      ((demo_sys demo_row [] 0)\<lparr>s_db := demo_db demo_leased_row, s_claims := s_claims (demo_sys demo_row [] 0) @ new_claims [?c]\<rparr>,
       new_worker\<lparr>w_claimed := w_claimed new_worker @ map (\<lambda>c. (c, 0 + e_leaseTTL demo_engine)) [?c]\<rparr>)"
    by (rule lease_step.claim [where now = 0 and gen = "\<lambda>_. ''t1''"])
       (use demo_claim_stmt in \<open>simp_all add: demo_sys_def fresh_tokens_def demo_claim_def demo_engine_def milliseconds_def\<close>)
  then have "?step (demo_sys demo_row [] 0, new_worker) (demo_sys demo_leased_row [demo_claim] 0, ?w)"
    by (simp add: demo_sys_def new_claims_def demo_claim_def claim_result_def demo_row_def demo_engine_def new_worker_def)
  moreover have "?step (demo_sys demo_leased_row [demo_claim] 0, ?w)
      (demo_sys demo_leased_row [demo_claim] 0,
       ?w\<lparr>w_claimed := [], w_table := lt_insert False (cl_id ?c) (cl_token ?c) 30000000000 (w_table ?w)\<rparr>)"
    by (rule lease_step.insert) simp
  then have "?step (demo_sys demo_leased_row [demo_claim] 0, ?w) (demo_sys demo_leased_row [demo_claim] 0, demo_worker)"
    by (simp add: demo_worker_def new_worker_def demo_claim_simps)
  ultimately show ?thesis by (meson converse_rtranclp_into_rtranclp rtranclp.rtrancl_refl)
qed


theorem heartbeat_renews_witness:
  "heartbeat_apply demo_engine 5000000000 [''t1''] (Inr {''t1''}) (w_table demo_worker) ''t1''
     = Some \<lparr>le_runID = ''r1'', le_deadline = 35000000000, le_cancelled = False\<rparr>"
proof -
  let ?t = "w_table demo_worker"
  have t: "?t = [''t1'' \<mapsto> \<lparr>le_runID = ''r1'', le_deadline = 30000000000, le_cancelled = False\<rparr>]"
    by (simp add: demo_worker_def lt_insert_def newLeaseTable_def)
  have 1: "map_order ?t [''t1'']" by (simp add: t map_order_def)
  have 2: "snapshot [''t1''] ?t = ([''r1''], [''t1''])" by (simp add: t snapshot_def)
  obtain d' where 3: "renewLeases_op NoFault 5000000 5000000 demo_engine [''r1''] [''t1''] (demo_db demo_leased_row)
      = (Inr {''t1''}, d')"
    by (simp add: renewLeases_op_def exec_def renewLeases_def demo_db_def demo_leased_row_def demo_row_def
        renewable_def fence_def map_filter_def)
  have "fence ''r1'' ''t1'' 5000000 demo_leased_row"
    by (simp add: fence_def demo_leased_row_def demo_row_def)
  then show ?thesis
    using heartbeat_renews [OF 1 _ 2 3, of "''t1''" _ 5000000000]
    by (simp add: t demo_db_def demo_engine_def)
qed

section \<open>Lease times below a millisecond\<close>

text \<open>
  The statements take the lease time in whole milliseconds, and the constructor accepts
  any positive one.  A lease time below a millisecond gives leases of length zero: whatever
  is claimed fails the fence from the start, at every later time.
\<close>

lemma submillisecond_ttl: "0 < ttl \<Longrightarrow> ttl < Millisecond \<Longrightarrow> milliseconds ttl = 0"
  by (simp add: milliseconds_def Millisecond_def)

theorem submillisecond_lease_never_owned:
  assumes "0 < e_leaseTTL eng" "e_leaseTTL eng < Millisecond"
    and "claim pred gen locked now clk q limit (milliseconds (e_leaseTTL eng)) d = Inr (cs, d')"
    and "c \<in> set cs" "r \<in> set (runs d')" "clk \<le> later"
  shows "\<not> fence (cl_id c) (cl_token c) later r"
proof
  assume f: "fence (cl_id c) (cl_token c) later r"
  let ?ws = "claim_picked pred locked now q limit d"
  have d': "runs d' = update_where (\<lambda>r. rid r \<in> set (map rid ?ws)) (lease_row now clk 0 gen) (runs d)"
    and ids: "map cl_id cs = map rid ?ws"
    using assms(3) submillisecond_ttl [OF assms(1,2)] by (auto simp: claim_def Let_def claim_result_def)
  obtain r0 where r0: "r0 \<in> set (runs d)"
    "r = (if rid r0 \<in> set (map rid ?ws) then lease_row now clk 0 gen r0 else r0)"
    using assms(5) by (auto simp: d' set_update_where)
  have "rid r = rid r0" using r0(2) by (auto simp: lease_row_def)
  moreover have "cl_id c \<in> set (map rid ?ws)" using assms(4) ids by (metis image_eqI set_map)
  ultimately have "r = lease_row now clk 0 gen r0" using r0(2) f by (simp add: fence_def)
  then have "lease_until r = Some clk" by (simp add: lease_row_def interval_ms_def)
  with f assms(6) show False by (simp add: fence_def)
qed

lemma submillisecond_accepted:
  "\<exists>eng. New 8 ''w'' (demo_config\<lparr>cfg_LeaseTTL := 500000, cfg_HeartbeatInterval := 100000\<rparr>) = Inr eng
     \<and> e_leaseTTL eng = 500000"
  by (simp add: New_def Let_def text_or_def positive_or_def demo_config_def demo_text defaultSchema_def maxSchemaLength_def
      defaultPollInterval_def defaultLeaseTTL_def defaultHeartbeatInterval_def Millisecond_def Second_def)

end
