(* ===== verification/Worker_Drive.thy ===== *)
theory Worker_Drive
  imports Lease_Table
begin

text \<open>
  The model of the part of \<open>worker.go\<close> that claims runs and executes them:
  \<open>claimReadyRuns\<close>, \<open>executeClaim\<close>, \<open>drive\<close> and the functions they call.  The database
  and its clock are one state that the operations thread; for every operation of the
  workflow an environment says whether the context is done, what user code reads, what
  other processes do to the database meanwhile, how long the transaction has been open, and
  which fault strikes its statement.  The loop body of \<open>drive\<close> is a definition of its own,
  one database operation at a time, so that the system of many workers can interleave it.
  The lemmas show that an optimised claim equals the general one, that back-off agrees
  between the worker and the recovery statement, what a step can see, that checkpointed
  steps are not run again, and that a workflow whose steps succeed completes with the
  result of its last step.
\<close>

section \<open>Claiming\<close>

record claimedRun =
  cr_ID :: WorkflowID
  cr_WorkflowName :: string
  cr_Version :: int
  cr_StepIndex :: nat
  cr_Input :: json
  cr_Attempt :: int
  cr_Token :: string
  cr_checkpoints :: "nat \<rightharpoonup> json"
  cr_deadline :: gotime

text \<open>The loop over the decoded checkpoint pairs: a later pair overwrites an earlier one.\<close>

fun decode_checkpoints :: "(nat \<times> json) list \<Rightarrow> (nat \<rightharpoonup> json) \<Rightarrow> (nat \<rightharpoonup> json)" where
  "decode_checkpoints [] m = m"
| "decode_checkpoints ((index, raw) # pairs) m = decode_checkpoints pairs (m(index \<mapsto> raw))"

definition scan_run :: "gotime \<Rightarrow> claim_row \<Rightarrow> claimedRun" where
  "scan_run deadline c =
     \<lparr>cr_ID = cl_id c, cr_WorkflowName = cl_name c, cr_Version = cl_version c,
      cr_StepIndex = cl_step_index c, cr_Input = cl_input c, cr_Attempt = cl_attempt c,
      cr_Token = cl_token c, cr_checkpoints = decode_checkpoints (cl_checkpoints c) Map.empty,
      cr_deadline = deadline\<rparr>"

text \<open>The statement that \<open>claimReadyRuns\<close> selects and its arguments.\<close>

definition claim_query ::
    "(uuid \<Rightarrow> uuid) \<Rightarrow> (uuid \<Rightarrow> bool) \<Rightarrow> timestamptz \<Rightarrow> timestamptz \<Rightarrow> Engine \<Rightarrow> nat
     \<Rightarrow> string list \<Rightarrow> int list \<Rightarrow> claim_row list stmt" where
  "claim_query gen locked now clk e limit names versions =
     (if length names = 1
      then claimSingle gen locked now clk (e_queue e) limit (milliseconds (e_leaseTTL e)) (names ! 0) (versions ! 0)
      else claimMulti gen locked now clk (e_queue e) limit (milliseconds (e_leaseTTL e)) names versions)"

definition claimReadyRuns ::
    "fault \<Rightarrow> (uuid \<Rightarrow> uuid) \<Rightarrow> (uuid \<Rightarrow> bool) \<Rightarrow> timestamptz \<Rightarrow> timestamptz \<Rightarrow> gotime \<Rightarrow> workflowKey list
     \<Rightarrow> Engine \<Rightarrow> int \<Rightarrow> db \<Rightarrow> (go_error + claimedRun list) \<times> db" where
  "claimReadyRuns f gen locked now clk started order e limit d =
     (if limit \<le> 0 then (Inr [], d)
      else
        (let (names, versions) = supportedWorkflows order e in
         if names = [] then (Inr [], d)
         else
           (case exec f (claim_query gen locked now clk e (nat limit) names versions) d of
              (Inl err, d') \<Rightarrow> (Inl (DbError ''claim runs'' err), d')
            | (Inr rows, d') \<Rightarrow> (Inr (map (scan_run (started + e_leaseTTL e)) rows), d'))))"

section \<open>Steps\<close>

definition fenced :: "nat \<Rightarrow> go_error option" where
  "fenced rowsAffected = (if rowsAffected = 0 then Some LostLease else None)"

definition stepContext ::
    "claimedRun \<Rightarrow> compiledWorkflow \<Rightarrow> json option list \<Rightarrow> nat \<Rightarrow> string \<Rightarrow> StepContext" where
  "stepContext run cw values index name =
     \<lparr>RunID = cr_ID run, Workflow = cr_WorkflowName run, Input = Some (cr_Input run),
      StepKey = step_key index name, sc_values = take index values, sc_names = cw_names cw\<rparr>"

definition executeStepSafely :: "world \<Rightarrow> string \<Rightarrow> StepFunc \<Rightarrow> StepContext \<Rightarrow> go_error + json" where
  "executeStepSafely w name fn sc =
     (case fn w sc of
        FnPanic r \<Rightarrow> Inl (StepPanicked name r)
      | FnError err \<Rightarrow> Inl (UserError err)
      | FnReturn (MarshalPanic r) \<Rightarrow> Inl (StepPanicked name r)
      | FnReturn (MarshalError err) \<Rightarrow> Inl (MarshalFailed name err)
      | FnReturn (Marshalled raw) \<Rightarrow> Inr raw)"

text \<open>What a step reads depends on its context, which a positive timeout bounds.\<close>

definition runStep :: "(duration option \<Rightarrow> world) \<Rightarrow> StepContext \<Rightarrow> stepOp \<Rightarrow> go_error + json" where
  "runStep w sc step =
     executeStepSafely
       (w (if 0 < so_timeout (step_opts step) then Some (so_timeout (step_opts step)) else None))
       (step_name step) (step_fn step) sc"

section \<open>Writing progress\<close>

definition commitStep_op ::
    "pg \<Rightarrow> fault \<Rightarrow> timestamptz \<Rightarrow> timestamptz \<Rightarrow> claimedRun \<Rightarrow> nat \<Rightarrow> json \<Rightarrow> bool \<Rightarrow> db
     \<Rightarrow> (go_error + json) \<times> db" where
  "commitStep_op pg f now clk run index val complete d =
     (case exec f (commitStep pg now clk (cr_ID run) (cr_Token run) index val complete) d of
        (Inl err, d') \<Rightarrow> (Inl (DbError ''commit step'' err), d')
      | (Inr None, d') \<Rightarrow> (Inl LostLease, d')
      | (Inr (Some (Some existing)), d') \<Rightarrow> (Inr existing, d')
      | (Inr (Some None), d') \<Rightarrow> (Inr val, d'))"

definition parkForSleep ::
    "fault \<Rightarrow> timestamptz \<Rightarrow> timestamptz \<Rightarrow> claimedRun \<Rightarrow> nat \<Rightarrow> duration \<Rightarrow> db \<Rightarrow> go_error option \<times> db" where
  "parkForSleep f now clk run next dur d =
     (case exec f (parkSleep now clk (cr_ID run) (cr_Token run) next (milliseconds dur)) d of
        (Inl err, d') \<Rightarrow> (Some (DbError ''park for sleep'' err), d')
      | (Inr n, d') \<Rightarrow> (fenced n, d'))"

text \<open>
  A wait is one transaction under the lock of the key: a fault may strike any of its
  statements, or the commit, whose response may also be lost after it took effect.  The
  result is the stored outcome, or none when the run was parked.
\<close>

datatype wait_fault =
    WNone | WBegin string | WLock string | WLookup string | WWrite string | WCommit string | WCommitLost string

text \<open>The end of a transaction that has written \<open>d'\<close> over \<open>d\<close>.\<close>

definition end_wait :: "wait_fault \<Rightarrow> string \<Rightarrow> 'r \<Rightarrow> db \<Rightarrow> db \<Rightarrow> (go_error + 'r) \<times> db" where
  "end_wait f what res d d' =
     (case f of
        WCommit m \<Rightarrow> (Inl (DbError what (ConnectionError m)), d)
      | WCommitLost m \<Rightarrow> (Inl (DbError what (ConnectionError m)), d')
      | _ \<Rightarrow> (Inr res, d'))"

definition write_fault :: "wait_fault \<Rightarrow> fault" where
  "write_fault f = (case f of WWrite m \<Rightarrow> NotApplied m | _ \<Rightarrow> NoFault)"

text \<open>The two branches after the lookup: deliver the payload that was found, or park.\<close>

definition deliver ::
    "pg \<Rightarrow> wait_fault \<Rightarrow> timestamptz \<Rightarrow> timestamptz \<Rightarrow> claimedRun \<Rightarrow> nat \<Rightarrow> bool \<Rightarrow> json \<Rightarrow> db
     \<Rightarrow> (go_error + json option) \<times> db" where
  "deliver pg f now clk run index complete payload d =
     (case commitStep_op pg (write_fault f) now clk run index (received payload) complete d of
        (Inl err, d') \<Rightarrow> (Inl err, d)
      | (Inr stored, d') \<Rightarrow> end_wait f ''commit event delivery'' (Some stored) d d')"

definition park ::
    "wait_fault \<Rightarrow> timestamptz \<Rightarrow> timestamptz \<Rightarrow> claimedRun \<Rightarrow> nat \<Rightarrow> string \<Rightarrow> duration \<Rightarrow> db
     \<Rightarrow> (go_error + json option) \<times> db" where
  "park f now clk run index key timeout d =
     (case exec (write_fault f) (parkWait now clk (cr_ID run) (cr_Token run) index key (milliseconds timeout)) d of
        (Inl err, d') \<Rightarrow> (Inl (DbError ''park for event'' err), d)
      | (Inr n, d') \<Rightarrow>
          (case fenced n of
             Some err \<Rightarrow> (Inl err, d)
           | None \<Rightarrow> end_wait f ''commit wait'' None d d'))"

definition waitForEvent ::
    "pg \<Rightarrow> wait_fault \<Rightarrow> timestamptz \<Rightarrow> timestamptz \<Rightarrow> claimedRun \<Rightarrow> nat \<Rightarrow> string \<Rightarrow> duration \<Rightarrow> bool \<Rightarrow> db
     \<Rightarrow> (go_error + json option) \<times> db" where
  "waitForEvent pg f now clk run index key timeout complete d =
     (case f of
        WBegin m \<Rightarrow> (Inl (DbError ''begin wait tx'' (ConnectionError m)), d)
      | WLock m \<Rightarrow> (Inl (DbError ''lock event key'' (ConnectionError m)), d)
      | _ \<Rightarrow>
          if \<not> text_ok key then (Inl (DbError ''lock event key'' InvalidText), d)
          else
            (case f of
               WLookup m \<Rightarrow> (Inl (DbError ''look up event'' (ConnectionError m)), d)
             | _ \<Rightarrow>
                 (case latestEvent now key d of
                    Inl err \<Rightarrow> (Inl (DbError ''look up event'' err), d)
                  | Inr (Some payload) \<Rightarrow> deliver pg f now clk run index complete payload d
                  | Inr None \<Rightarrow> park f now clk run index key timeout d)))"

section \<open>Driving a run\<close>

text \<open>The database and the clock, and the environment of one operation.\<close>

type_synonym dbtime = "db \<times> timestamptz"

record drive_env =
  de_done :: bool \<comment> \<open>\<open>ctx.Err() != nil\<close> at the top of the loop\<close>
  de_world :: "duration option \<Rightarrow> world"
  de_others :: "dbtime \<Rightarrow> dbtime"
  de_lag :: nat \<comment> \<open>\<open>clock_timestamp() - now()\<close>\<close>
  de_fault :: fault
  de_wait :: wait_fault

datatype control = Continue "json option list" | Return "go_error option"

text \<open>The operation that is not yet checkpointed, on the database as it is at the time.\<close>

fun drive_op ::
    "pg \<Rightarrow> claimedRun \<Rightarrow> compiledWorkflow \<Rightarrow> drive_env \<Rightarrow> nat \<Rightarrow> json option list \<Rightarrow> operation \<Rightarrow> db \<Rightarrow> timestamptz
     \<Rightarrow> control \<times> db" where
  "drive_op pg run cw env index values (opStep step) d clk =
     (case runStep (de_world env) (stepContext run cw values index (step_name step)) step of
        Inl err \<Rightarrow> (Return (Some err), d)
      | Inr raw \<Rightarrow>
          (case commitStep_op pg (de_fault env) (clk - int (de_lag env)) clk run index raw
                  (Suc index = length (cw_ops cw)) d of
             (Inl err, d') \<Rightarrow> (Return (Some err), d')
           | (Inr v, d') \<Rightarrow>
               (if Suc index = length (cw_ops cw) then Return None else Continue (values[index := Some v]), d')))"
| "drive_op pg run cw env index values (opSleep dur) d clk =
     (case parkForSleep (de_fault env) (clk - int (de_lag env)) clk run (index + 1) dur d of
        (res, d') \<Rightarrow> (Return res, d'))"
| "drive_op pg run cw env index values (opWaitEvent wait) d clk =
     (case resolve wait (de_world env None) (stepContext run cw values index (wait_name wait)) of
        Inl err \<Rightarrow> (Return (Some err), d)
      | Inr key \<Rightarrow>
          (case waitForEvent pg (de_wait env) (clk - int (de_lag env)) clk run index key (wait_timeout wait)
                  (Suc index = length (cw_ops cw)) d of
             (Inl err, d') \<Rightarrow> (Return (Some err), d')
           | (Inr None, d') \<Rightarrow> (Return None, d')
           | (Inr (Some raw), d') \<Rightarrow>
               (if Suc index = length (cw_ops cw) then Return None else Continue (values[index := Some raw]), d')))"

text \<open>The body of the loop.\<close>

definition drive_body ::
    "pg \<Rightarrow> claimedRun \<Rightarrow> compiledWorkflow \<Rightarrow> drive_env \<Rightarrow> nat \<Rightarrow> json option list \<Rightarrow> dbtime \<Rightarrow> control \<times> dbtime" where
  "drive_body pg run cw env index values st =
     (if de_done env then (Return (Some CtxDone), st)
      else if values ! index \<noteq> None then (Continue values, st)
      else
        (let (d, clk) = de_others env st;
             (c, d') = drive_op pg run cw env index values (cw_ops cw ! index) d clk
         in (c, (d', clk))))"

text \<open>After the loop.\<close>

definition complete_run ::
    "pg \<Rightarrow> claimedRun \<Rightarrow> compiledWorkflow \<Rightarrow> drive_env \<Rightarrow> json option list \<Rightarrow> dbtime \<Rightarrow> go_error option \<times> dbtime" where
  "complete_run pg run cw env values st =
     (let output = (case cw_outputIndex cw of Some i \<Rightarrow> values ! i | None \<Rightarrow> None);
          (d, clk) = de_others env st
      in case exec (de_fault env) (completeRun pg (clk - int (de_lag env)) clk (cr_ID run) (cr_Token run)
                 (length (cw_ops cw)) output) d of
           (Inl err, d') \<Rightarrow> (Some (DbError ''complete run'' err), (d', clk))
         | (Inr n, d') \<Rightarrow> (fenced n, (d', clk)))"

text \<open>\<open>env\<close> gives the environment of each operation and, past the last, of the completion.\<close>

function drive_loop ::
    "pg \<Rightarrow> claimedRun \<Rightarrow> compiledWorkflow \<Rightarrow> (nat \<Rightarrow> drive_env) \<Rightarrow> nat \<Rightarrow> json option list \<Rightarrow> dbtime
     \<Rightarrow> go_error option \<times> dbtime" where
  "drive_loop pg run cw env index values st =
     (if length (cw_ops cw) \<le> index
      then complete_run pg run cw (env (length (cw_ops cw))) values st
      else
        (case drive_body pg run cw (env index) index values st of
           (Return r, st') \<Rightarrow> (r, st')
         | (Continue values', st') \<Rightarrow> drive_loop pg run cw env (Suc index) values' st'))"
  by pat_completeness auto
termination
  by (relation "measure (\<lambda>(pg, run, cw, env, index, values, st). length (cw_ops cw) - index)") auto

declare drive_loop.simps [simp del]

text \<open>The in-memory values of a run: one slot per operation.\<close>

definition initial_values :: "claimedRun \<Rightarrow> compiledWorkflow \<Rightarrow> json option list" where
  "initial_values run cw = map (cr_checkpoints run) [0..<length (cw_ops cw)]"

definition drive ::
    "pg \<Rightarrow> Engine \<Rightarrow> claimedRun \<Rightarrow> (nat \<Rightarrow> drive_env) \<Rightarrow> dbtime \<Rightarrow> go_error option \<times> dbtime" where
  "drive pg e run env st =
     (case workflow e (cr_WorkflowName run) (cr_Version run) of
        None \<Rightarrow> (Some LostLease, st)
      | Some cw \<Rightarrow> drive_loop pg run cw env (cr_StepIndex run) (initial_values run cw) st)"

section \<open>Failures\<close>

definition backoffDuration :: "int \<Rightarrow> duration" where
  "backoffDuration att0 =
     (let att = (if att0 < 1 then 1 else att0);
          shift = (if 8 < att - 1 then 8 else att - 1);
          delay = 250 * Millisecond * 2 ^ nat shift
      in if Minute < delay then Minute else delay)"

text \<open>\<open>err_text\<close> renders an error (\<open>Error()\<close>).  The result is the error of the statement.\<close>

definition failOrRetry ::
    "(go_error \<Rightarrow> string) \<Rightarrow> fault \<Rightarrow> timestamptz \<Rightarrow> timestamptz \<Rightarrow> claimedRun \<Rightarrow> go_error \<Rightarrow> db
     \<Rightarrow> go_error option \<times> db" where
  "failOrRetry err_text f now clk run cause d =
     (let msg = sanitizeError (err_text cause);
          att = cr_Attempt run + 1
      in case exec f (failOrRetry_stmt now clk (cr_ID run) (cr_Token run) att
                  (milliseconds (backoffDuration att)) msg) d of
           (Inl err, d') \<Rightarrow> (Some (DbError ''record failure'' err), d')
         | (Inr n, d') \<Rightarrow> (None, d'))"

text \<open>\<open>fenv\<close> is the environment after \<open>drive\<close> returned.\<close>

definition executeClaim ::
    "pg \<Rightarrow> (go_error \<Rightarrow> string) \<Rightarrow> Engine \<Rightarrow> claimedRun \<Rightarrow> (nat \<Rightarrow> drive_env) \<Rightarrow> drive_env \<Rightarrow> dbtime
     \<Rightarrow> go_error option \<times> dbtime" where
  "executeClaim pg err_text e run env fenv st =
     (case drive pg e run env st of
        (None, st') \<Rightarrow> (None, st')
      | (Some err, st') \<Rightarrow>
          if err = LostLease \<or> de_done fenv then (None, st')
          else
            (let (d, clk) = de_others fenv st';
                 (res, d') = failOrRetry err_text (de_fault fenv) (clk - int (de_lag fenv)) clk run err d
             in (res, (d', clk))))"

section \<open>Claiming ready runs\<close>

lemma decode_checkpoints_eq: "decode_checkpoints ps m = m ++ map_of (rev ps)"
proof (induction ps arbitrary: m)
  case (Cons p ps)
  obtain k v where p: "p = (k, v)" by (cases p)
  have "map_of (rev (p # ps)) = [k \<mapsto> v] ++ map_of (rev ps)" by (simp add: p)
  with Cons show ?case by (auto simp: p fun_eq_iff map_add_def split: option.splits)
qed simp

lemma map_of_rev_distinct:
  assumes "distinct (map fst ps)"
  shows "map_of (rev ps) = map_of ps"
proof
  fix k
  have "distinct (map fst (rev ps))" using assms by (simp add: rev_map [symmetric])
  then have "map_of (rev ps) k = Some v \<longleftrightarrow> map_of ps k = Some v" for v
    using assms by (simp add: map_of_eq_Some_iff)
  then show "map_of (rev ps) k = map_of ps k" by (metis option.exhaust)
qed

text \<open>With unique keys, the decoded map is the one the table holds.\<close>

lemma decode_checkpoints_of:
  assumes "distinct (map cp_key cps)"
  shows "decode_checkpoints (map (\<lambda>c. (cp_index c, cp_value c)) (filter (\<lambda>c. cp_run c = i) cps)) Map.empty k
    = checkpoint_of cps i k"
proof -
  let ?ps = "map (\<lambda>c. (cp_index c, cp_value c)) (filter (\<lambda>c. cp_run c = i) cps)"
  have "distinct (map fst ?ps)"
    using assms by (induction cps) (auto simp: image_iff)
  then have "map_of (rev ?ps) = map_of ?ps" by (rule map_of_rev_distinct)
  moreover have "map_of ?ps k = checkpoint_of cps i k"
    by (induction cps) (auto simp: checkpoint_of_def)
  ultimately show ?thesis by (simp add: decode_checkpoints_eq)
qed

text \<open>The claim for a single workflow is the general one, with an equality instead of a
  membership.\<close>

lemma claim_query_multi:
  assumes "length names = length versions"
  shows "claim_query gen locked now clk e limit names versions
    = claimMulti gen locked now clk (e_queue e) limit (milliseconds (e_leaseTTL e)) names versions"
proof (cases "length names = 1")
  case True
  then obtain n v where "names = [n]" "versions = [v]"
    using assms by (metis One_nat_def Suc_length_conv length_0_conv)
  then show ?thesis by (simp add: claim_query_def claimSingle_def claimMulti_def)
qed (simp add: claim_query_def)

lemma zip_registered:
  assumes "map_order (e_workflows e) order"
  shows "(n, v) \<in> set (zip (map fst order) (map snd order)) \<longleftrightarrow> workflow e n v \<noteq> None"
  using assms by (auto simp: zip_map_fst_snd map_order_def workflow_def domIff)

abbreviation claimable :: "Engine \<Rightarrow> (uuid \<Rightarrow> bool) \<Rightarrow> timestamptz \<Rightarrow> run_row \<Rightarrow> bool" where
  "claimable e locked now r \<equiv>
     due_in (e_queue e) now r \<and> workflow e (workflow_name r) (workflow_version r) \<noteq> None \<and> \<not> locked (rid r)"

text \<open>What a successful claim returns, as a selection of rows.\<close>

lemma claimReadyRuns_selects:
  assumes ord: "map_order (e_workflows e) order"
    and ok: "claimReadyRuns NoFault gen locked now clk started order e limit d = (Inr cruns, d')"
  obtains picked where
    "picked = (if e_workflows e = Map.empty then [] else
       select_limit (\<lambda>r. (next_run_at r, rid r)) (nat limit) (claimable e locked now) (runs d))"
    "cruns = map (\<lambda>r. scan_run (started + e_leaseTTL e) (claim_result gen (checkpoints d) r)) picked"
    "d' = d\<lparr>runs := update_where (\<lambda>r. rid r \<in> set (map rid picked))
            (lease_row now clk (milliseconds (e_leaseTTL e)) gen) (runs d)\<rparr>"
proof (cases "limit \<le> 0 \<or> order = []")
  case True
  then have "cruns = []" "d' = d"
    using ok by (cases "limit \<le> 0"; simp add: claimReadyRuns_def supportedWorkflows_def)+
  moreover have "order = [] \<Longrightarrow> e_workflows e = Map.empty" using ord dom_eq_empty_conv [of "e_workflows e"] by (simp add: map_order_def)
  moreover have "update_where (\<lambda>r. rid r \<in> set (map rid [])) f rs = rs" for f and rs :: "run_row list"
    by (rule update_where_none) simp
  ultimately show ?thesis using True by (intro that [of "[]"]) (auto simp: select_limit_def)
next
  case False
  then have ne: "e_workflows e \<noteq> Map.empty" using ord by (auto simp: map_order_def)
  have query: "claim_query gen locked now clk e (nat limit) (map fst order) (map snd order) d = Inr (rows, d'')
      \<Longrightarrow> cruns = map (scan_run (started + e_leaseTTL e)) rows \<and> d' = d''" for rows d''
    using ok False by (auto simp: claimReadyRuns_def supportedWorkflows_def exec_def)
  show ?thesis
    using query ne unfolding claim_query_multi [of "map fst order" "map snd order", simplified]
    by (intro that) (auto simp: claimMulti_def claim_def Let_def claim_picked_def zip_registered [OF ord] conj_assoc conj_commute)
qed

text \<open>The row a claimed run stands for, before the claim.\<close>

definition claimed_from ::
    "(uuid \<Rightarrow> uuid) \<Rightarrow> gotime \<Rightarrow> db \<Rightarrow> claimedRun \<Rightarrow> run_row \<Rightarrow> bool" where
  "claimed_from gen deadline d run r \<longleftrightarrow>
     cr_ID run = rid r \<and> cr_WorkflowName run = workflow_name r \<and> cr_Version run = workflow_version r
   \<and> cr_StepIndex run = step_index r \<and> cr_Attempt run = attempt r \<and> cr_Input run = input_json r
   \<and> cr_Token run = gen (rid r) \<and> cr_deadline run = deadline
   \<and> cr_checkpoints run = checkpoint_of (checkpoints d) (rid r)"

lemma scan_run_from:
  assumes "db_ok d"
  shows "claimed_from gen deadline d (scan_run deadline (claim_result gen (checkpoints d) r)) r"
  using assms decode_checkpoints_of [of "checkpoints d" "rid r"]
  by (auto simp: claimed_from_def scan_run_def claim_result_def db_ok_def checkpoints_ok_def)

lemma claim_picked_fair:
  assumes "distinct (map rid (runs d))"
    and sel: "picked = select_limit (\<lambda>r. (next_run_at r, rid r)) n (claimable e locked now) (runs d)"
    and r: "r \<in> set (runs d)" "claimable e locked now r" "r \<notin> set picked"
  shows "length picked = n"
    and "run_of d k = Some q \<Longrightarrow> k \<in> set (map rid picked) \<Longrightarrow> next_run_at q \<le> next_run_at r"
proof -
  let ?key = "\<lambda>r. (next_run_at r, rid r)"
  have "\<not> count_where (claimable e locked now) (runs d) \<le> n"
    using select_limit_all [of "claimable e locked now" "runs d" n ?key] r sel by auto
  then show "length picked = n" by (simp add: sel length_select_limit)
  assume q: "run_of d k = Some q" "k \<in> set (map rid picked)"
  then have "rid q \<in> set (map rid picked)" "q \<in> set (runs d)" using row_with_SomeD [OF q(1)] by auto
  then have "q \<in> set picked" using picked_by_id(1) [OF assms(1)] unfolding sel by blast
  then have "?key q \<le> ?key r" using select_limit_smallest [of q ?key] r unfolding sel by blast
  then show "next_run_at q \<le> next_run_at r" by auto
qed

lemma claim_picked_sound:
  assumes "db_ok d" "r \<in> set picked" "r \<in> set (runs d)"
    and run: "run = scan_run until (claim_result gen (checkpoints d) r)"
    and d': "d' = d\<lparr>runs := update_where (\<lambda>r. rid r \<in> set (map rid picked)) (lease_row now clk ttl gen) (runs d)\<rparr>"
  shows "run_of d (cr_ID run) = Some r" "claimed_from gen until d run r"
    "run_of d' (cr_ID run) = Some (lease_row now clk ttl gen r)"
proof -
  show src: "claimed_from gen until d run r" unfolding run by (rule scan_run_from [OF assms(1)])
  have "run_of d (rid r) = Some r" by (rule row_with_distinct [OF db_okD(1) [OF assms(1)] assms(3)])
  then show row: "run_of d (cr_ID run) = Some r" using src by (simp add: claimed_from_def)
  show "run_of d' (cr_ID run) = Some (lease_row now clk ttl gen r)"
    using row row_with_SomeD [OF row] imageI [OF assms(2), of rid] unfolding d' by (auto simp: run_of_update lease_row_def)
qed

text \<open>C36: A successful \<open>claimReadyRuns\<close> returns at most \<open>limit\<close> distinct runs; each was ready
  and due in the engine's queue under a registered workflow version, carries the position,
  attempt count and checkpoints stored for it, and is now leased under its token.  It is fair:
  a run that could have been claimed is left out only when the limit is reached, and then
  every claimed run was due no later.\<close>

theorem claimReadyRuns_sound:
  assumes "db_ok d" "map_order (e_workflows e) order"
    and "claimReadyRuns NoFault gen locked now clk started order e limit d = (Inr cruns, d')"
  shows "int (length cruns) \<le> max 0 limit \<and> distinct (map cr_ID cruns)
    \<and> (\<forall>run \<in> set cruns. \<exists>r. run_of d (cr_ID run) = Some r \<and> claimable e locked now r
         \<and> claimed_from gen (started + e_leaseTTL e) d run r
         \<and> run_of d' (cr_ID run) = Some (lease_row now clk (milliseconds (e_leaseTTL e)) gen r))
    \<and> (\<forall>r \<in> set (runs d). claimable e locked now r \<longrightarrow> rid r \<notin> cr_ID ` set cruns \<longrightarrow>
         int (length cruns) = max 0 limit
         \<and> (\<forall>run \<in> set cruns. \<forall>q. run_of d (cr_ID run) = Some q \<longrightarrow> next_run_at q \<le> next_run_at r))"
    (is "?bound \<and> ?dist \<and> ?sound \<and> ?fair")
proof -
  let ?key = "\<lambda>r. (next_run_at r, rid r)"
  obtain picked where picked: "picked = (if e_workflows e = Map.empty then [] else
      select_limit ?key (nat limit) (claimable e locked now) (runs d))"
    and cr: "cruns = map (\<lambda>r. scan_run (started + e_leaseTTL e) (claim_result gen (checkpoints d) r)) picked"
    and d': "d' = d\<lparr>runs := update_where (\<lambda>r. rid r \<in> set (map rid picked))
            (lease_row now clk (milliseconds (e_leaseTTL e)) gen) (runs d)\<rparr>"
    using claimReadyRuns_selects [OF assms(2,3)] by blast
  have dist: "distinct (map rid (runs d))" using assms(1) by (rule db_okD(1))
  have ids: "map cr_ID cruns = map rid picked" by (simp add: cr scan_run_def claim_result_def)
  have mem: "r \<in> set (runs d) \<and> claimable e locked now r" if "r \<in> set picked" for r
    using that select_limitD [of r ?key "nat limit"] unfolding picked by (auto split: if_splits)
  have len: "length picked = (if e_workflows e = Map.empty then 0 else min (nat limit) (count_where (claimable e locked now) (runs d)))"
    by (simp add: picked length_select_limit)
  have "length cruns \<le> nat limit" by (simp add: cr len)
  then have ?bound by linarith
  moreover have ?dist
    unfolding ids picked
    by (cases "e_workflows e = Map.empty") (simp, simp only: if_False distinct_select_limit [OF dist])
  moreover have ?sound
  proof
    fix run
    assume "run \<in> set cruns"
    then obtain r where r: "r \<in> set picked" "run = scan_run (started + e_leaseTTL e) (claim_result gen (checkpoints d) r)"
      by (auto simp: cr)
    note claim_picked_sound [OF assms(1) r(1) _ r(2) d']
    with mem [OF r(1)] show "\<exists>r. run_of d (cr_ID run) = Some r \<and> claimable e locked now r
         \<and> claimed_from gen (started + e_leaseTTL e) d run r
         \<and> run_of d' (cr_ID run) = Some (lease_row now clk (milliseconds (e_leaseTTL e)) gen r)" by blast
  qed
  moreover have ?fair
  proof (intro ballI impI)
    fix r
    assume r: "r \<in> set (runs d)" "claimable e locked now r" "rid r \<notin> cr_ID ` set cruns"
    then have out: "r \<notin> set picked" and reg: "e_workflows e \<noteq> Map.empty"
      using ids by (metis image_eqI set_map, auto simp: workflow_def)
    then have sel: "picked = select_limit ?key (nat limit) (claimable e locked now) (runs d)" by (simp add: picked)
    note fair = claim_picked_fair [OF dist sel r(1,2) out]
    have "int (length cruns) = max 0 limit" using fair(1) by (simp add: cr)
    moreover have "next_run_at q \<le> next_run_at r" if "run \<in> set cruns" "run_of d (cr_ID run) = Some q" for run q
      using that by (intro fair(2)) (auto simp flip: ids)
    ultimately show "int (length cruns) = max 0 limit
         \<and> (\<forall>run \<in> set cruns. \<forall>q. run_of d (cr_ID run) = Some q \<longrightarrow> next_run_at q \<le> next_run_at r)" by blast
  qed
  ultimately show ?thesis by blast
qed

text \<open>A workflow of two steps, the second of which reads the result of the first.\<close>

definition demo_step :: "string \<Rightarrow> StepFunc \<Rightarrow> operation" where
  "demo_step name fn = opStep \<lparr>step_name = name, step_fn = fn, step_opts = \<lparr>so_timeout = 0\<rparr>\<rparr>"

definition demo_cw :: compiledWorkflow where
  "demo_cw = \<lparr>cw_name = ''w'', cw_version = 1,
     cw_ops = [demo_step ''a'' (\<lambda>w sc. FnReturn (Marshalled (JNum ''1''))),
               demo_step ''b'' (\<lambda>w sc. FnReturn (Marshalled (JArr [case sc_raw sc ''a'' of Some v \<Rightarrow> v | None \<Rightarrow> JNull])))],
     cw_names = [''a'' \<mapsto> 0, ''b'' \<mapsto> 1], cw_outputIndex = Some 1\<rparr>"

definition demo_worker_engine :: Engine where
  "demo_worker_engine = demo_engine\<lparr>e_queue := ''q'', e_workflows := [(''w'', 1) \<mapsto> demo_cw]\<rparr>"

definition demo_run :: claimedRun where
  "demo_run = \<lparr>cr_ID = ''r1'', cr_WorkflowName = ''w'', cr_Version = 1, cr_StepIndex = 0, cr_Input = JNull,
     cr_Attempt = 0, cr_Token = ''t1'', cr_checkpoints = Map.empty, cr_deadline = 30000000000\<rparr>"

lemma demo_claimReadyRuns:
  "claimReadyRuns NoFault (\<lambda>_. ''t1'') (\<lambda>_. False) 0 0 0 [(''w'', 1)] demo_worker_engine 4 (demo_db demo_row)
     = (Inr [demo_run], demo_db demo_leased_row)"
  by (simp add: claimReadyRuns_def supportedWorkflows_def demo_worker_engine_def demo_engine_def exec_def
      claim_query_def claimSingle_def claim_def claim_picked_def select_limit_def demo_db_def demo_row_def due_in_def
      demo_leased_row_def demo_run_def scan_run_def claim_result_def lease_row_def interval_ms_def milliseconds_def)

theorem claimReadyRuns_sound_witness:
  "claimed_from (\<lambda>_. ''t1'') 30000000000 (demo_db demo_row) demo_run demo_row
   \<and> run_of (demo_db demo_leased_row) ''r1'' = Some (lease_row 0 0 30000 (\<lambda>_. ''t1'') demo_row)"
proof -
  have ok: "db_ok (demo_db demo_row)"
    using reachable_sys_ok [OF demo_enqueued] by (simp add: sys_ok_def demo_sys_def)
  have ord: "map_order (e_workflows demo_worker_engine) [(''w'', 1)]"
    by (simp add: map_order_def demo_worker_engine_def)
  show ?thesis
    using claimReadyRuns_sound [OF ok ord demo_claimReadyRuns]
    by (simp add: demo_db_def demo_row_def demo_run_def demo_worker_engine_def demo_engine_def milliseconds_def)
qed

section \<open>Back-off\<close>

lemma backoffDuration_eq:
  "backoffDuration att = min Minute (250 * Millisecond * 2 ^ nat (min 8 (max 1 att - 1)))"
proof -
  have "(if att < 1 then 1 else att) = max 1 att" by simp
  moreover have "(if x < y then x else y) = min x y" for x y :: int by simp
  ultimately show ?thesis unfolding backoffDuration_def Let_def by (simp only:)
qed

text \<open>C38: The delay after a failed attempt and the delay that the recovery statement gives a run
  whose lease expired follow one schedule: for the same number of earlier failures they are
  the same number of milliseconds, between a quarter of a second and a minute, and never
  shorter after more failures.\<close>

theorem backoff_schedule:
  assumes "0 \<le> failures"
  shows "milliseconds (backoffDuration (failures + 1)) = recovery_backoff_ms failures
    \<and> 250 \<le> recovery_backoff_ms failures \<and> recovery_backoff_ms failures \<le> 60000
    \<and> (\<forall>more \<ge> failures. recovery_backoff_ms failures \<le> recovery_backoff_ms more)"
proof (intro conjI allI impI)
  let ?n = "nat (min failures 8)"
  have n: "nat (min 8 (max 1 (failures + 1) - 1)) = ?n" using assms by (simp add: min.commute)
  have "backoffDuration (failures + 1) = min 60000 (250 * 2 ^ ?n) * 1000000"
    unfolding backoffDuration_eq n by (simp add: Minute_def Millisecond_def min_def)
  moreover have "0 \<le> min 60000 (250 * 2 ^ ?n :: int)" by simp
  ultimately show "milliseconds (backoffDuration (failures + 1)) = recovery_backoff_ms failures"
    by (simp add: milliseconds_def recovery_backoff_ms_def sgn_if abs_mult)
  show "250 \<le> recovery_backoff_ms failures" "recovery_backoff_ms failures \<le> 60000"
    by (simp_all add: recovery_backoff_ms_def)
  fix more
  assume "failures \<le> more"
  then have "(2 :: int) ^ ?n \<le> 2 ^ nat (min more 8)" by (intro power_increasing) auto
  then have "250 * (2 :: int) ^ ?n \<le> 250 * 2 ^ nat (min more 8)" by (simp only: mult_left_mono)
  then show "recovery_backoff_ms failures \<le> recovery_backoff_ms more"
    unfolding recovery_backoff_ms_def by (rule min.mono [OF order.refl])
qed

theorem backoff_schedule_witness:
  "milliseconds (backoffDuration 3) = recovery_backoff_ms 2 \<and> recovery_backoff_ms 2 = 1000"
  using backoff_schedule [of 2] by (simp add: recovery_backoff_ms_def)

section \<open>What a step sees\<close>

text \<open>C39: In a step, a name resolves to the recorded value of the operation that has it when that
  operation comes earlier in the workflow, and to nothing otherwise: a step sees exactly the
  results before it, under the names of its definition.\<close>

theorem stepContext_scope:
  assumes "compileWorkflow (Some w) = Inr cw" "length values = length (cw_ops cw)" "index \<le> length (cw_ops cw)"
  shows "sc_raw (stepContext run cw values index name) n = Some v \<longleftrightarrow>
    (\<exists>j < index. op_name (cw_ops cw ! j) = Some n \<and> values ! j = Some v)"
proof -
  have "compiled_ok cw" using compileWorkflow_compiled [OF assms(1)] by simp
  then have names: "cw_names cw n = Some j \<longleftrightarrow> j < length (cw_ops cw) \<and> op_name (cw_ops cw ! j) = Some n" for j
    by (simp add: compiled_ok_def)
  show ?thesis
  proof (cases "cw_names cw n")
    case None
    then show ?thesis using names assms(3) by (auto simp: sc_raw_def stepContext_def)
  next
    case (Some j)
    then have "(\<exists>i < index. op_name (cw_ops cw ! i) = Some n \<and> values ! i = Some v) \<longleftrightarrow> j < index \<and> values ! j = Some v"
      using names assms(3) by (metis Some option.inject order_less_le_trans)
    then show ?thesis using Some assms(2,3) by (simp add: sc_raw_def stepContext_def min_def)
  qed
qed

theorem stepContext_scope_witness:
  "\<exists>cw. compileWorkflow (Some example_definition) = Inr cw
     \<and> sc_raw (stepContext demo_run cw [Some (received JNull), None] 1 ''next'') ''paid'' = Some (received JNull)"
proof -
  have n: "TrimSpace ''order'' = ''order''" by code_simp
  obtain cw where c: "compileWorkflow (Some example_definition) = Inr cw"
    by (simp add: compileWorkflow_def example_definition_def DefineWorkflow_def
        DefineWorkflowVersion_def n TrimSpace_example builder_defs empty_builder_def)
  have ops: "cw_ops cw = [opWaitEvent example_wait, opSleep 5]"
    using compileWorkflow_compiled(2) [OF c]
    by (simp add: example_definition_def DefineWorkflow_def DefineWorkflowVersion_def TrimSpace_example example_wait_def)
  show ?thesis
    using c stepContext_scope [OF c, of "[Some (received JNull), None]" 1 demo_run "''next''" "''paid''" "received JNull"]
    by (auto simp: ops example_wait_def)
qed

section \<open>Checkpointed operations\<close>

text \<open>Two workflows that differ only in operations at recorded positions.\<close>

definition same_pending :: "(nat \<Rightarrow> bool) \<Rightarrow> compiledWorkflow \<Rightarrow> compiledWorkflow \<Rightarrow> bool" where
  "same_pending recorded cw cw' \<longleftrightarrow>
     length (cw_ops cw') = length (cw_ops cw) \<and> cw_names cw' = cw_names cw
   \<and> cw_outputIndex cw' = cw_outputIndex cw
   \<and> (\<forall>i < length (cw_ops cw). \<not> recorded i \<longrightarrow> cw_ops cw' ! i = cw_ops cw ! i)"

lemma stepContext_same: "same_pending known cw cw' \<Longrightarrow> stepContext run cw' values index name = stepContext run cw values index name"
  by (simp add: stepContext_def same_pending_def)

lemma drive_op_same:
  assumes "same_pending known cw cw'"
  shows "drive_op pg run cw' env index values op d clk = drive_op pg run cw env index values op d clk"
proof -
  have "length (cw_ops cw') = length (cw_ops cw)" using assms by (simp add: same_pending_def)
  then show ?thesis by (cases op) (simp_all only: drive_op.simps stepContext_same [OF assms])
qed

lemma drive_op_values:
  assumes "drive_op pg run cw env index values op d clk = (Continue values', d')"
  shows "\<exists>v. values' = values[index := Some v]"
  using assms by (cases op) (auto split: sum.splits prod.splits option.splits if_splits)

lemma drive_body_values:
  assumes "drive_body pg run cw env index values st = (Continue values', st')"
  shows "length values' = length values" and "values ! i \<noteq> None \<Longrightarrow> values' ! i \<noteq> None"
    and "index < length values \<Longrightarrow> values' ! index \<noteq> None"
proof -
  consider "values' = values" "values ! index \<noteq> None" | v where "values' = values[index := Some v]"
    using assms drive_op_values unfolding drive_body_def
    by (auto simp: Let_def split: if_splits prod.splits) blast
  note split = this
  show "length values' = length values" using split by cases auto
  have keep: "xs ! i \<noteq> None \<Longrightarrow> xs[index := Some v] ! i \<noteq> None" for xs :: "json option list" and v
    by (cases "i = index \<and> index < length xs") (auto simp: nth_list_update_neq, metis list_update_beyond not_le_imp_less nth_list_update_neq)
  from split show "values ! i \<noteq> None \<Longrightarrow> values' ! i \<noteq> None" by cases (use keep in simp_all)
  show "index < length values \<Longrightarrow> values' ! index \<noteq> None" using split by cases auto
qed

lemma drive_loop_same:
  assumes "same_pending known cw cw'" "\<And>i. i < length (cw_ops cw) \<Longrightarrow> known i \<Longrightarrow> vals ! i \<noteq> None"
  shows "drive_loop pg run cw' env index vals st = drive_loop pg run cw env index vals st"
  using assms
proof (induction pg run cw env index vals st rule: drive_loop.induct)
  case (1 pg run cw env index vals st)
  have len: "length (cw_ops cw') = length (cw_ops cw)" "cw_outputIndex cw' = cw_outputIndex cw"
    using "1.prems"(1) by (simp_all add: same_pending_def)
  show ?case
  proof (cases "length (cw_ops cw) \<le> index")
    case True
    then show ?thesis by (simp add: drive_loop.simps len complete_run_def)
  next
    case False
    have body: "drive_body pg run cw' (env index) index vals st = drive_body pg run cw (env index) index vals st"
    proof (cases "vals ! index = None")
      case True
      then have "\<not> known index" using "1.prems"(2) [of index] False by auto
      then have "cw_ops cw' ! index = cw_ops cw ! index"
        using "1.prems"(1) False by (simp add: same_pending_def)
      then show ?thesis by (simp add: drive_body_def drive_op_same [OF "1.prems"(1)])
    qed (simp add: drive_body_def)
    have "drive_loop pg run cw' env (Suc index) vals' st' = drive_loop pg run cw env (Suc index) vals' st'"
      if "drive_body pg run cw (env index) index vals st = (Continue vals', st')" for vals' st'
      using "1.IH" [OF False that [symmetric] refl "1.prems"(1)] drive_body_values(2) [OF that] "1.prems"(2) by blast
    then show ?thesis
      using False by (subst (1 2) drive_loop.simps) (simp add: body len split: prod.splits control.splits)
  qed
qed

text \<open>C6: A step whose result is recorded is never executed again: executing a claim does not
  depend on the code of the operations that have a checkpoint.  Replacing the workflow by one
  with different functions at these positions changes neither the result nor the tables.\<close>

theorem executeClaim_skips_recorded:
  assumes "workflow e (cr_WorkflowName run) (cr_Version run) = Some cw"
    and "same_pending (\<lambda>i. cr_checkpoints run i \<noteq> None) cw cw'"
  shows "executeClaim pg err_text (e\<lparr>e_workflows := (e_workflows e)((cr_WorkflowName run, cr_Version run) \<mapsto> cw')\<rparr>)
      run env fenv st
    = executeClaim pg err_text e run env fenv st"
proof -
  have len: "length (cw_ops cw') = length (cw_ops cw)" using assms(2) by (simp add: same_pending_def)
  then have "drive_loop pg run cw' env (cr_StepIndex run) (initial_values run cw) st
      = drive_loop pg run cw env (cr_StepIndex run) (initial_values run cw) st"
    by (intro drive_loop_same [OF assms(2)]) (simp add: initial_values_def)
  then have "drive pg (e\<lparr>e_workflows := (e_workflows e)((cr_WorkflowName run, cr_Version run) \<mapsto> cw')\<rparr>) run env st
      = drive pg e run env st"
    using assms(1) len by (simp add: drive_def workflow_def initial_values_def)
  then show ?thesis by (simp add: executeClaim_def)
qed

text \<open>An undisturbed environment, and the demo run when its first step is already recorded.\<close>

definition demo_env :: drive_env where
  "demo_env = \<lparr>de_done = False, de_world = (\<lambda>_. 0), de_others = (\<lambda>st. st), de_lag = 0, de_fault = NoFault, de_wait = WNone\<rparr>"

definition demo_panicking :: compiledWorkflow where
  "demo_panicking = demo_cw\<lparr>cw_ops := [demo_step ''a'' (\<lambda>w sc. FnPanic ''again''), cw_ops demo_cw ! 1]\<rparr>"

theorem executeClaim_skips_recorded_witness:
  "executeClaim demo_pg (\<lambda>_. '''') (demo_worker_engine\<lparr>e_workflows := (e_workflows demo_worker_engine)((''w'', 1) \<mapsto> demo_panicking)\<rparr>)
     (demo_run\<lparr>cr_checkpoints := [0 \<mapsto> JNum ''1'']\<rparr>) (\<lambda>_. demo_env) demo_env (demo_db demo_leased_row, 0)
   = executeClaim demo_pg (\<lambda>_. '''') demo_worker_engine
     (demo_run\<lparr>cr_checkpoints := [0 \<mapsto> JNum ''1'']\<rparr>) (\<lambda>_. demo_env) demo_env (demo_db demo_leased_row, 0)"
proof -
  let ?run = "demo_run\<lparr>cr_checkpoints := [0 \<mapsto> JNum ''1'']\<rparr>"
  have "workflow demo_worker_engine (cr_WorkflowName ?run) (cr_Version ?run) = Some demo_cw"
    by (simp add: workflow_def demo_worker_engine_def demo_run_def)
  moreover have "same_pending (\<lambda>i. cr_checkpoints ?run i \<noteq> None) demo_cw demo_panicking"
    by (auto simp: same_pending_def demo_panicking_def demo_cw_def less_Suc_eq)
  ultimately show ?thesis
    using executeClaim_skips_recorded [of demo_worker_engine ?run demo_cw demo_panicking] by (simp add: demo_run_def)
qed

section \<open>Completion\<close>

text \<open>
  The claim owns its run at position \<open>k\<close>; an environment that lets it work: no
  cancellation, no fault, and other processes that do not take the run away or let its lease
  run out; and an operation that succeeds in every context.
\<close>

definition claim_live :: "claimedRun \<Rightarrow> nat \<Rightarrow> dbtime \<Rightarrow> bool" where
  "claim_live run k st \<longleftrightarrow>
     (\<exists>r. run_of (fst st) (cr_ID run) = Some r \<and> owned (cr_ID run) (cr_Token run) k (snd st) r)"

definition benign :: "claimedRun \<Rightarrow> drive_env \<Rightarrow> bool" where
  "benign run env \<longleftrightarrow>
     \<not> de_done env \<and> de_fault env = NoFault
   \<and> (\<forall>k st. claim_live run k st \<longrightarrow> claim_live run k (de_others env st))"

definition succeeds :: "pg \<Rightarrow> drive_env \<Rightarrow> operation \<Rightarrow> bool" where
  "succeeds pg env op \<longleftrightarrow>
     (\<exists>step. op = opStep step
        \<and> (\<forall>sc. \<exists>raw. runStep (de_world env) sc step = Inr raw \<and> jsonb_in pg raw \<noteq> None))"

definition completed_at :: "claimedRun \<Rightarrow> nat \<Rightarrow> db \<Rightarrow> bool" where
  "completed_at run k d \<longleftrightarrow>
     (\<exists>r v. run_of d (cr_ID run) = Some r \<and> state r = RunCompleted \<and> step_index r = Suc k
        \<and> output_json r = Some v \<and> checkpoint_of (checkpoints d) (cr_ID run) k = Some v)"

lemma claim_live_mono: "claim_live run k st \<Longrightarrow> k \<le> m \<Longrightarrow> claim_live run m st"
  by (auto simp: claim_live_def owned_def)

lemma commit_live:
  assumes "claim_live run k (d, clk)" "jsonb_in pg raw = Some w"
  shows "\<exists>v d'. commitStep_op pg NoFault now clk run k raw complete d = (Inr v, d')
    \<and> (if complete then completed_at run k d' else claim_live run (Suc k) (d', clk))"
proof -
  obtain r where r: "run_of d (cr_ID run) = Some r" "owned (cr_ID run) (cr_Token run) k clk r"
    using assms(1) by (auto simp: claim_live_def)
  have "list_ex (owned (cr_ID run) (cr_Token run) k clk) (runs d)"
    using r row_with_SomeD [OF r(1)] by (auto simp: list_ex_iff)
  then obtain d' where cm: "commitStep pg now clk (cr_ID run) (cr_Token run) k raw complete d
      = Inr (Some (checkpoint_of (checkpoints d) (cr_ID run) k), d')"
    using assms(2) by (simp add: commitStep_def Let_def)
  let ?out = "case checkpoint_of (checkpoints d) (cr_ID run) k of Some x \<Rightarrow> x | None \<Rightarrow> w"
  let ?r = "r\<lparr>step_index := Suc k, last_error := None, lease_failures := 0, updated_at := now,
      state := (if complete then RunCompleted else state r), output_json := (if complete then Some ?out else None),
      lease_token := (if complete then None else lease_token r), lease_until := (if complete then None else lease_until r)\<rparr>"
  have "run_of d' (cr_ID run) = Some ?r \<and> checkpoint_of (checkpoints d') (cr_ID run) k = Some ?out"
    using cm
  proof (cases rule: commitStep_cases)
    case (owned u out)
    have u: "u = w" using owned(1) assms(2) by simp
    note u = u owned(6) [unfolded u]
    have "run_of d' (cr_ID run) = Some ?r" unfolding owned(7) by (simp add: run_of_update r u(2))
    moreover have "checkpoint_of (checkpoints d') (cr_ID run) k = Some ?out"
      unfolding owned(4) u(1) by (simp add: checkpoint_of_insert split: option.split)
    ultimately show ?thesis ..
  qed simp
  then have row: "run_of d' (cr_ID run) = Some ?r" and cp: "checkpoint_of (checkpoints d') (cr_ID run) k = Some ?out"
    by blast+
  have "completed_at run k d'" if complete
    unfolding completed_at_def using row cp that by simp
  moreover have "claim_live run (Suc k) (d', clk)" if "\<not> complete"
    unfolding claim_live_def using row r(2) that by (simp add: owned_def fence_def)
  ultimately have "if complete then completed_at run k d' else claim_live run (Suc k) (d', clk)" by simp
  moreover obtain v where "commitStep_op pg NoFault now clk run k raw complete d = (Inr v, d')"
    using cm by (cases "checkpoint_of (checkpoints d) (cr_ID run) k") (simp_all add: commitStep_op_def exec_def)
  ultimately show ?thesis by blast
qed

lemma drive_body_succeeds [consumes 6, case_names finished more]:
  assumes "claim_live run index st" "benign run env" "index < length (cw_ops cw)" "length values = length (cw_ops cw)"
    and "values ! index = None" "succeeds pg env (cw_ops cw ! index)"
  obtains (finished) d clk where "drive_body pg run cw env index values st = (Return None, (d, clk))"
      "Suc index = length (cw_ops cw)" "completed_at run index d"
  | (more) v st' where "drive_body pg run cw env index values st = (Continue (values[index := Some v]), st')"
      "Suc index \<noteq> length (cw_ops cw)" "claim_live run (Suc index) st'"
proof -
  obtain d clk where st: "de_others env st = (d, clk)" by fastforce
  with assms(1,2) have live: "claim_live run index (d, clk)" by (metis benign_def)
  obtain step where step: "cw_ops cw ! index = opStep step"
    and run: "\<And>sc. \<exists>raw. runStep (de_world env) sc step = Inr raw \<and> jsonb_in pg raw \<noteq> None"
    using assms(6) by (auto simp: succeeds_def)
  obtain raw w where raw: "runStep (de_world env) (stepContext run cw values index (step_name step)) step = Inr raw"
    "jsonb_in pg raw = Some w"
    using run [of "stepContext run cw values index (step_name step)"] by blast
  obtain v d' where cm: "commitStep_op pg NoFault (clk - int (de_lag env)) clk run index raw
      (Suc index = length (cw_ops cw)) d = (Inr v, d')"
    and after: "if Suc index = length (cw_ops cw) then completed_at run index d' else claim_live run (Suc index) (d', clk)"
    using commit_live [OF live raw(2)] by blast
  have body: "drive_body pg run cw env index values st =
      (if Suc index = length (cw_ops cw) then Return None else Continue (values[index := Some v]), (d', clk))"
    using assms(2,5) raw(1) cm by (simp add: drive_body_def benign_def st step)
  show ?thesis
  proof (cases "Suc index = length (cw_ops cw)")
    case True
    with body after show ?thesis by (intro finished) simp_all
  next
    case False
    with body after show ?thesis by (intro more) simp_all
  qed
qed

lemma drive_loop_completes:
  assumes "claim_live run index st" "index < length (cw_ops cw)" "length vals = length (cw_ops cw)"
    and "vals ! (length (cw_ops cw) - 1) = None"
    and "\<And>k. index \<le> k \<Longrightarrow> k < length (cw_ops cw) \<Longrightarrow> benign run (env k)"
    and "\<And>k. index \<le> k \<Longrightarrow> k < length (cw_ops cw) \<Longrightarrow> vals ! k = None \<Longrightarrow> succeeds pg (env k) (cw_ops cw ! k)"
  shows "\<exists>d clk. drive_loop pg run cw env index vals st = (None, (d, clk))
    \<and> completed_at run (length (cw_ops cw) - 1) d"
  using assms
proof (induction "length (cw_ops cw) - index" arbitrary: index vals st)
  case (Suc n)
  note loop = drive_loop.simps [of pg run cw env index vals st]
  have b: "benign run (env index)" using Suc.prems(2,5) by simp
  show ?case
  proof (cases "vals ! index = None")
    case False
    then have body: "drive_body pg run cw (env index) index vals st = (Continue vals, st)"
      using b by (simp add: drive_body_def benign_def)
    have "index \<noteq> length (cw_ops cw) - 1" using False Suc.prems(4) by metis
    then have next_index: "Suc index < length (cw_ops cw)" using Suc.prems(2) by simp
    have "\<exists>d clk. drive_loop pg run cw env (Suc index) vals st = (None, (d, clk))
        \<and> completed_at run (length (cw_ops cw) - 1) d"
      using Suc.hyps(2) Suc.prems next_index claim_live_mono [OF Suc.prems(1), of "Suc index"]
      by (intro Suc.hyps(1)) auto
    then show ?thesis using Suc.prems(2) by (simp add: loop body)
  next
    case True
    show ?thesis
      using Suc.prems(1) b Suc.prems(2,3) True Suc.prems(6) [OF order.refl Suc.prems(2) True]
    proof (cases rule: drive_body_succeeds)
      case (finished d clk)
      then have "length (cw_ops cw) - 1 = index" by simp
      with finished show ?thesis using Suc.prems(2) by (auto simp: loop)
    next
      case (more v st')
      have "\<exists>d clk. drive_loop pg run cw env (Suc index) (vals[index := Some v]) st' = (None, (d, clk))
          \<and> completed_at run (length (cw_ops cw) - 1) d"
        using Suc.hyps(2) Suc.prems more by (intro Suc.hyps(1)) (auto simp: nth_list_update)
      then show ?thesis using Suc.prems(2) by (simp add: loop more(1))
    qed
  qed
qed simp


lemma demo_benign: "benign run demo_env"
  by (simp add: benign_def demo_env_def)

lemma demo_workflow: "workflow demo_worker_engine (cr_WorkflowName demo_run) (cr_Version demo_run) = Some demo_cw"
  by (simp add: workflow_def demo_worker_engine_def demo_run_def)

lemma demo_live: "claim_live demo_run 0 (demo_db demo_leased_row, 0)"
  by (simp add: claim_live_def demo_db_def demo_leased_row_def demo_row_def demo_run_def owned_def fence_def)


section \<open>Failed attempts\<close>

lemma sanitized_text_ok: "text_ok (sanitizeError msg)"
  using text_ok_clean [of msg] by (auto simp: sanitizeError_def Let_def text_ok_cut)

text \<open>C37: A failed attempt is recorded: when driving the run ends with an error other than a lost
  lease and the worker is not shutting down, and the claim still owns the run, then the run's
  attempt count goes up by one, it becomes failed exactly when the attempts are used up and
  ready after the back-off otherwise, the lease is given up, and the sanitized error text is
  stored; neither the position nor any checkpoint is lost.\<close>

theorem executeClaim_records_failure:
  assumes "drive pg e run env st = (Some err, st')" "err \<noteq> LostLease" "\<not> de_done fenv" "de_fault fenv = NoFault"
    and "de_others fenv st' = (d, clk)" "run_of d (cr_ID run) = Some r" "fence (cr_ID run) (cr_Token run) clk r"
    and "attempt r = cr_Attempt run" "int4_ok (attempt r + 1)"
  shows "\<exists>d' r'. executeClaim pg err_text e run env fenv st = (None, (d', clk))
    \<and> run_of d' (cr_ID run) = Some r' \<and> attempt r' = attempt r + 1
    \<and> state r' = (if max_attempts r \<le> attempt r + 1 then RunFailed else RunReady)
    \<and> last_error r' = Some (sanitizeError (err_text err)) \<and> lease_token r' = None
    \<and> next_run_at r' = clk - int (de_lag fenv) + interval_ms (milliseconds (backoffDuration (attempt r + 1)))
    \<and> step_index r' = step_index r \<and> checkpoints d' = checkpoints d"
proof -
  let ?now = "clk - int (de_lag fenv)" and ?ms = "milliseconds (backoffDuration (attempt r + 1))"
  let ?msg = "sanitizeError (err_text err)"
  let ?f = "\<lambda>r'. r'\<lparr>state := (if max_attempts r' \<le> attempt r + 1 then RunFailed else RunReady), attempt := attempt r + 1,
      next_run_at := ?now + interval_ms ?ms, last_error := Some ?msg, lease_token := None, lease_until := None, updated_at := ?now\<rparr>"
  let ?d = "d\<lparr>runs := update_where (fence (cr_ID run) (cr_Token run) clk) ?f (runs d)\<rparr>"
  have "failOrRetry err_text NoFault ?now clk run err d = (None, ?d)"
    using assms(8,9) sanitized_text_ok [of "err_text err"]
    by (simp add: failOrRetry_def Let_def exec_def failOrRetry_stmt_def fenced_update_def)
  then have "executeClaim pg err_text e run env fenv st = (None, (?d, clk))"
    using assms(1-5) by (simp add: executeClaim_def)
  moreover have "run_of ?d (cr_ID run) = Some (?f r)"
    using assms(6,7) by (simp add: run_of_update)
  ultimately show ?thesis by (intro exI [of _ ?d] exI [of _ "?f r"]) simp
qed

text \<open>The demo run when its first step panics.\<close>

definition demo_failing_engine :: Engine where
  "demo_failing_engine = demo_worker_engine\<lparr>e_workflows := [(''w'', 1) \<mapsto> demo_panicking]\<rparr>"

theorem executeClaim_records_failure_witness:
  "\<exists>d' r'. executeClaim demo_pg (\<lambda>_. ''boom'') demo_failing_engine demo_run (\<lambda>_. demo_env) demo_env (demo_db demo_leased_row, 0)
     = (None, (d', 0)) \<and> run_of d' ''r1'' = Some r' \<and> attempt r' = 1 \<and> state r' = RunReady
   \<and> last_error r' = Some (sanitizeError ''boom'') \<and> next_run_at r' = 250000"
proof -
  have drive: "drive demo_pg demo_failing_engine demo_run (\<lambda>_. demo_env) (demo_db demo_leased_row, 0)
      = (Some (StepPanicked ''a'' ''again''), (demo_db demo_leased_row, 0))"
    by (simp add: drive_def workflow_def demo_failing_engine_def demo_run_def drive_loop.simps demo_panicking_def
        demo_cw_def initial_values_def drive_body_def demo_env_def demo_step_def runStep_def executeStepSafely_def)
  show ?thesis
    using executeClaim_records_failure [OF drive, of demo_env "demo_db demo_leased_row" 0 demo_leased_row "\<lambda>_. ''boom''"]
    by (simp add: demo_env_def demo_db_def demo_leased_row_def demo_row_def demo_run_def fence_def int4_ok_def
        backoffDuration_def milliseconds_def Millisecond_def Minute_def interval_ms_def) blast
qed

end
