(* ===== verification/Worker_System.thy ===== *)
theory Worker_System
  imports Worker_Drive
begin

text \<open>
  The fleet: any number of workers that execute claims as \<open>Worker_Drive\<close> models them,
  interleaved with clients and maintenance, one database operation at a time.  A worker
  may be interrupted anywhere: a task disappears when its worker crashes, a lost response
  leaves its effect behind, and tasks of expired leases keep running against the fence.
  The theorems: the fleet refines the transition system of \<open>Run_System\<close>, so everything
  proved there holds of it; and end to end, a run that is completed has a recorded result
  for every step and wait of its workflow, and its output is the result of the last one.
\<close>

section \<open>The fleet\<close>

text \<open>A task is a claim in execution: at a position of the loop of \<open>drive\<close>, or returned.\<close>

datatype task =
    Running claimedRun nat "json option list"
  | Returned claimedRun "go_error option"

type_synonym registry = "workflowKey \<rightharpoonup> compiledWorkflow"

text \<open>The database with its clock, the running tasks by token, and every token drawn so far
  (which no operation reads).\<close>

record fleet =
  fl_db :: db
  fl_clock :: timestamptz
  fl_tasks :: "uuid \<rightharpoonup> task"
  fl_tokens :: "uuid list"

definition init_fleet :: "timestamptz \<Rightarrow> fleet" where
  "init_fleet t = \<lparr>fl_db = empty_db, fl_clock = t, fl_tasks = Map.empty, fl_tokens = []\<rparr>"

text \<open>What clients, heartbeats and maintenance do, and the passing of time.\<close>

inductive client_step :: "pg \<Rightarrow> dbtime \<Rightarrow> dbtime \<Rightarrow> bool" for pg where
  tick: "t \<le> u \<Longrightarrow> client_step pg (d, t) (d, u)"
| enqueue: "\<lbrakk>now \<le> t; insertRun pg now i name version q maxA sched input dedup channel d = Inr (res, d')\<rbrakk>
     \<Longrightarrow> client_step pg (d, t) (d', t)"
| emit: "\<lbrakk>now \<le> t; emitEvent pg now key payload ttl channel d = Inr (res, d')\<rbrakk> \<Longrightarrow> client_step pg (d, t) (d', t)"
| cancel: "\<lbrakk>now \<le> t; cancelRun pg now i d = Inr (n, d')\<rbrakk> \<Longrightarrow> client_step pg (d, t) (d', t)"
| renew: "\<lbrakk>now \<le> t; renewLeases now t ids tokens ttl d = Inr (ts, d')\<rbrakk> \<Longrightarrow> client_step pg (d, t) (d', t)"
| recover: "\<lbrakk>now \<le> t; recoverLeases locked now t d = Inr (n, d')\<rbrakk> \<Longrightarrow> client_step pg (d, t) (d', t)"
| promote: "\<lbrakk>now \<le> t; promoteTimedOut locked now channel d = Inr (res, d')\<rbrakk> \<Longrightarrow> client_step pg (d, t) (d', t)"
| prune: "\<lbrakk>now \<le> t; pruneEvents elocked now d = Inr (n, d')\<rbrakk> \<Longrightarrow> client_step pg (d, t) (d', t)"

definition start_task :: "registry \<Rightarrow> claimedRun \<Rightarrow> task option" where
  "start_task ws run =
     map_option (\<lambda>cw. Running run (cr_StepIndex run) (initial_values run cw)) (ws (cr_WorkflowName run, cr_Version run))"

definition start_tasks :: "registry \<Rightarrow> claimedRun list \<Rightarrow> (uuid \<rightharpoonup> task) \<Rightarrow> (uuid \<rightharpoonup> task)" where
  "start_tasks ws cruns tasks token =
     (case find (\<lambda>run. cr_Token run = token) cruns of Some run \<Rightarrow> start_task ws run | None \<Rightarrow> tasks token)"

definition after_body :: "claimedRun \<Rightarrow> nat \<Rightarrow> control \<Rightarrow> task" where
  "after_body run index c =
     (case c of Continue values \<Rightarrow> Running run (Suc index) values | Return r \<Rightarrow> Returned run r)"

text \<open>
  The steps.  The registry \<open>ws\<close> holds the definition of every workflow version; an engine
  knows some of them, and a version has one definition for all engines.  A task stops when
  it has returned, but also at any other time.
\<close>

inductive fleet_step :: "pg \<Rightarrow> registry \<Rightarrow> fleet \<Rightarrow> fleet \<Rightarrow> bool" for pg ws where
  client: "client_step pg (fl_db fl, fl_clock fl) (d', t')
     \<Longrightarrow> fleet_step pg ws fl (fl\<lparr>fl_db := d', fl_clock := t'\<rparr>)"
| claim: "\<lbrakk>now \<le> fl_clock fl; e_workflows e \<subseteq>\<^sub>m ws; map_order (e_workflows e) order;
     claimReadyRuns NoFault gen locked now (fl_clock fl) started order e limit (fl_db fl) = (Inr cruns, d');
     fresh_tokens gen (map cr_ID cruns) (fl_tokens fl)\<rbrakk>
     \<Longrightarrow> fleet_step pg ws fl (fl\<lparr>fl_db := d', fl_tasks := start_tasks ws cruns (fl_tasks fl),
           fl_tokens := fl_tokens fl @ map cr_Token cruns\<rparr>)"
| work: "\<lbrakk>fl_tasks fl token = Some (Running run index vals);
     ws (cr_WorkflowName run, cr_Version run) = Some cw; index < length (cw_ops cw);
     de_others env = (\<lambda>st. st);
     drive_body pg run cw env index vals (fl_db fl, fl_clock fl) = (c, (d', t'))\<rbrakk>
     \<Longrightarrow> fleet_step pg ws fl (fl\<lparr>fl_db := d', fl_tasks := (fl_tasks fl)(token \<mapsto> after_body run index c)\<rparr>)"
| complete: "\<lbrakk>fl_tasks fl token = Some (Running run index vals);
     ws (cr_WorkflowName run, cr_Version run) = Some cw; length (cw_ops cw) \<le> index;
     de_others env = (\<lambda>st. st);
     complete_run pg run cw env vals (fl_db fl, fl_clock fl) = (r, (d', t'))\<rbrakk>
     \<Longrightarrow> fleet_step pg ws fl (fl\<lparr>fl_db := d', fl_tasks := (fl_tasks fl)(token \<mapsto> Returned run r)\<rparr>)"
| fail: "\<lbrakk>fl_tasks fl token = Some (Returned run (Some err)); err \<noteq> LostLease; now \<le> fl_clock fl;
     failOrRetry err_text f now (fl_clock fl) run err (fl_db fl) = (r, d')\<rbrakk>
     \<Longrightarrow> fleet_step pg ws fl (fl\<lparr>fl_db := d', fl_tasks := (fl_tasks fl)(token := None)\<rparr>)"
| stop: "fleet_step pg ws fl (fl\<lparr>fl_tasks := (fl_tasks fl)(token := None)\<rparr>)"

section \<open>Refinement\<close>

fun task_run :: "task \<Rightarrow> claimedRun" where
  "task_run (Running run index vals) = run"
| "task_run (Returned run r) = run"

text \<open>A task and the claim of the abstract system it stands for.\<close>

definition task_claim :: "task \<Rightarrow> active \<Rightarrow> bool" where
  "task_claim tk a \<longleftrightarrow>
     cr_ID (task_run tk) = ac_id a \<and> cr_Token (task_run tk) = ac_token a
   \<and> cr_Attempt (task_run tk) = cl_attempt (ac_claim a)
   \<and> (case tk of Running run index vals \<Rightarrow> ac_index a \<le> index | Returned run r \<Rightarrow> True)"

definition simulates :: "fleet \<Rightarrow> sys \<Rightarrow> bool" where
  "simulates fl s \<longleftrightarrow>
     s_db s = fl_db fl \<and> s_clock s = fl_clock fl \<and> map ac_token (s_claims s) = fl_tokens fl
   \<and> (\<forall>token tk. fl_tasks fl token = Some tk \<longrightarrow>
        cr_Token (task_run tk) = token \<and> (\<exists>a \<in> set (s_claims s). task_claim tk a))"

lemma client_sys_step:
  assumes "client_step pg (s_db s, s_clock s) (d', t')"
  shows "sys_step pg s (s\<lparr>s_db := d', s_clock := t'\<rparr>)"
proof -
  have same: "s\<lparr>s_db := d', s_clock := s_clock s\<rparr> = s\<lparr>s_db := d'\<rparr>" "s\<lparr>s_db := s_db s, s_clock := t'\<rparr> = s\<lparr>s_clock := t'\<rparr>"
    by simp_all
  show ?thesis
    using assms
  proof (cases rule: client_step.cases)
    case tick
    then show ?thesis using sys_step.tick [of s t' pg] by simp
  qed (use sys_step.intros in \<open>auto simp: same\<close>)
qed

subsection \<open>What one operation does to the database\<close>

text \<open>
  A step or a delivered event commits; a sleep or a wait parks; everything else leaves the
  tables alone.  A committed value is either the one already recorded or the new one.
\<close>

definition committed :: "json \<Rightarrow> json option \<Rightarrow> json" where
  "committed v existing = (case existing of Some w \<Rightarrow> w | None \<Rightarrow> v)"

lemma commitStep_op_effect [consumes 1, case_names none written]:
  assumes "commitStep_op pg f now clk run index v complete d = (res, d')"
  obtains err where "res = Inl err" "d' = d"
  | existing where "commitStep pg now clk (cr_ID run) (cr_Token run) index v complete d = Inr (Some existing, d')"
      "res = Inr (committed v existing) \<or> (\<exists>err. res = Inl err)"
proof (cases "commitStep pg now clk (cr_ID run) (cr_Token run) index v complete d")
  case (Inl err)
  then show ?thesis using assms that(1) by (cases f) (auto simp: commitStep_op_def exec_def)
next
  case (Inr y)
  obtain r d'' where y: "y = (r, d'')" by (cases y)
  show ?thesis
  proof (cases r)
    case None
    then have "d'' = d" using Inr y by (auto elim: commitStep_cases)
    then show ?thesis using assms Inr y None that(1) by (cases f) (auto simp: commitStep_op_def exec_def)
  next
    case (Some existing)
    then have c: "commitStep pg now clk (cr_ID run) (cr_Token run) index v complete d = Inr (Some existing, d'')"
      using Inr y by simp
    show ?thesis
    proof (cases f)
      case (NotApplied m)
      then show ?thesis using assms that(1) by (auto simp: commitStep_op_def exec_def)
    next
      case NoFault
      then have "d' = d''" "res = Inr (committed v existing)"
        using assms c by (cases existing; simp add: commitStep_op_def exec_def committed_def)+
      with c that(2) show ?thesis by blast
    next
      case (ResponseLost m)
      then have "d' = d''" "\<exists>err. res = Inl err"
        using assms c by (auto simp: commitStep_op_def exec_def)
      with c that(2) show ?thesis by blast
    qed
  qed
qed

lemma end_wait_effect:
  "end_wait f what r d d' = (res, d'') \<Longrightarrow> d'' = d \<and> (\<exists>err. res = Inl err) \<or> d'' = d' \<and> (res = Inr r \<or> (\<exists>err. res = Inl err))"
  by (cases f) (auto simp: end_wait_def)

lemma deliver_effect [consumes 1, case_names none written]:
  assumes "deliver pg f now clk run index complete payload d = (res, d')"
  obtains err where "res = Inl err" "d' = d"
  | existing where "commitStep pg now clk (cr_ID run) (cr_Token run) index (received payload) complete d = Inr (Some existing, d')"
      "res = Inr (Some (committed (received payload) existing)) \<or> (\<exists>err. res = Inl err)"
proof -
  obtain r d1 where c: "commitStep_op pg (write_fault f) now clk run index (received payload) complete d = (r, d1)"
    by fastforce
  show ?thesis
  proof (cases r)
    case (Inl err)
    then show ?thesis using assms c by (intro that(1) [of err]) (simp_all add: deliver_def)
  next
    case (Inr stored)
    have e: "end_wait f ''commit event delivery'' (Some stored) d d1 = (res, d')"
      using assms c Inr by (simp add: deliver_def)
    from c show ?thesis
    proof (cases rule: commitStep_op_effect)
      case (written existing)
      then have "stored = committed (received payload) existing" using Inr by auto
      then show ?thesis using end_wait_effect [OF e] written(1) that by auto
    qed (simp add: Inr)
  qed
qed

lemma park_effect [consumes 1, case_names none parked]:
  assumes "park f now clk run index key timeout d = (res, d')"
  obtains err where "res = Inl err" "d' = d"
  | n where "parkWait now clk (cr_ID run) (cr_Token run) index key (milliseconds timeout) d = Inr (n, d')"
      "res = Inr None \<or> (\<exists>err. res = Inl err)"
proof -
  obtain r d1 where c: "exec (write_fault f) (parkWait now clk (cr_ID run) (cr_Token run) index key (milliseconds timeout)) d = (r, d1)"
    by fastforce
  show ?thesis
  proof (cases r)
    case (Inl err)
    then show ?thesis using assms c that(1) by (auto simp: park_def)
  next
    case (Inr n)
    have w: "parkWait now clk (cr_ID run) (cr_Token run) index key (milliseconds timeout) d = Inr (n, d1)"
      using c Inr by (auto simp: exec_def write_fault_def split: wait_fault.splits sum.splits)
    show ?thesis
    proof (cases "fenced n")
      case None
      then have "end_wait f ''commit wait'' None d d1 = (res, d')" using assms c Inr by (simp add: park_def)
      from end_wait_effect [OF this] show ?thesis
      proof (elim disjE exE conjE)
        show ?thesis if "res = Inl err" "d' = d" for err using that by (rule \<open>\<And>err. res = Inl err \<Longrightarrow> d' = d \<Longrightarrow> thesis\<close>)
      qed (use w that(2) in auto)
    next
      case (Some err)
      then show ?thesis using assms c Inr that(1) by (auto simp: park_def)
    qed
  qed
qed

lemma waitForEvent_effect [consumes 1, case_names none delivered parked]:
  assumes "waitForEvent pg f now clk run index key timeout complete d = (res, d')"
  obtains err where "res = Inl err" "d' = d"
  | payload existing where "latestEvent now key d = Inr (Some payload)"
      "commitStep pg now clk (cr_ID run) (cr_Token run) index (received payload) complete d = Inr (Some existing, d')"
      "res = Inr (Some (committed (received payload) existing)) \<or> (\<exists>err. res = Inl err)"
  | n where "latestEvent now key d = Inr None"
      "parkWait now clk (cr_ID run) (cr_Token run) index key (milliseconds timeout) d = Inr (n, d')"
      "res = Inr None \<or> (\<exists>err. res = Inl err)"
proof -
  have "(\<exists>err. res = Inl err) \<and> d' = d
      \<or> (\<exists>payload. latestEvent now key d = Inr (Some payload) \<and> deliver pg f now clk run index complete payload d = (res, d'))
      \<or> latestEvent now key d = Inr None \<and> park f now clk run index key timeout d = (res, d')"
    using assms by (auto simp: waitForEvent_def split: wait_fault.splits if_splits sum.splits option.splits)
  then consider err where "res = Inl err" "d' = d"
    | payload where "latestEvent now key d = Inr (Some payload)" "deliver pg f now clk run index complete payload d = (res, d')"
    | "latestEvent now key d = Inr None" "park f now clk run index key timeout d = (res, d')"
    by blast
  then show ?thesis
  proof cases
    case 1
    then show ?thesis by (rule that(1))
  next
    case (2 payload)
    from 2(2) show ?thesis by (cases rule: deliver_effect) (rule that(1), assumption+, rule that(2) [OF 2(1)], assumption+)
  next
    case 3
    from 3(2) show ?thesis by (cases rule: park_effect) (rule that(1), assumption+, rule that(3) [OF 3(1)], assumption+)
  qed
qed

lemma exec_effect:
  assumes "exec f stmt d = (res, d')"
  shows "d' = d \<or> (\<exists>r. stmt d = Inr (r, d'))"
  using assms by (cases f) (auto simp: exec_def split: sum.splits)

lemma parkForSleep_effect:
  assumes "parkForSleep f now clk run next dur d = (res, d')"
  shows "d' = d \<or> (\<exists>n. parkSleep now clk (cr_ID run) (cr_Token run) next (milliseconds dur) d = Inr (n, d'))"
proof -
  obtain r d1 where e: "exec f (parkSleep now clk (cr_ID run) (cr_Token run) next (milliseconds dur)) d = (r, d1)"
    by fastforce
  then have "d' = d1" using assms by (auto simp: parkForSleep_def split: sum.splits)
  with exec_effect [OF e] show ?thesis by blast
qed

inductive op_effect ::
    "pg \<Rightarrow> claimedRun \<Rightarrow> compiledWorkflow \<Rightarrow> timestamptz \<Rightarrow> timestamptz \<Rightarrow> nat \<Rightarrow> json option list \<Rightarrow> operation
     \<Rightarrow> db \<Rightarrow> control \<Rightarrow> db \<Rightarrow> bool" for pg run cw now clk index vals op d where
  none: "op_effect pg run cw now clk index vals op d (Return r) d"
| commit: "\<lbrakk>op_name op \<noteq> None;
     commitStep pg now clk (cr_ID run) (cr_Token run) index v (Suc index = length (cw_ops cw)) d = Inr (Some existing, d');
     (\<exists>r. c = Return r) \<or> Suc index \<noteq> length (cw_ops cw) \<and> c = Continue (vals[index := Some (committed v existing)])\<rbrakk>
     \<Longrightarrow> op_effect pg run cw now clk index vals op d c d'"
| sleep: "\<lbrakk>op_name op = None; parkSleep now clk (cr_ID run) (cr_Token run) (Suc index) ms d = Inr (n, d')\<rbrakk>
     \<Longrightarrow> op_effect pg run cw now clk index vals op d (Return r) d'"
| wait: "\<lbrakk>latestEvent now key d = Inr None; parkWait now clk (cr_ID run) (cr_Token run) index key ms d = Inr (n, d')\<rbrakk>
     \<Longrightarrow> op_effect pg run cw now clk index vals op d (Return r) d'"

lemma drive_step_effect:
  assumes "drive_op pg run cw env index vals (opStep step) d clk = (c, d')"
  shows "op_effect pg run cw (clk - int (de_lag env)) clk index vals (opStep step) d c d'"
proof (cases "runStep (de_world env) (stepContext run cw vals index (step_name step)) step")
  case (Inl err)
  then show ?thesis using assms op_effect.none by auto
next
  case (Inr raw)
  obtain r d1 where cm: "commitStep_op pg (de_fault env) (clk - int (de_lag env)) clk run index raw
      (Suc index = length (cw_ops cw)) d = (r, d1)" by fastforce
  have c: "d' = d1" "c = (case r of Inl err \<Rightarrow> Return (Some err) | Inr v \<Rightarrow>
      if Suc index = length (cw_ops cw) then Return None else Continue (vals[index := Some v]))"
    using assms cm by (auto simp: Inr split: sum.splits)
  from cm show ?thesis
  proof (cases rule: commitStep_op_effect)
    case (none err)
    then show ?thesis using c by (simp add: op_effect.none)
  next
    case (written existing)
    have "(\<exists>r. c = Return r) \<or> Suc index \<noteq> length (cw_ops cw) \<and> c = Continue (vals[index := Some (committed raw existing)])"
      using written(2) c(2) by auto
    with written(1) show ?thesis unfolding c(1) by (intro op_effect.commit) simp_all
  qed
qed

lemma drive_wait_effect:
  assumes "drive_op pg run cw env index vals (opWaitEvent wait) d clk = (c, d')"
  shows "op_effect pg run cw (clk - int (de_lag env)) clk index vals (opWaitEvent wait) d c d'"
proof (cases "resolve wait (de_world env None) (stepContext run cw vals index (wait_name wait))")
  case (Inl err)
  then show ?thesis using assms op_effect.none by auto
next
  case (Inr key)
  obtain r d1 where wt: "waitForEvent pg (de_wait env) (clk - int (de_lag env)) clk run index key (wait_timeout wait)
      (Suc index = length (cw_ops cw)) d = (r, d1)" by fastforce
  have c: "d' = d1" "c = (case r of Inl err \<Rightarrow> Return (Some err) | Inr None \<Rightarrow> Return None | Inr (Some v) \<Rightarrow>
      if Suc index = length (cw_ops cw) then Return None else Continue (vals[index := Some v]))"
    using assms wt by (auto simp: Inr split: sum.splits option.splits)
  from wt show ?thesis
  proof (cases rule: waitForEvent_effect)
    case (none err)
    then show ?thesis using c by (simp add: op_effect.none)
  next
    case (delivered payload existing)
    have "(\<exists>r. c = Return r) \<or> Suc index \<noteq> length (cw_ops cw)
        \<and> c = Continue (vals[index := Some (committed (received payload) existing)])"
      using delivered(3) c(2) by auto
    with delivered(2) show ?thesis unfolding c(1) by (intro op_effect.commit) simp_all
  next
    case (parked n)
    obtain r' where "c = Return r'" using parked(3) c(2) by auto
    then show ?thesis using op_effect.wait [OF parked(1,2)] c(1) by simp
  qed
qed

lemma drive_op_effect:
  assumes "drive_op pg run cw env index vals op d clk = (c, d')"
  shows "op_effect pg run cw (clk - int (de_lag env)) clk index vals op d c d'"
proof (cases op)
  case (opSleep dur)
  obtain r d1 where pk: "parkForSleep (de_fault env) (clk - int (de_lag env)) clk run (index + 1) dur d = (r, d1)" by fastforce
  then have "c = Return r" "d' = d1" using assms by (auto simp: opSleep)
  moreover have "op_name op = None" by (simp add: opSleep)
  ultimately show ?thesis
    using parkForSleep_effect [OF pk] op_effect.none op_effect.sleep unfolding Suc_eq_plus1 by metis
qed (use assms drive_step_effect drive_wait_effect in simp_all)

subsection \<open>The simulation\<close>

lemma task_of_claim:
  assumes "simulates fl s" "fl_tasks fl token = Some tk"
  obtains a where "a \<in> set (s_claims s)" "task_claim tk a" "ac_token a = token"
proof -
  have "cr_Token (task_run tk) = token \<and> (\<exists>a \<in> set (s_claims s). task_claim tk a)"
    using assms by (simp add: simulates_def)
  then obtain a where "a \<in> set (s_claims s)" "task_claim tk a" "cr_Token (task_run tk) = token" by blast
  then show ?thesis using that by (auto simp: task_claim_def)
qed

text \<open>Replacing or removing the task of one token, with the claims unchanged.\<close>

lemma simulates_task:
  assumes "simulates fl s" "fl_tasks fl token = Some tk" "task_run tk' = task_run tk"
    and "\<And>a. a \<in> set (s_claims s) \<Longrightarrow> task_claim tk a \<Longrightarrow> task_claim tk' a"
    and "s_db s' = d'" "s_clock s' = fl_clock fl" "s_claims s' = s_claims s"
  shows "simulates (fl\<lparr>fl_db := d', fl_tasks := (fl_tasks fl)(token \<mapsto> tk')\<rparr>) s'"
proof -
  obtain a where "a \<in> set (s_claims s)" "task_claim tk a" using assms(1,2) by (rule task_of_claim)
  then have "\<exists>a \<in> set (s_claims s). task_claim tk' a" using assms(4) by blast
  then show ?thesis using assms(1-3,5-7) by (auto simp: simulates_def)
qed

lemma simulates_drop:
  assumes "simulates fl s" "s_db s' = d'" "s_clock s' = fl_clock fl" "s_claims s' = s_claims s"
  shows "simulates (fl\<lparr>fl_db := d', fl_tasks := (fl_tasks fl)(token := None)\<rparr>) s'"
  using assms unfolding simulates_def by auto

lemma task_claim_Returned: "task_claim tk a \<Longrightarrow> task_run tk = run \<Longrightarrow> task_claim (Returned run r) a"
  by (simp add: task_claim_def)

section \<open>Recorded progress\<close>

text \<open>
  What the tables promise about a run of a registered workflow: every step and wait before
  the cursor is recorded; and a completed run is past the last operation, with the recorded
  result of the last step or wait as its output.
\<close>

definition registry_ok :: "registry \<Rightarrow> bool" where
  "registry_ok ws \<longleftrightarrow> (\<forall>key cw. ws key = Some cw \<longrightarrow> compiled_ok cw)"

definition recorded_below :: "compiledWorkflow \<Rightarrow> nat \<Rightarrow> (nat \<rightharpoonup> json) \<Rightarrow> bool" where
  "recorded_below cw k m \<longleftrightarrow>
     k \<le> length (cw_ops cw) \<and> (\<forall>i < k. op_name (cw_ops cw ! i) \<noteq> None \<longrightarrow> m i \<noteq> None)"

definition output_of :: "compiledWorkflow \<Rightarrow> (nat \<rightharpoonup> json) \<Rightarrow> json option" where
  "output_of cw m = (case cw_outputIndex cw of Some i \<Rightarrow> m i | None \<Rightarrow> None)"

definition row_progress :: "compiledWorkflow \<Rightarrow> checkpoint_row list \<Rightarrow> run_row \<Rightarrow> bool" where
  "row_progress cw cps r \<longleftrightarrow>
     recorded_below cw (step_index r) (checkpoint_of cps (rid r))
   \<and> (state r = RunCompleted \<longrightarrow>
        step_index r = length (cw_ops cw) \<and> output_json r = output_of cw (checkpoint_of cps (rid r)))"

definition progress_ok :: "registry \<Rightarrow> db \<Rightarrow> bool" where
  "progress_ok ws d \<longleftrightarrow>
     (\<forall>r \<in> set (runs d). \<forall>cw. ws (workflow_name r, workflow_version r) = Some cw \<longrightarrow>
        row_progress cw (checkpoints d) r)"

definition grows :: "(nat \<rightharpoonup> json) \<Rightarrow> (nat \<rightharpoonup> json) \<Rightarrow> bool" where
  "grows m m' \<longleftrightarrow> (\<forall>k v. m k = Some v \<longrightarrow> m' k = Some v)"

lemma recorded_below_grows: "recorded_below cw k m \<Longrightarrow> grows m m' \<Longrightarrow> recorded_below cw k m'"
  unfolding recorded_below_def grows_def by (metis option.exhaust)

lemma output_of_grows:
  assumes "compiled_ok cw" "recorded_below cw (length (cw_ops cw)) m" "grows m m'"
  shows "output_of cw m' = output_of cw m"
proof (cases "cw_outputIndex cw")
  case (Some i)
  then have "i < length (cw_ops cw)" "op_name (cw_ops cw ! i) \<noteq> None" using assms(1) by (auto simp: compiled_ok_def)
  then obtain v where "m i = Some v" using assms(2) by (auto simp: recorded_below_def)
  then show ?thesis using assms(3) Some by (simp add: output_of_def grows_def)
qed (simp add: output_of_def)

lemma row_progress_grows:
  assumes "compiled_ok cw" "row_progress cw cps r" "grows (checkpoint_of cps (rid r)) (checkpoint_of cps' (rid r))"
    and "rid r' = rid r" "step_index r' = step_index r"
    and "state r' = RunCompleted \<Longrightarrow> state r = RunCompleted \<and> output_json r' = output_json r"
  shows "row_progress cw cps' r'"
proof -
  let ?m = "checkpoint_of cps (rid r)" and ?m' = "checkpoint_of cps' (rid r)"
  have "recorded_below cw (step_index r') ?m'"
    using assms(2,3,5) recorded_below_grows unfolding row_progress_def by metis
  moreover have "step_index r' = length (cw_ops cw) \<and> output_json r' = output_of cw ?m'" if "state r' = RunCompleted"
    using assms(2) assms(5) assms(6) [OF that] output_of_grows [OF assms(1) _ assms(3)] by (auto simp: row_progress_def)
  ultimately show ?thesis by (simp add: row_progress_def assms(4))
qed

text \<open>A statement that moves no cursor and completes no run keeps the promise.\<close>

definition cursor_frame :: "db \<Rightarrow> db \<Rightarrow> bool" where
  "cursor_frame d d' \<longleftrightarrow>
     (\<forall>r' \<in> set (runs d'). step_index r' = 0 \<and> state r' \<noteq> RunCompleted
        \<or> (\<exists>r \<in> set (runs d). same_identity r r' \<and> step_index r' = step_index r
             \<and> (state r' = RunCompleted \<longrightarrow> state r = RunCompleted \<and> output_json r' = output_json r)))"

lemma progress_frame:
  assumes "registry_ok ws" "progress_ok ws d" "cursor_frame d d'"
    and "\<And>i. grows (checkpoint_of (checkpoints d) i) (checkpoint_of (checkpoints d') i)"
  shows "progress_ok ws d'"
  unfolding progress_ok_def
proof (intro ballI allI impI)
  fix r' cw
  assume r': "r' \<in> set (runs d')" and cw: "ws (workflow_name r', workflow_version r') = Some cw"
  from bspec [OF assms(3) [unfolded cursor_frame_def] r']
  show "row_progress cw (checkpoints d') r'"
  proof (elim disjE bexE conjE)
    assume "step_index r' = 0" "state r' \<noteq> RunCompleted"
    then show ?thesis by (simp add: row_progress_def recorded_below_def)
  next
    fix r
    assume r: "r \<in> set (runs d)" "same_identity r r'" "step_index r' = step_index r"
      "state r' = RunCompleted \<longrightarrow> state r = RunCompleted \<and> output_json r' = output_json r"
    have "ws (workflow_name r, workflow_version r) = Some cw" using cw r(2) by (simp add: same_identity_def)
    with assms(2) r(1) have "row_progress cw (checkpoints d) r" unfolding progress_ok_def by blast
    moreover have "compiled_ok cw" using assms(1) cw unfolding registry_ok_def by blast
    moreover have "rid r' = rid r" using r(2) by (simp add: same_identity_def)
    ultimately show ?thesis using r(3,4) assms(4) row_progress_grows by blast
  qed
qed

lemma cursor_frame_update:
  assumes "runs d' = update_where p f (runs d)"
    and "\<And>r. r \<in> set (runs d) \<Longrightarrow> same_identity r (f r) \<and> step_index (f r) = step_index r
      \<and> (state (f r) = RunCompleted \<longrightarrow> state r = RunCompleted \<and> output_json (f r) = output_json r)"
  shows "cursor_frame d d'"
  unfolding cursor_frame_def
proof
  fix r'
  assume "r' \<in> set (runs d')"
  then obtain r where r: "r \<in> set (runs d)" "r' = (if p r then f r else r)"
    unfolding assms(1) set_update_where by blast
  have "same_identity r r" by (simp add: same_identity_def)
  with r assms(2) [OF r(1)] show "step_index r' = 0 \<and> state r' \<noteq> RunCompleted
      \<or> (\<exists>r \<in> set (runs d). same_identity r r' \<and> step_index r' = step_index r
           \<and> (state r' = RunCompleted \<longrightarrow> state r = RunCompleted \<and> output_json r' = output_json r))"
    by (intro disjI2 bexI [of _ r]) auto
qed

lemma cursor_frame_refl: "runs d' = runs d \<Longrightarrow> cursor_frame d d'"
  by (rule cursor_frame_update [where p = "\<lambda>_. False" and f = "\<lambda>r. r"])
     (simp_all add: update_where_none same_identity_def)

lemma insertRun_frame:
  assumes "insertRun pg now i name version q maxA sched input dedup channel d = Inr (res, d')"
  shows "cursor_frame d d'"
  using assms
proof (cases rule: insertRun_cases)
  case (existing r k)
  then show ?thesis by (intro cursor_frame_update) (auto simp: same_identity_def)
next
  case (inserted u inp due nts)
  have "same_identity r r" for r by (simp add: same_identity_def)
  then show ?thesis by (auto simp: cursor_frame_def inserted(15))
qed

lemma frame_fenced:
  assumes "fenced_update i token clk f d = Inr (n, d')"
    and "\<And>r. same_identity r (f r) \<and> step_index (f r) = step_index r \<and> state (f r) \<noteq> RunCompleted"
  shows "cursor_frame d d'"
  using assms by (intro cursor_frame_update [where f = f]) (auto simp: fenced_update_def)

lemma failOrRetry_frame:
  assumes "failOrRetry_stmt now clk i token att ms msg d = Inr (n, d')"
  shows "cursor_frame d d'"
  using assms unfolding failOrRetry_stmt_def
  by (auto split: if_splits elim!: frame_fenced simp: same_identity_def)

lemma client_frame:
  assumes "client_step pg (d, t) (d', t')"
  shows "cursor_frame d d'"
  using assms
proof (cases rule: client_step.cases)
  case tick
  then show ?thesis by (simp add: cursor_frame_refl)
next
  case (enqueue now i name version q maxA sched input dedup channel res)
  then show ?thesis by (intro insertRun_frame)
next
  case (emit now key payload ttl channel res)
  then show ?thesis
    by - (rule cursor_frame_update, fastforce simp: emitEvent_def Let_def split: option.splits if_splits,
        auto simp: same_identity_def)
next
  case (cancel now i n)
  then obtain u where "uuid_in pg i = Some u" by (auto simp: cancelRun_def split: option.splits)
  then show ?thesis
    using cancel by (intro cursor_frame_update [where p = "cancellable u"]) (auto simp: cancelRun_def same_identity_def)
next
  case (renew now ids tokens ttl ts)
  then show ?thesis by (intro cursor_frame_update) (auto simp: renewLeases_def same_identity_def)
next
  case (recover now locked n)
  then show ?thesis by (intro cursor_frame_update) (auto simp: recoverLeases_def Let_def same_identity_def split: if_splits)
next
  case (promote now locked channel res)
  then show ?thesis by (intro cursor_frame_update) (auto simp: promoteTimedOut_def Let_def same_identity_def)
next
  case (prune now elocked n)
  then show ?thesis by (intro cursor_frame_refl) (auto simp: pruneEvents_def Let_def)
qed

subsection \<open>Values as the database stores them\<close>

text \<open>
  What is assumed of \<open>jsonb\<close>: a stored value is read back as it is, and the outcomes of
  waits that the statements build are such values.
\<close>

definition jsonb_stable :: "pg \<Rightarrow> bool" where
  "jsonb_stable pg \<longleftrightarrow>
     (\<forall>v w. jsonb_in pg v = Some w \<longrightarrow> jsonb_in pg w = Some w)
   \<and> jsonb_in pg timed_out = Some timed_out
   \<and> (\<forall>p. jsonb_in pg p = Some p \<longrightarrow> jsonb_in pg (received p) = Some (received p))"

lemma jsonb_stableD: "jsonb_stable pg \<Longrightarrow> jsonb_in pg v = Some w \<Longrightarrow> jsonb_in pg w = Some w"
  unfolding jsonb_stable_def by (elim conjE allE impE)

definition stored :: "pg \<Rightarrow> db \<Rightarrow> bool" where
  "stored pg d \<longleftrightarrow>
     (\<forall>i k v. checkpoint_of (checkpoints d) i k = Some v \<longrightarrow> jsonb_in pg v = Some v)"

lemma stored_insert:
  assumes "stored pg d" "jsonb_in pg w = Some w" "checkpoints d' = insert_checkpoint now i k w (checkpoints d)"
  shows "stored pg d'"
  using assms by (auto simp: stored_def checkpoint_of_insert split: option.splits if_splits)

lemma stored_record:
  assumes "stored pg d" "jsonb_in pg w = Some w" "checkpoints d' = record_outcomes now w rs (checkpoints d)"
  shows "stored pg d'"
  using assms by (auto simp: stored_def checkpoint_of_record_outcomes split: option.splits if_splits)

lemma stored_same: "stored pg d \<Longrightarrow> checkpoints d' = checkpoints d \<Longrightarrow> stored pg d'"
  by (simp add: stored_def)

lemma client_stored:
  assumes js: "jsonb_stable pg" and st: "stored pg d" and step: "client_step pg (d, t) (d', t')"
  shows "stored pg d'"
  using step
proof (cases rule: client_step.cases)
  case (enqueue now i name version q maxA sched input dedup channel res)
  from enqueue(3) have "checkpoints d' = checkpoints d" by (cases rule: insertRun_cases) auto
  then show ?thesis using st stored_same by blast
next
  case (emit now key payload ttl channel res)
  then obtain p rs where p: "jsonb_in pg payload = Some p" "checkpoints d' = record_outcomes now (received p) rs (checkpoints d)"
    by (auto simp: emitEvent_def Let_def split: option.splits if_splits)
  moreover have "jsonb_in pg (received p) = Some (received p)" using js p(1) unfolding jsonb_stable_def by blast
  ultimately show ?thesis using st stored_record by blast
next
  case (promote now locked channel res)
  then have "checkpoints d' = record_outcomes now timed_out (promote_picked locked now d) (checkpoints d)"
    by (auto simp: promoteTimedOut_def Let_def)
  then show ?thesis using st stored_record js unfolding jsonb_stable_def by blast
qed (use st in \<open>auto intro: stored_same simp: cancelRun_def renewLeases_def recoverLeases_def Let_def pruneEvents_def split: option.splits\<close>)

subsection \<open>Tasks and what is recorded\<close>

text \<open>The values a task holds are recorded, up to how the database stores them; and it holds a
  value for every step and wait it has passed.\<close>

definition values_ok :: "pg \<Rightarrow> compiledWorkflow \<Rightarrow> (nat \<rightharpoonup> json) \<Rightarrow> nat \<Rightarrow> json option list \<Rightarrow> bool" where
  "values_ok pg cw m index vals \<longleftrightarrow>
     length vals = length (cw_ops cw) \<and> index \<le> length (cw_ops cw)
   \<and> (\<forall>i < length (cw_ops cw). \<forall>v. vals ! i = Some v \<longrightarrow> (\<exists>w. m i = Some w \<and> jsonb_in pg v = Some w))
   \<and> (\<forall>i < index. op_name (cw_ops cw ! i) \<noteq> None \<longrightarrow> vals ! i \<noteq> None)"

definition task_row :: "db \<Rightarrow> claimedRun \<Rightarrow> bool" where
  "task_row d run \<longleftrightarrow>
     (\<exists>r. run_of d (cr_ID run) = Some r \<and> workflow_name r = cr_WorkflowName run \<and> workflow_version r = cr_Version run)"

definition task_ok :: "pg \<Rightarrow> registry \<Rightarrow> db \<Rightarrow> task \<Rightarrow> bool" where
  "task_ok pg ws d tk \<longleftrightarrow>
     task_row d (task_run tk)
   \<and> (case tk of
        Running run index vals \<Rightarrow>
          (\<exists>cw. ws (cr_WorkflowName run, cr_Version run) = Some cw
             \<and> values_ok pg cw (checkpoint_of (checkpoints d) (cr_ID run)) index vals)
      | Returned run r \<Rightarrow> True)"

definition fleet_ok :: "pg \<Rightarrow> registry \<Rightarrow> fleet \<Rightarrow> bool" where
  "fleet_ok pg ws fl \<longleftrightarrow>
     progress_ok ws (fl_db fl) \<and> stored pg (fl_db fl)
   \<and> (\<forall>token tk. fl_tasks fl token = Some tk \<longrightarrow> task_ok pg ws (fl_db fl) tk)"

lemma values_ok_recorded: "values_ok pg cw m index vals \<Longrightarrow> recorded_below cw index m"
  unfolding values_ok_def recorded_below_def
  by (metis option.distinct(1) option.exhaust order_less_le_trans)

lemma values_okD:
  assumes "values_ok pg cw m index vals" "i < length (cw_ops cw)" "vals ! i = Some v"
  shows "\<exists>w. m i = Some w \<and> jsonb_in pg v = Some w"
  using assms unfolding values_ok_def by blast

lemma values_ok_grows:
  assumes "values_ok pg cw m index vals" "grows m m'"
  shows "values_ok pg cw m' index vals"
  using assms unfolding values_ok_def grows_def by meson

lemma db_step_grows: "db_step d d' \<Longrightarrow> grows (checkpoint_of (checkpoints d) i) (checkpoint_of (checkpoints d') i)"
  by (simp add: tables_related_def grows_def)

lemma task_row_step:
  assumes "task_row d run" "db_step d d'"
  shows "task_row d' run"
proof -
  obtain r where r: "run_of d (cr_ID run) = Some r" "workflow_name r = cr_WorkflowName run" "workflow_version r = cr_Version run"
    using assms(1) by (auto simp: task_row_def)
  then obtain r' where "run_of d' (cr_ID run) = Some r'" "row_step r r'"
    using assms(2) unfolding tables_related_def by blast
  then show ?thesis using r by (auto simp: task_row_def row_step_def same_identity_def)
qed

lemma task_ok_step:
  assumes "task_ok pg ws d tk" "db_step d d'"
  shows "task_ok pg ws d' tk"
proof (cases tk)
  case (Running run index vals)
  then obtain cw where "ws (cr_WorkflowName run, cr_Version run) = Some cw"
    "values_ok pg cw (checkpoint_of (checkpoints d) (cr_ID run)) index vals" "task_row d run"
    using assms(1) by (auto simp: task_ok_def)
  then show ?thesis
    using values_ok_grows db_step_grows [OF assms(2)] task_row_step [OF _ assms(2)] by (auto simp: task_ok_def Running)
next
  case (Returned run r)
  then show ?thesis using assms task_row_step by (simp add: task_ok_def)
qed

text \<open>A statement that rewrites the row of one run.\<close>

lemma progress_rewrite:
  assumes reg: "registry_ok ws" and ok: "progress_ok ws d" and dist: "distinct (map rid (runs d))"
    and row: "run_of d i = Some r0" and cw: "ws (workflow_name r0, workflow_version r0) = Some cw"
    and d': "runs d' = update_where p f (runs d)"
    and only: "\<And>r. p r \<Longrightarrow> rid r = i" and ident: "\<And>r. same_identity r (f r)"
    and grow: "\<And>j. grows (checkpoint_of (checkpoints d) j) (checkpoint_of (checkpoints d') j)"
    and new: "p r0 \<Longrightarrow> row_progress cw (checkpoints d') (f r0)"
  shows "progress_ok ws d'"
  unfolding progress_ok_def
proof (intro ballI allI impI)
  fix r' cw'
  assume "r' \<in> set (runs d')" and cw': "ws (workflow_name r', workflow_version r') = Some cw'"
  then obtain r where r: "r \<in> set (runs d)" "r' = (if p r then f r else r)"
    unfolding d' set_update_where by blast
  have key: "workflow_name r' = workflow_name r" "workflow_version r' = workflow_version r"
    using ident [of r] r(2) by (auto simp: same_identity_def)
  show "row_progress cw' (checkpoints d') r'"
  proof (cases "p r")
    case True
    then have "r = r0" using only row row_with_distinct [OF dist r(1)] by simp
    then show ?thesis using new True r(2) cw cw' key by simp
  next
    case False
    have "row_progress cw' (checkpoints d) r" using ok r(1) cw' key unfolding progress_ok_def by simp
    moreover have "compiled_ok cw'" using reg cw' unfolding registry_ok_def by blast
    ultimately show ?thesis using row_progress_grows [of cw' "checkpoints d" r "checkpoints d'" r'] grow False r(2) by simp
  qed
qed

lemma output_last:
  assumes "compiled_ok cw" "Suc index = length (cw_ops cw)" "op_name (cw_ops cw ! index) \<noteq> None"
  shows "cw_outputIndex cw = Some index"
proof (cases "cw_outputIndex cw")
  case None
  then have "\<forall>op \<in> set (cw_ops cw). op_name op = None" using assms(1) by (simp add: compiled_ok_def)
  moreover have "cw_ops cw ! index \<in> set (cw_ops cw)" using assms(2) by (intro nth_mem) simp
  ultimately show ?thesis using assms(3) by simp
next
  case (Some k)
  then have "k < length (cw_ops cw)" "\<forall>j. k < j \<longrightarrow> j < length (cw_ops cw) \<longrightarrow> op_name (cw_ops cw ! j) = None"
    using assms(1) by (simp_all add: compiled_ok_def)
  then show ?thesis using Some assms(2,3) by (metis less_antisym lessI)
qed

lemma recorded_below_Suc:
  "recorded_below cw (Suc k) m \<longleftrightarrow>
     Suc k \<le> length (cw_ops cw) \<and> recorded_below cw k m \<and> (op_name (cw_ops cw ! k) \<noteq> None \<longrightarrow> m k \<noteq> None)"
  by (auto simp: recorded_below_def less_Suc_eq)

lemma task_rowE:
  assumes "task_row d run"
  obtains r where "run_of d (cr_ID run) = Some r" "workflow_name r = cr_WorkflowName run" "workflow_version r = cr_Version run"
    "rid r = cr_ID run"
  using assms row_with_SomeD unfolding task_row_def by metis

text \<open>A committed value.\<close>

lemma commit_progress:
  assumes reg: "registry_ok ws" and ok: "progress_ok ws d" and st: "stored pg d" and js: "jsonb_stable pg"
    and dist: "distinct (map rid (runs d))" and step: "db_step d d'"
    and row: "task_row d run" and cw: "ws (cr_WorkflowName run, cr_Version run) = Some cw"
    and vals: "values_ok pg cw (checkpoint_of (checkpoints d) (cr_ID run)) index vals" and ix: "index < length (cw_ops cw)"
    and named: "op_name (cw_ops cw ! index) \<noteq> None"
    and cm: "commitStep pg now clk (cr_ID run) (cr_Token run) index v (Suc index = length (cw_ops cw)) d = Inr (Some existing, d')"
  shows "progress_ok ws d'" and "stored pg d'"
    and "values_ok pg cw (checkpoint_of (checkpoints d') (cr_ID run)) (Suc index) (vals[index := Some (committed v existing)])"
proof -
  let ?i = "cr_ID run" and ?m = "checkpoint_of (checkpoints d) (cr_ID run)" and ?m' = "checkpoint_of (checkpoints d') (cr_ID run)"
  obtain r0 where r0: "run_of d ?i = Some r0" "workflow_name r0 = cr_WorkflowName run" "workflow_version r0 = cr_Version run" "rid r0 = ?i"
    using row by (rule task_rowE)
  have comp: "compiled_ok cw" using reg cw unfolding registry_ok_def by blast
  have grow: "grows (checkpoint_of (checkpoints d) j) (checkpoint_of (checkpoints d') j)" for j
    using step by (rule db_step_grows)
  from cm obtain w out where jv: "jsonb_in pg v = Some w" and ex: "existing = ?m index"
    and cps: "checkpoints d' = insert_checkpoint now ?i index w (checkpoints d)"
    and out: "out = committed w existing"
    and runs: "runs d' = update_where (owned ?i (cr_Token run) index clk)
        (\<lambda>r. r\<lparr>step_index := Suc index, last_error := None, lease_failures := 0, updated_at := now,
              state := (if Suc index = length (cw_ops cw) then RunCompleted else state r),
              output_json := (if Suc index = length (cw_ops cw) then Some out else None),
              lease_token := (if Suc index = length (cw_ops cw) then None else lease_token r),
              lease_until := (if Suc index = length (cw_ops cw) then None else lease_until r)\<rparr>) (runs d)"
    by (cases rule: commitStep_cases) (auto simp: committed_def)
  have mi: "?m' index = Some out"
    using ex out by (simp add: cps checkpoint_of_insert committed_def split: option.splits)
  have below: "recorded_below cw (Suc index) ?m'"
    using recorded_below_grows [OF values_ok_recorded [OF vals] grow] ix mi by (simp add: recorded_below_Suc)
  show "progress_ok ws d'"
  proof (rule progress_rewrite [OF reg ok dist r0(1) _ runs])
    show "ws (workflow_name r0, workflow_version r0) = Some cw" using cw r0 by simp
    fix r
    assume "owned ?i (cr_Token run) index clk r0"
    then have "state r0 = RunLeased" by (simp add: owned_def fence_def)
    then show "row_progress cw (checkpoints d') (r0\<lparr>step_index := Suc index, last_error := None, lease_failures := 0, updated_at := now,
              state := (if Suc index = length (cw_ops cw) then RunCompleted else state r0),
              output_json := (if Suc index = length (cw_ops cw) then Some out else None),
              lease_token := (if Suc index = length (cw_ops cw) then None else lease_token r0),
              lease_until := (if Suc index = length (cw_ops cw) then None else lease_until r0)\<rparr>)"
      using below mi output_last [OF comp _ named] by (auto simp: row_progress_def r0(4) output_of_def)
  qed (auto simp: owned_def fence_def same_identity_def grow)
  have jw: "jsonb_in pg w = Some w" using js jv by (rule jsonb_stableD)
  show "stored pg d'" using st jw cps by (rule stored_insert)
  have jout: "jsonb_in pg (committed v existing) = Some out"
    using out jv ex st by (auto simp: committed_def stored_def split: option.splits)
  have "values_ok pg cw ?m' index vals" using vals grow by (rule values_ok_grows)
  then show "values_ok pg cw ?m' (Suc index) (vals[index := Some (committed v existing)])"
    using ix mi jout by (auto simp: values_ok_def nth_list_update less_Suc_eq)
qed

text \<open>A fenced update that moves the cursor of the task's run and records nothing.\<close>

lemma fenced_progress:
  assumes reg: "registry_ok ws" and ok: "progress_ok ws d" and dist: "distinct (map rid (runs d))"
    and row: "task_row d run" and cw: "ws (cr_WorkflowName run, cr_Version run) = Some cw"
    and up: "fenced_update (cr_ID run) token clk f d = Inr (n, d')"
    and ident: "\<And>r. same_identity r (f r)" and ix: "\<And>r. step_index (f r) = k"
    and below: "recorded_below cw k (checkpoint_of (checkpoints d) (cr_ID run))"
    and fin: "\<And>r. state (f r) = RunCompleted \<Longrightarrow>
      k = length (cw_ops cw) \<and> output_json (f r) = output_of cw (checkpoint_of (checkpoints d) (cr_ID run))"
  shows "progress_ok ws d'"
proof -
  have d': "d' = d\<lparr>runs := update_where (fence (cr_ID run) token clk) f (runs d)\<rparr>"
    using up by (simp add: fenced_update_def)
  then have runs: "runs d' = update_where (fence (cr_ID run) token clk) f (runs d)" by simp
  obtain r0 where r0: "run_of d (cr_ID run) = Some r0" "workflow_name r0 = cr_WorkflowName run"
    "workflow_version r0 = cr_Version run" "rid r0 = cr_ID run"
    using row by (rule task_rowE)
  show ?thesis
  proof (rule progress_rewrite [OF reg ok dist r0(1) _ runs])
    show "ws (workflow_name r0, workflow_version r0) = Some cw" using cw r0 by simp
    have "rid (f r0) = cr_ID run" using ident [of r0] r0(4) by (simp add: same_identity_def)
    then show "row_progress cw (checkpoints d') (f r0)"
      using below fin [of r0] by (simp add: d' row_progress_def ix)
  qed (auto simp: d' fence_def ident grows_def)
qed

lemma parkSleep_progress:
  assumes "registry_ok ws" "progress_ok ws d" "distinct (map rid (runs d))" "task_row d run"
    and "ws (cr_WorkflowName run, cr_Version run) = Some cw"
    and "recorded_below cw (Suc index) (checkpoint_of (checkpoints d) (cr_ID run))"
    and "parkSleep now clk (cr_ID run) (cr_Token run) (Suc index) ms d = Inr (n, d')"
  shows "progress_ok ws d'"
  by (rule fenced_progress [OF assms(1-5) assms(7) [unfolded parkSleep_def] _ _ assms(6)])
     (simp_all add: same_identity_def)

lemma parkWait_progress:
  assumes "registry_ok ws" "progress_ok ws d" "distinct (map rid (runs d))" "task_row d run"
    and "ws (cr_WorkflowName run, cr_Version run) = Some cw"
    and "recorded_below cw index (checkpoint_of (checkpoints d) (cr_ID run))"
    and "parkWait now clk (cr_ID run) (cr_Token run) index key ms d = Inr (n, d')"
  shows "progress_ok ws d'"
proof -
  have "fenced_update (cr_ID run) (cr_Token run) clk
        (\<lambda>r. r\<lparr>state := RunWaitingEvent, step_index := index, waiting_event_key := Some key,
              waiting_deadline := Some (now + interval_ms ms), lease_token := None,
              lease_until := None, last_error := None, lease_failures := 0,
              updated_at := now\<rparr>) d = Inr (n, d')"
    using assms(7) by (simp add: parkWait_def split: if_splits)
  from fenced_progress [OF assms(1-5) this _ _ assms(6)] show ?thesis by (simp add: same_identity_def)
qed

lemma completeRun_progress:
  assumes reg: "registry_ok ws" and ok: "progress_ok ws d" and dist: "distinct (map rid (runs d))" and row: "task_row d run"
    and cw: "ws (cr_WorkflowName run, cr_Version run) = Some cw"
    and vals: "values_ok pg cw (checkpoint_of (checkpoints d) (cr_ID run)) (length (cw_ops cw)) vals"
    and cr: "completeRun pg now clk (cr_ID run) (cr_Token run) (length (cw_ops cw))
      (case cw_outputIndex cw of Some i \<Rightarrow> vals ! i | None \<Rightarrow> None) d = Inr (n, d')"
  shows "progress_ok ws d'"
proof -
  let ?m = "checkpoint_of (checkpoints d) (cr_ID run)"
  let ?f = "\<lambda>r. r\<lparr>state := RunCompleted, step_index := length (cw_ops cw), output_json := output_of cw ?m,
                  lease_token := None, lease_until := None, last_error := None, updated_at := now\<rparr>"
  have "fenced_update (cr_ID run) (cr_Token run) clk ?f d = Inr (n, d')"
  proof (cases "cw_outputIndex cw")
    case None
    then show ?thesis using cr by (simp add: completeRun_def output_of_def)
  next
    case (Some i)
    have "compiled_ok cw" using reg cw unfolding registry_ok_def by blast
    then have i: "i < length (cw_ops cw)" "op_name (cw_ops cw ! i) \<noteq> None" using Some by (simp_all add: compiled_ok_def)
    then obtain v where v: "vals ! i = Some v" using vals by (auto simp: values_ok_def)
    then obtain w where "?m i = Some w" "jsonb_in pg v = Some w" using values_okD [OF vals i(1)] by blast
    then show ?thesis using cr Some v by (simp add: completeRun_def output_of_def)
  qed
  from fenced_progress [OF reg ok dist row cw this _ _ values_ok_recorded [OF vals]]
  show ?thesis by (simp add: same_identity_def)
qed

text \<open>Any effect of an operation.\<close>

lemma op_effect_progress:
  assumes reg: "registry_ok ws" and ok: "progress_ok ws d" and st: "stored pg d" and js: "jsonb_stable pg"
    and dist: "distinct (map rid (runs d))" and step: "db_step d d'"
    and row: "task_row d run" and cw: "ws (cr_WorkflowName run, cr_Version run) = Some cw"
    and vals: "values_ok pg cw (checkpoint_of (checkpoints d) (cr_ID run)) index vals" and ix: "index < length (cw_ops cw)"
    and eff: "op_effect pg run cw now clk index vals (cw_ops cw ! index) d c d'"
  shows "progress_ok ws d'" and "stored pg d'"
    and "c = Continue vals' \<Longrightarrow> values_ok pg cw (checkpoint_of (checkpoints d') (cr_ID run)) (Suc index) vals'"
proof -
  note below = values_ok_recorded [OF vals]
  have "progress_ok ws d' \<and> stored pg d'
      \<and> (c = Continue vals' \<longrightarrow> values_ok pg cw (checkpoint_of (checkpoints d') (cr_ID run)) (Suc index) vals')"
    using eff
  proof (cases rule: op_effect.cases)
    case (none r)
    then show ?thesis using ok st by simp
  next
    case (commit v existing)
    show ?thesis
      using commit_progress [OF reg ok st js dist step row cw vals ix commit(1,2)] commit(3) by auto
  next
    case (sleep ms n r)
    have "recorded_below cw (Suc index) (checkpoint_of (checkpoints d) (cr_ID run))"
      using below sleep(2) ix by (simp add: recorded_below_Suc)
    from parkSleep_progress [OF reg ok dist row cw this sleep(3)]
    show ?thesis using sleep stored_same [OF st] by (auto simp: parkSleep_def fenced_update_def)
  next
    case (wait key ms n r)
    from parkWait_progress [OF reg ok dist row cw below wait(3)]
    show ?thesis using wait stored_same [OF st] by (auto simp: parkWait_def fenced_update_def split: if_splits)
  qed
  then show "progress_ok ws d'" "stored pg d'"
    "c = Continue vals' \<Longrightarrow> values_ok pg cw (checkpoint_of (checkpoints d') (cr_ID run)) (Suc index) vals'" by blast+
qed

section \<open>The simulation, step by step\<close>

text \<open>A step of the fleet is at most one step of the abstract system.\<close>

definition sys_move :: "pg \<Rightarrow> sys \<Rightarrow> sys \<Rightarrow> bool" where
  "sys_move pg s s' \<longleftrightarrow> s' = s \<or> sys_step pg s s'"

lemma sys_move_ok: "sys_move pg s s' \<Longrightarrow> sys_ok s \<Longrightarrow> sys_ok s' \<and> db_step (s_db s) (s_db s')"
  using sys_step_ok by (auto simp: sys_move_def)

lemma advance_mem:
  "a \<in> set cs \<Longrightarrow> ac_token a \<noteq> token \<Longrightarrow> a \<in> set (advance token k cs)"
  "a \<in> set cs \<Longrightarrow> ac_token a = token \<Longrightarrow> a\<lparr>ac_index := k\<rparr> \<in> set (advance token k cs)"
  by (auto simp: advance_def set_update_where image_iff)

lemma simulates_advance:
  assumes sim: "simulates fl s" and tk: "fl_tasks fl token = Some (Running run index vals)"
    and s': "s_db s' = d'" "s_clock s' = fl_clock fl" "s_claims s' = advance token (Suc index) (s_claims s)"
  shows "simulates (fl\<lparr>fl_db := d', fl_tasks := (fl_tasks fl)(token \<mapsto> after_body run index c)\<rparr>) s'"
proof -
  obtain a where a: "a \<in> set (s_claims s)" "task_claim (Running run index vals) a" "ac_token a = token"
    using sim tk by (rule task_of_claim)
  have "task_claim (after_body run index c) (a\<lparr>ac_index := Suc index\<rparr>)"
    using a(2) by (cases c) (simp_all add: after_body_def task_claim_def)
  then have own: "\<exists>a \<in> set (s_claims s'). task_claim (after_body run index c) a"
    unfolding s'(3) using advance_mem(2) [OF a(1,3)] by blast
  have other: "\<exists>a \<in> set (s_claims s'). task_claim tk a"
    if t: "fl_tasks fl token' = Some tk" and ne: "token' \<noteq> token" for token' tk
  proof -
    obtain b where b: "b \<in> set (s_claims s)" "task_claim tk b" "ac_token b = token'"
      using sim t by (rule task_of_claim)
    then show ?thesis unfolding s'(3) using advance_mem(1) [OF b(1)] ne by blast
  qed
  have run: "cr_Token run = token" "task_run (after_body run index c) = run"
    using a(2,3) by (auto simp: task_claim_def after_body_def split: control.splits)
  then show ?thesis
    using sim s' own other by (auto simp: simulates_def)
qed

lemma task_claim_after_Return:
  assumes "c = Return r" "task_claim (Running run index vals) a"
  shows "task_claim (after_body run index c) a"
  using assms by (simp add: after_body_def task_claim_def)

lemma op_effect_simulated:
  assumes sim: "simulates fl s" and tk: "fl_tasks fl token = Some (Running run index vals)"
    and now: "now \<le> s_clock s" and eff: "op_effect pg run cw now (s_clock s) index vals op (s_db s) c d'"
  shows "\<exists>s'. sys_move pg s s' \<and> simulates (fl\<lparr>fl_db := d', fl_tasks := (fl_tasks fl)(token \<mapsto> after_body run index c)\<rparr>) s'"
proof -
  obtain a where a: "a \<in> set (s_claims s)" "task_claim (Running run index vals) a" "ac_token a = token"
    using sim tk by (rule task_of_claim)
  then have ids: "cr_ID run = ac_id a" "cr_Token run = ac_token a" "ac_index a \<le> index"
    by (simp_all add: task_claim_def)
  have clock: "s_clock s = fl_clock fl" using sim by (simp add: simulates_def)
  have keep: "simulates (fl\<lparr>fl_db := d', fl_tasks := (fl_tasks fl)(token \<mapsto> after_body run index c)\<rparr>) s'"
    if "c = Return r" "s_db s' = d'" "s_clock s' = s_clock s" "s_claims s' = s_claims s" for s' r
    using that clock task_claim_after_Return [OF that(1)]
    by (intro simulates_task [OF sim tk]) (simp_all add: after_body_def)
  show ?thesis
    using eff
  proof (cases rule: op_effect.cases)
    case (none r)
    then show ?thesis using keep [of r s] by (auto simp: sys_move_def)
  next
    case (commit v existing)
    let ?s = "s\<lparr>s_db := d', s_claims := advance (ac_token a) (Suc index) (s_claims s)\<rparr>"
    have "sys_step pg s ?s"
      using sys_step.commit [OF now a(1) ids(3), where res = "Some existing"] commit(2) by (simp add: ids(1,2))
    moreover have "simulates (fl\<lparr>fl_db := d', fl_tasks := (fl_tasks fl)(token \<mapsto> after_body run index c)\<rparr>) ?s"
      using clock a(3) by (intro simulates_advance [OF sim tk]) simp_all
    ultimately show ?thesis by (auto simp: sys_move_def)
  next
    case (sleep ms n r)
    have "sys_step pg s (s\<lparr>s_db := d'\<rparr>)"
      using sys_step.park_sleep [OF now a(1) ids(3)] sleep(3) by (simp add: ids(1,2))
    then show ?thesis using keep [OF sleep(1), of "s\<lparr>s_db := d'\<rparr>"] by (auto simp: sys_move_def)
  next
    case (wait key ms n r)
    let ?s = "s\<lparr>s_db := d', s_parked := (if n = 0 then s_parked s else (s_parked s)(ac_id a := now))\<rparr>"
    have "sys_step pg s ?s"
      using sys_step.park_wait [OF now a(1) ids(3) wait(2)] wait(3) by (simp add: ids(1,2))
    then show ?thesis using keep [OF wait(1), of ?s] by (auto simp: sys_move_def)
  qed
qed

lemma complete_simulated:
  assumes sim: "simulates fl s" and tk: "fl_tasks fl token = Some (Running run index vals)"
    and le: "index \<le> length (cw_ops cw)" and id: "de_others env = (\<lambda>st. st)"
    and cr: "complete_run pg run cw env vals (s_db s, s_clock s) = (r, (d', t'))"
  shows "\<exists>s'. sys_move pg s s' \<and> simulates (fl\<lparr>fl_db := d', fl_tasks := (fl_tasks fl)(token \<mapsto> Returned run r)\<rparr>) s'"
proof -
  let ?out = "case cw_outputIndex cw of Some i \<Rightarrow> vals ! i | None \<Rightarrow> None"
  let ?stmt = "completeRun pg (s_clock s - int (de_lag env)) (s_clock s) (cr_ID run) (cr_Token run) (length (cw_ops cw)) ?out"
  obtain a where a: "a \<in> set (s_claims s)" "task_claim (Running run index vals) a" "ac_token a = token"
    using sim tk by (rule task_of_claim)
  then have ids: "cr_ID run = ac_id a" "cr_Token run = ac_token a" "ac_index a \<le> length (cw_ops cw)"
    using le by (simp_all add: task_claim_def)
  have clock: "s_clock s = fl_clock fl" using sim by (simp add: simulates_def)
  have now: "s_clock s - int (de_lag env) \<le> s_clock s" by simp
  obtain res d1 where ex: "exec (de_fault env) ?stmt (s_db s) = (res, d1)" by fastforce
  then have "d' = d1" using cr id by (auto simp: complete_run_def split: sum.splits)
  with exec_effect [OF ex] have "d' = s_db s \<or> (\<exists>n. ?stmt (s_db s) = Inr (n, d'))" by blast
  then have move: "sys_move pg s (s\<lparr>s_db := d'\<rparr>)"
  proof (elim disjE exE)
    fix n
    assume "?stmt (s_db s) = Inr (n, d')"
    then have "sys_step pg s (s\<lparr>s_db := d'\<rparr>)"
      unfolding ids(1,2) by (rule sys_step.complete [OF now a(1) ids(3)])
    then show ?thesis by (simp add: sys_move_def)
  qed (simp add: sys_move_def)
  have "simulates (fl\<lparr>fl_db := d', fl_tasks := (fl_tasks fl)(token \<mapsto> Returned run r)\<rparr>) (s\<lparr>s_db := d'\<rparr>)"
    using clock by (intro simulates_task [OF sim tk]) (simp_all add: task_claim_def)
  with move show ?thesis by blast
qed

lemma failOrRetry_effect:
  assumes "failOrRetry err_text f now clk run err d = (r, d')"
  obtains "d' = d"
  | ms msg n where "failOrRetry_stmt now clk (cr_ID run) (cr_Token run) (cr_Attempt run + 1) ms msg d = Inr (n, d')"
proof -
  let ?stmt = "failOrRetry_stmt now clk (cr_ID run) (cr_Token run) (cr_Attempt run + 1)
      (milliseconds (backoffDuration (cr_Attempt run + 1))) (sanitizeError (err_text err))"
  obtain res d1 where ex: "exec f ?stmt d = (res, d1)" by fastforce
  then have "d' = d1" using assms by (auto simp: failOrRetry_def Let_def split: sum.splits)
  with exec_effect [OF ex] that show ?thesis by blast
qed

lemma fail_simulated:
  assumes sim: "simulates fl s" and tk: "fl_tasks fl token = Some tk" and run: "task_run tk = run" and now: "now \<le> s_clock s"
    and fr: "failOrRetry err_text f now (s_clock s) run err (s_db s) = (r, d')"
  shows "\<exists>s'. sys_move pg s s' \<and> simulates (fl\<lparr>fl_db := d', fl_tasks := (fl_tasks fl)(token := None)\<rparr>) s'"
proof -
  obtain a where a: "a \<in> set (s_claims s)" "task_claim tk a" "ac_token a = token" using sim tk by (rule task_of_claim)
  then have ids: "cr_ID run = ac_id a" "cr_Token run = ac_token a" "cr_Attempt run = cl_attempt (ac_claim a)"
    by (simp_all add: task_claim_def run)
  have "sys_move pg s (s\<lparr>s_db := d'\<rparr>)"
    using fr
  proof (cases rule: failOrRetry_effect)
    case (2 ms msg n)
    then have "sys_step pg s (s\<lparr>s_db := d'\<rparr>)" unfolding ids by (rule sys_step.fail [OF now a(1)])
    then show ?thesis by (simp add: sys_move_def)
  qed (simp add: sys_move_def)
  moreover have "simulates (fl\<lparr>fl_db := d', fl_tasks := (fl_tasks fl)(token := None)\<rparr>) (s\<lparr>s_db := d'\<rparr>)"
    using sim by (intro simulates_drop [OF sim]) (simp_all add: simulates_def)
  ultimately show ?thesis by blast
qed

lemma claimReadyRuns_claim [consumes 1, case_names none claimed]:
  assumes "claimReadyRuns NoFault gen locked now clk started order e limit d = (Inr cruns, d')"
  obtains "cruns = []" "d' = d"
  | pred cs deadline where "claim pred gen locked now clk (e_queue e) (nat limit) (milliseconds (e_leaseTTL e)) d = Inr (cs, d')"
      "cruns = map (scan_run deadline) cs" "deadline = started + e_leaseTTL e"
proof (cases "limit \<le> 0 \<or> order = []")
  case True
  then have "cruns = []" "d' = d"
    using assms by (cases "limit \<le> 0"; simp add: claimReadyRuns_def supportedWorkflows_def)+
  then show ?thesis by (rule that(1))
next
  case False
  obtain cs d1 where q: "claimMulti gen locked now clk (e_queue e) (nat limit) (milliseconds (e_leaseTTL e))
      (map fst order) (map snd order) d = Inr (cs, d1)"
    by (simp add: claimMulti_def claim_def Let_def)
  then have "cruns = map (scan_run (started + e_leaseTTL e)) cs" "d' = d1"
    using assms False claim_query_multi [of "map fst order" "map snd order"]
    by (auto simp: claimReadyRuns_def supportedWorkflows_def exec_def)
  then show ?thesis using q that(2) [OF _ _ refl] unfolding claimMulti_def by blast
qed

lemma claim_simulated:
  assumes sim: "simulates fl s" and now: "now \<le> s_clock s"
    and cl: "claimReadyRuns NoFault gen locked now (s_clock s) started order e limit (s_db s) = (Inr cruns, d')"
    and fresh: "fresh_tokens gen (map cr_ID cruns) (fl_tokens fl)"
  shows "\<exists>s'. sys_move pg s s' \<and> simulates (fl\<lparr>fl_db := d', fl_tasks := start_tasks ws cruns (fl_tasks fl),
           fl_tokens := fl_tokens fl @ map cr_Token cruns\<rparr>) s'"
  using cl
proof (cases rule: claimReadyRuns_claim)
  case none
  then show ?thesis using sim by (intro exI [of _ s]) (simp add: sys_move_def simulates_def start_tasks_def)
next
  case (claimed pred cs deadline)
  let ?s = "s\<lparr>s_db := d', s_claims := s_claims s @ new_claims cs\<rparr>"
  have tokens: "map ac_token (s_claims s) = fl_tokens fl" using sim by (simp add: simulates_def)
  have ids: "map cr_ID cruns = map cl_id cs" "map cr_Token cruns = map cl_token cs"
    by (simp_all add: claimed(2) scan_run_def)
  have "sys_step pg s ?s" using fresh by (intro sys_step.claim [OF now claimed(1)]) (simp add: ids tokens)
  moreover have "cr_Token (task_run tk) = token \<and> (\<exists>a \<in> set (s_claims ?s). task_claim tk a)"
    if t: "start_tasks ws cruns (fl_tasks fl) token = Some tk" for token tk
  proof (cases "find (\<lambda>run. cr_Token run = token) cruns")
    case None
    then have "fl_tasks fl token = Some tk" using t by (simp add: start_tasks_def)
    then show ?thesis using sim by (auto simp: simulates_def)
  next
    case (Some run)
    then have run: "run \<in> set cruns" "cr_Token run = token" by (auto simp: find_Some_iff)
    then obtain c where c: "c \<in> set cs" "run = scan_run deadline c" by (auto simp: claimed(2))
    obtain vals where tk: "tk = Running run (cr_StepIndex run) vals" using t Some by (auto simp: start_tasks_def start_task_def)
    have "task_claim tk \<lparr>ac_claim = c, ac_index = cl_step_index c\<rparr>" by (simp add: tk task_claim_def c(2) scan_run_def)
    moreover have "\<lparr>ac_claim = c, ac_index = cl_step_index c\<rparr> \<in> set (s_claims ?s)" using c(1) by (simp add: new_claims_def)
    ultimately show ?thesis using run(2) tk by auto
  qed
  then have "simulates (fl\<lparr>fl_db := d', fl_tasks := start_tasks ws cruns (fl_tasks fl),
           fl_tokens := fl_tokens fl @ map cr_Token cruns\<rparr>) ?s"
    using sim tokens ids(2) by (simp add: simulates_def new_claims_def)
  ultimately show ?thesis by (auto simp: sys_move_def)
qed

section \<open>The fleet keeps its promises\<close>

lemma claimReadyRuns_rows:
  assumes "db_ok d" "map_order (e_workflows e) order"
    and "claimReadyRuns NoFault gen locked now clk started order e limit d = (Inr cruns, d')" "run \<in> set cruns"
  shows "\<exists>r \<in> set (runs d). claimed_from gen (started + e_leaseTTL e) d run r"
proof -
  obtain picked where picked: "picked = (if e_workflows e = Map.empty then [] else
      select_limit (\<lambda>r. (next_run_at r, rid r)) (nat limit) (claimable e locked now) (runs d))"
    and cr: "cruns = map (\<lambda>r. scan_run (started + e_leaseTTL e) (claim_result gen (checkpoints d) r)) picked"
    using claimReadyRuns_selects [OF assms(2,3)] by blast
  then obtain r where r: "r \<in> set picked" "run = scan_run (started + e_leaseTTL e) (claim_result gen (checkpoints d) r)"
    using assms(4) by auto
  have "r \<in> set (runs d)"
    using r(1) select_limitD [of r "\<lambda>r. (next_run_at r, rid r)" "nat limit"] unfolding picked by (auto split: if_splits)
  then show ?thesis using scan_run_from [OF assms(1)] r(2) by blast
qed

lemma claim_frame:
  assumes "claimReadyRuns NoFault gen locked now clk started order e limit d = (Inr cruns, d')"
  shows "cursor_frame d d'" and "checkpoints d' = checkpoints d"
proof -
  have "cursor_frame d d' \<and> checkpoints d' = checkpoints d"
    using assms
  proof (cases rule: claimReadyRuns_claim)
    case none
    then show ?thesis by (simp add: cursor_frame_refl)
  next
    case (claimed pred cs deadline)
    let ?f = "lease_row now clk (milliseconds (e_leaseTTL e)) gen"
    have d': "d' = d\<lparr>runs := update_where (\<lambda>r. rid r \<in> set (map rid (claim_picked pred locked now (e_queue e) (nat limit) d))) ?f (runs d)\<rparr>"
      using claimed(1) by (simp add: claim_def Let_def)
    have "cursor_frame d d'"
      by (rule cursor_frame_update [where f = ?f]) (simp add: d', simp add: lease_row_def same_identity_def)
    then show ?thesis by (simp add: d')
  qed
  then show "cursor_frame d d'" and "checkpoints d' = checkpoints d" by blast+
qed

lemma start_task_ok:
  assumes dok: "db_ok d" and ok: "progress_ok ws d" and st: "stored pg d"
    and r: "r \<in> set (runs d)" "claimed_from gen deadline d run r" and tk: "start_task ws run = Some tk"
  shows "task_ok pg ws d tk"
proof -
  obtain cw where cw: "ws (cr_WorkflowName run, cr_Version run) = Some cw"
    and t: "tk = Running run (cr_StepIndex run) (initial_values run cw)"
    using tk by (auto simp: start_task_def)
  have f: "cr_ID run = rid r" "cr_WorkflowName run = workflow_name r" "cr_Version run = workflow_version r"
    "cr_StepIndex run = step_index r" "cr_checkpoints run = checkpoint_of (checkpoints d) (rid r)"
    using r(2) by (simp_all add: claimed_from_def)
  have "run_of d (rid r) = Some r" using row_with_distinct [OF db_okD(1) [OF dok] r(1)] .
  then have "task_row d run" by (simp add: task_row_def f)
  moreover have "row_progress cw (checkpoints d) r" using ok r(1) cw unfolding progress_ok_def f by blast
  then have "recorded_below cw (step_index r) (checkpoint_of (checkpoints d) (rid r))" by (simp add: row_progress_def)
  then have "values_ok pg cw (checkpoint_of (checkpoints d) (cr_ID run)) (cr_StepIndex run) (initial_values run cw)"
    using st by (auto simp: values_ok_def recorded_below_def initial_values_def stored_def f)
  ultimately show ?thesis using cw by (simp add: task_ok_def t)
qed

text \<open>The other tasks are not disturbed.\<close>

lemma fleet_ok_step:
  assumes "fleet_ok pg ws fl" "db_step (fl_db fl) d'" "progress_ok ws d'" "stored pg d'"
    and "\<And>token tk. tasks token = Some tk \<Longrightarrow> fl_tasks fl token = Some tk \<or> task_ok pg ws d' tk"
    and "fl_db fl' = d'" "fl_tasks fl' = tasks"
  shows "fleet_ok pg ws fl'"
  unfolding fleet_ok_def
proof (intro conjI allI impI)
  fix token tk
  assume "fl_tasks fl' token = Some tk"
  then consider "fl_tasks fl token = Some tk" | "task_ok pg ws d' tk" using assms(5,7) by blast
  then show "task_ok pg ws (fl_db fl') tk"
  proof cases
    case 1
    then have "task_ok pg ws (fl_db fl) tk" using assms(1) unfolding fleet_ok_def by blast
    then show ?thesis using task_ok_step assms(2,6) by blast
  qed (simp add: assms(6))
qed (use assms in simp_all)

lemma drive_body_cases:
  assumes "drive_body pg run cw env index vals (d, clk) = (c, (d', t'))" "de_others env = (\<lambda>st. st)"
  obtains "c = Continue vals" "d' = d" "vals ! index \<noteq> None"
  | "op_effect pg run cw (clk - int (de_lag env)) clk index vals (cw_ops cw ! index) d c d'"
proof (cases "de_done env")
  case True
  then have "c = Return (Some CtxDone)" "d' = d" using assms(1) by (auto simp: drive_body_def)
  then show ?thesis using that(2) op_effect.none by blast
next
  case False
  show ?thesis
  proof (cases "vals ! index = None")
    case True
    then have "drive_op pg run cw env index vals (cw_ops cw ! index) d clk = (c, d')"
      using assms False by (auto simp: drive_body_def split: prod.splits)
    then show ?thesis using drive_op_effect that(2) by blast
  qed (use assms(1) False that(1) in \<open>auto simp: drive_body_def\<close>)
qed

lemma work_inv:
  assumes reg: "registry_ok ws" and js: "jsonb_stable pg" and fok: "fleet_ok pg ws fl" and sim: "simulates fl s" and sok: "sys_ok s"
    and tk: "fl_tasks fl token = Some (Running run index vals)" and cw: "ws (cr_WorkflowName run, cr_Version run) = Some cw"
    and ix: "index < length (cw_ops cw)" and id: "de_others env = (\<lambda>st. st)"
    and body: "drive_body pg run cw env index vals (fl_db fl, fl_clock fl) = (c, (d', t'))"
    and fl': "fl' = fl\<lparr>fl_db := d', fl_tasks := (fl_tasks fl)(token \<mapsto> after_body run index c)\<rparr>"
  shows "fleet_ok pg ws fl' \<and> (\<exists>s'. sys_move pg s s' \<and> simulates fl' s')"
proof -
  let ?d = "fl_db fl"
  have eqs: "s_db s = ?d" "s_clock s = fl_clock fl" using sim by (simp_all add: simulates_def)
  have dist: "distinct (map rid (runs ?d))" using sok db_okD(1) eqs(1) by (simp add: sys_ok_def)
  have tok: "task_ok pg ws ?d (Running run index vals)" and prog: "progress_ok ws ?d" and st: "stored pg ?d"
    using fok tk unfolding fleet_ok_def by blast+
  then have row: "task_row ?d run" and vok: "values_ok pg cw (checkpoint_of (checkpoints ?d) (cr_ID run)) index vals"
    using cw by (auto simp: task_ok_def)
  from body id show ?thesis
  proof (cases rule: drive_body_cases)
    case skip: 1
    have "values_ok pg cw (checkpoint_of (checkpoints ?d) (cr_ID run)) (Suc index) vals"
      using vok ix skip(3) by (auto simp: values_ok_def less_Suc_eq)
    then have "task_ok pg ws ?d (after_body run index c)"
      using row cw by (auto simp: task_ok_def after_body_def skip(1))
    then have "fleet_ok pg ws fl'"
      using fok prog st by (intro fleet_ok_step [OF fok, of ?d "(fl_tasks fl)(token \<mapsto> after_body run index c)"])
        (auto simp: fl' skip(2) split: if_splits)
    moreover have "simulates fl' s"
      unfolding fl' skip(2) using eqs
      by (intro simulates_task [OF sim tk]) (auto simp: after_body_def skip(1) task_claim_def)
    ultimately show ?thesis by (auto simp: sys_move_def)
  next
    case effect: 2
    obtain s' where s': "sys_move pg s s'" "simulates fl' s'"
      using op_effect_simulated [OF sim tk _ effect [folded eqs]] unfolding fl' by (auto simp: eqs)
    then have "s_db s' = d'" by (simp add: simulates_def fl')
    then have dstep: "db_step ?d d'" using sys_move_ok [OF s'(1) sok] eqs(1) by simp
    note p = op_effect_progress [OF reg prog st js dist dstep row cw vok ix effect]
    have "task_ok pg ws d' (after_body run index c)"
      using p(3) task_row_step [OF row dstep] cw by (cases c) (auto simp: task_ok_def after_body_def)
    then have "fleet_ok pg ws fl'"
      using p(1,2) by (intro fleet_ok_step [OF fok dstep, of "(fl_tasks fl)(token \<mapsto> after_body run index c)"])
        (auto simp: fl' split: if_splits)
    with s' show ?thesis by blast
  qed
qed

lemma complete_inv:
  assumes reg: "registry_ok ws" and fok: "fleet_ok pg ws fl" and sim: "simulates fl s" and sok: "sys_ok s"
    and tk: "fl_tasks fl token = Some (Running run index vals)" and cw: "ws (cr_WorkflowName run, cr_Version run) = Some cw"
    and ix: "length (cw_ops cw) \<le> index" and id: "de_others env = (\<lambda>st. st)"
    and cr: "complete_run pg run cw env vals (fl_db fl, fl_clock fl) = (r, (d', t'))"
    and fl': "fl' = fl\<lparr>fl_db := d', fl_tasks := (fl_tasks fl)(token \<mapsto> Returned run r)\<rparr>"
  shows "fleet_ok pg ws fl' \<and> (\<exists>s'. sys_move pg s s' \<and> simulates fl' s')"
proof -
  let ?d = "fl_db fl"
  have eqs: "s_db s = ?d" "s_clock s = fl_clock fl" using sim by (simp_all add: simulates_def)
  have dist: "distinct (map rid (runs ?d))" using sok db_okD(1) eqs(1) by (simp add: sys_ok_def)
  have tok: "task_ok pg ws ?d (Running run index vals)" and prog: "progress_ok ws ?d" and st: "stored pg ?d"
    using fok tk unfolding fleet_ok_def by blast+
  then have row: "task_row ?d run" and vok: "values_ok pg cw (checkpoint_of (checkpoints ?d) (cr_ID run)) index vals"
    using cw by (auto simp: task_ok_def)
  then have at_end: "index = length (cw_ops cw)" using ix by (simp add: values_ok_def)
  obtain s' where s': "sys_move pg s s'" "simulates fl' s'"
    using complete_simulated [OF sim tk _ id cr [folded eqs]] at_end unfolding fl' by auto
  then have "s_db s' = d'" by (simp add: simulates_def fl')
  then have dstep: "db_step ?d d'" using sys_move_ok [OF s'(1) sok] eqs(1) by simp
  let ?stmt = "completeRun pg (fl_clock fl - int (de_lag env)) (fl_clock fl) (cr_ID run) (cr_Token run) (length (cw_ops cw))
      (case cw_outputIndex cw of Some i \<Rightarrow> vals ! i | None \<Rightarrow> None)"
  obtain res d1 where ex: "exec (de_fault env) ?stmt ?d = (res, d1)" by fastforce
  then have "d' = d1" using cr id by (auto simp: complete_run_def split: sum.splits)
  with exec_effect [OF ex] have effect: "d' = ?d \<or> (\<exists>n. ?stmt ?d = Inr (n, d'))" by blast
  then have "progress_ok ws d'"
    using prog completeRun_progress [OF reg prog dist row cw vok [unfolded at_end]] by blast
  moreover have "checkpoints d' = checkpoints ?d"
    using effect by (auto simp: completeRun_def fenced_update_def split: option.splits)
  then have "stored pg d'" using st stored_same by blast
  moreover have "task_ok pg ws d' (Returned run r)" using task_row_step [OF row dstep] by (simp add: task_ok_def)
  ultimately have "fleet_ok pg ws fl'"
    by (intro fleet_ok_step [OF fok dstep, of "(fl_tasks fl)(token \<mapsto> Returned run r)"]) (auto simp: fl' split: if_splits)
  with s' show ?thesis by blast
qed

text \<open>A statement that moves no cursor, with some tasks dropped or started.\<close>

lemma frame_inv:
  assumes reg: "registry_ok ws" and fok: "fleet_ok pg ws fl" and sim: "simulates fl s" and sok: "sys_ok s"
    and mv: "\<exists>s'. sys_move pg s s' \<and> simulates fl' s'" and fr: "cursor_frame (fl_db fl) (fl_db fl')"
    and st: "stored pg (fl_db fl')"
    and tasks: "\<And>token tk. fl_tasks fl' token = Some tk \<Longrightarrow> fl_tasks fl token = Some tk \<or> task_ok pg ws (fl_db fl) tk"
  shows "fleet_ok pg ws fl' \<and> (\<exists>s'. sys_move pg s s' \<and> simulates fl' s')"
proof -
  obtain s' where s': "sys_move pg s s'" "simulates fl' s'" using mv by blast
  then have dstep: "db_step (fl_db fl) (fl_db fl')"
    using sys_move_ok [OF s'(1) sok] sim by (simp add: simulates_def)
  have "progress_ok ws (fl_db fl)" using fok by (simp add: fleet_ok_def)
  then have "progress_ok ws (fl_db fl')" using progress_frame [OF reg _ fr db_step_grows [OF dstep]] by blast
  moreover have "fl_tasks fl token = Some tk \<or> task_ok pg ws (fl_db fl') tk" if "fl_tasks fl' token = Some tk" for token tk
    using tasks [OF that] task_ok_step [OF _ dstep] by blast
  ultimately show ?thesis using fleet_ok_step [OF fok dstep _ st] mv by blast
qed

lemma started_tasks_ok:
  assumes dok: "db_ok d" and prog: "progress_ok ws d" and st: "stored pg d" and ord: "map_order (e_workflows e) order"
    and cl: "claimReadyRuns NoFault gen locked now clk started order e limit d = (Inr cruns, d')"
    and tk: "start_tasks ws cruns tasks token = Some tk"
  shows "tasks token = Some tk \<or> task_ok pg ws d tk"
proof (cases "find (\<lambda>run. cr_Token run = token) cruns")
  case (Some run)
  then have "run \<in> set cruns" by (auto simp: find_Some_iff)
  then obtain r where r: "r \<in> set (runs d)" "claimed_from gen (started + e_leaseTTL e) d run r"
    using claimReadyRuns_rows [OF dok ord cl] by blast
  have "start_task ws run = Some tk" using tk Some by (simp add: start_tasks_def)
  then show ?thesis using start_task_ok [OF dok prog st r] by blast
qed (use tk in \<open>simp add: start_tasks_def\<close>)

lemma failOrRetry_cursor:
  assumes "failOrRetry err_text f now clk run err d = (r, d')"
  shows "cursor_frame d d' \<and> checkpoints d' = checkpoints d"
  using assms
proof (cases rule: failOrRetry_effect)
  case (2 ms msg n)
  then show ?thesis using failOrRetry_frame by (auto simp: failOrRetry_stmt_def fenced_update_def split: if_splits)
qed (simp add: cursor_frame_refl)

lemma fleet_step_inv:
  assumes "fleet_step pg ws fl fl'" "registry_ok ws" "jsonb_stable pg" "fleet_ok pg ws fl" "simulates fl s" "sys_ok s"
  shows "fleet_ok pg ws fl' \<and> (\<exists>s'. sys_move pg s s' \<and> simulates fl' s')"
  using assms(1)
proof (cases rule: fleet_step.cases)
  note reg = assms(2) and js = assms(3) and fok = assms(4) and sim = assms(5) and sok = assms(6)
  have eqs: "s_db s = fl_db fl" "s_clock s = fl_clock fl" using sim by (simp_all add: simulates_def)
  have prog: "progress_ok ws (fl_db fl)" and st: "stored pg (fl_db fl)" using fok by (simp_all add: fleet_ok_def)
  {
    case (client d' t')
    have "sys_step pg s (s\<lparr>s_db := d', s_clock := t'\<rparr>)" using client(2) client_sys_step by (simp add: eqs)
    moreover have "simulates fl' (s\<lparr>s_db := d', s_clock := t'\<rparr>)" using sim by (simp add: simulates_def client(1))
    ultimately show ?thesis
      using client_frame [OF client(2)] client_stored [OF js st client(2)]
      by (intro frame_inv [OF reg fok sim sok]) (auto simp: client(1) sys_move_def)
  next
    case (claim now e order gen locked started limit cruns d')
    have dok: "db_ok (fl_db fl)" using sok eqs by (simp add: sys_ok_def)
    have "\<exists>s'. sys_move pg s s' \<and> simulates fl' s'"
      using claim_simulated [OF sim _ _ claim(6)] claim(2,5) unfolding claim(1) eqs by blast
    moreover have "fl_tasks fl token = Some tk \<or> task_ok pg ws (fl_db fl) tk"
      if "fl_tasks fl' token = Some tk" for token tk
      using started_tasks_ok [OF dok prog st claim(4,5)] that by (simp add: claim(1))
    ultimately show ?thesis
      using claim_frame [OF claim(5)] stored_same [OF st]
      by (intro frame_inv [OF reg fok sim sok]) (auto simp: claim(1))
  next
    case (work token run index vals cw env c d' t')
    then show ?thesis by (intro work_inv [OF reg js fok sim sok work(2-6)])
  next
    case (complete token run index vals cw env r d' t')
    then show ?thesis by (intro complete_inv [OF reg fok sim sok complete(2-6)])
  next
    case (fail token run err now err_text f r d')
    have "\<exists>s'. sys_move pg s s' \<and> simulates fl' s'"
      using fail_simulated [OF sim fail(2)] fail(4,5) unfolding fail(1) eqs by fastforce
    moreover note failOrRetry_cursor [OF fail(5)]
    ultimately show ?thesis
      using stored_same [OF st] by (intro frame_inv [OF reg fok sim sok]) (auto simp: fail(1) split: if_splits)
  next
    case (stop token)
    have "simulates fl' s" using sim by (auto simp: simulates_def stop)
    then show ?thesis
      using st by (intro frame_inv [OF reg fok sim sok]) (auto simp: stop sys_move_def cursor_frame_refl split: if_splits)
  }
qed

section \<open>Theorems\<close>

lemma sys_move_steps: "(sys_step pg)\<^sup>*\<^sup>* s0 s \<Longrightarrow> sys_move pg s s' \<Longrightarrow> (sys_step pg)\<^sup>*\<^sup>* s0 s'"
  by (auto simp: sys_move_def)

lemma sys_steps_ok: "(sys_step pg)\<^sup>*\<^sup>* (init_sys t) s \<Longrightarrow> sys_ok s"
  using reachable_steps [OF reachable.init] reachable_sys_ok by blast

interpretation fleets: transition_invariant "fleet_step pg ws"
    "\<lambda>fl. registry_ok ws \<and> jsonb_stable pg \<and> fleet_ok pg ws fl
       \<and> (\<exists>s. (sys_step pg)\<^sup>*\<^sup>* (init_sys t) s \<and> simulates fl s)" for pg ws t
proof unfold_locales
  fix fl fl'
  assume inv: "registry_ok ws \<and> jsonb_stable pg \<and> fleet_ok pg ws fl
       \<and> (\<exists>s. (sys_step pg)\<^sup>*\<^sup>* (init_sys t) s \<and> simulates fl s)" and step: "fleet_step pg ws fl fl'"
  then obtain s where s: "(sys_step pg)\<^sup>*\<^sup>* (init_sys t) s" "simulates fl s" by blast
  have "fleet_ok pg ws fl' \<and> (\<exists>s'. sys_move pg s s' \<and> simulates fl' s')"
    using fleet_step_inv [OF step _ _ _ s(2) sys_steps_ok [OF s(1)]] inv by blast
  then show "registry_ok ws \<and> jsonb_stable pg \<and> fleet_ok pg ws fl'
       \<and> (\<exists>s. (sys_step pg)\<^sup>*\<^sup>* (init_sys t) s \<and> simulates fl' s)"
    using inv sys_move_steps [OF s(1)] by blast
qed

lemma init_fleet_inv:
  "fleet_ok pg ws (init_fleet t) \<and> (\<exists>s. (sys_step pg)\<^sup>*\<^sup>* (init_sys t) s \<and> simulates (init_fleet t) s)"
proof -
  have "fleet_ok pg ws (init_fleet t)"
    by (simp add: fleet_ok_def init_fleet_def progress_ok_def stored_def empty_db_def checkpoint_of_def)
  moreover have "simulates (init_fleet t) (init_sys t)"
    by (simp add: simulates_def init_fleet_def init_sys_def)
  ultimately show ?thesis by blast
qed

text \<open>C3: The workers implement the abstract system: every execution of the fleet, in which claims
  are executed as the worker's code does it and interleave with clients, maintenance, crashes
  and faults, is matched by an execution of the statements of \<open>Run_System\<close> that ends with the
  same tables at the same time, with every task of the fleet backed by a claim handed out
  there.\<close>

theorem fleet_refines_system:
  assumes "(fleet_step pg ws)\<^sup>*\<^sup>* (init_fleet t) fl" "registry_ok ws" "jsonb_stable pg"
  shows "\<exists>s. (sys_step pg)\<^sup>*\<^sup>* (init_sys t) s \<and> s_db s = fl_db fl \<and> s_clock s = fl_clock fl
    \<and> (\<forall>token tk. fl_tasks fl token = Some tk \<longrightarrow> (\<exists>a \<in> set (s_claims s). ac_token a = token \<and> task_claim tk a))"
proof -
  obtain s where s: "(sys_step pg)\<^sup>*\<^sup>* (init_sys t) s" "simulates fl s"
    using fleets.steps_inv [OF assms(1), of t] assms(2,3) init_fleet_inv by blast
  then have "\<exists>a \<in> set (s_claims s). ac_token a = token \<and> task_claim tk a" if "fl_tasks fl token = Some tk" for token tk
    using task_of_claim [OF s(2) that] by blast
  then show ?thesis using s by (auto simp: simulates_def)
qed

text \<open>C2: End to end, completion means completion: in every state the fleet can reach, a run of a
  registered workflow has a recorded result for each step and wait before its position; and if
  it is completed, it is past the last operation and its output is the recorded result of the
  last step or wait of the workflow.\<close>

theorem completed_runs_have_results:
  assumes "(fleet_step pg ws)\<^sup>*\<^sup>* (init_fleet t) fl" "registry_ok ws" "jsonb_stable pg"
    and "r \<in> set (runs (fl_db fl))" "ws (workflow_name r, workflow_version r) = Some cw"
  shows "(\<forall>i < step_index r. op_name (cw_ops cw ! i) \<noteq> None \<longrightarrow> checkpoint_of (checkpoints (fl_db fl)) (rid r) i \<noteq> None)
    \<and> (state r = RunCompleted \<longrightarrow>
         step_index r = length (cw_ops cw)
       \<and> output_json r = (case cw_outputIndex cw of
            Some i \<Rightarrow> checkpoint_of (checkpoints (fl_db fl)) (rid r) i | None \<Rightarrow> None))"
proof -
  have "fleet_ok pg ws fl" using fleets.steps_inv [OF assms(1), of t] assms(2,3) init_fleet_inv by blast
  then have "row_progress cw (checkpoints (fl_db fl)) r"
    using assms(4,5) unfolding fleet_ok_def progress_ok_def by blast
  then show ?thesis by (simp add: row_progress_def recorded_below_def output_of_def)
qed

subsection \<open>A complete execution\<close>

text \<open>The demo run is enqueued, claimed, and executed to its end by one worker.\<close>

definition demo_registry :: registry where
  "demo_registry = [(''w'', 1) \<mapsto> demo_cw]"

definition demo_first :: db where
  "demo_first = (demo_db (demo_leased_row\<lparr>step_index := 1\<rparr>))\<lparr>checkpoints :=
     [\<lparr>cp_run = ''r1'', cp_index = 0, cp_value = JNum ''1'', cp_completed_at = 0\<rparr>]\<rparr>"

definition demo_completed_row :: run_row where
  "demo_completed_row = demo_leased_row\<lparr>step_index := 2, state := RunCompleted,
     output_json := Some (JArr [JNum ''1'']), lease_token := None, lease_until := None\<rparr>"

definition demo_second :: db where
  "demo_second = demo_first\<lparr>runs := [demo_completed_row], checkpoints := checkpoints demo_first @
     [\<lparr>cp_run = ''r1'', cp_index = 1, cp_value = JArr [JNum ''1''], cp_completed_at = 0\<rparr>]\<rparr>"

lemma demo_names: "TrimSpace ''a'' = ''a''" "TrimSpace ''b'' = ''b''" "TrimSpace ''w'' = ''w''"
  by code_simp+

lemma demo_registry_ok: "registry_ok demo_registry"
  by (auto simp: registry_ok_def demo_registry_def compiled_ok_def demo_cw_def demo_step_def ops_ok_def
      map_filter_def demo_names less_Suc_eq nth_Cons' split: if_splits)

lemma demo_jsonb: "jsonb_stable demo_pg"
  by (simp add: jsonb_stable_def demo_pg_def)

lemma demo_first_step:
  "drive_body demo_pg demo_run demo_cw demo_env 0 [None, None] (demo_db demo_leased_row, 0)
     = (Continue [Some (JNum ''1''), None], (demo_first, 0))"
  by (simp add: drive_body_def demo_env_def demo_cw_def demo_step_def runStep_def executeStepSafely_def commitStep_op_def
      exec_def commitStep_def demo_pg_def demo_run_def demo_db_def demo_leased_row_def demo_row_def owned_def fence_def
      checkpoint_of_def insert_checkpoint_def demo_first_def Let_def)

lemma demo_second_step:
  "drive_body demo_pg demo_run demo_cw demo_env 1 [Some (JNum ''1''), None] (demo_first, 0)
     = (Return None, (demo_second, 0))"
  by (simp add: drive_body_def demo_env_def demo_cw_def demo_step_def runStep_def executeStepSafely_def commitStep_op_def
      exec_def commitStep_def demo_pg_def demo_run_def demo_db_def demo_leased_row_def demo_row_def owned_def fence_def
      checkpoint_of_def insert_checkpoint_def demo_first_def demo_second_def demo_completed_row_def Let_def
      sc_raw_def stepContext_def)

definition demo_fleet :: "db \<Rightarrow> task option \<Rightarrow> uuid list \<Rightarrow> fleet" where
  "demo_fleet d tk tokens = \<lparr>fl_db = d, fl_clock = 0,
     fl_tasks = (case tk of None \<Rightarrow> Map.empty | Some x \<Rightarrow> [''t1'' \<mapsto> x]), fl_tokens = tokens\<rparr>"

lemma demo_fleet_steps:
  "(fleet_step demo_pg demo_registry)\<^sup>*\<^sup>* (init_fleet 0) (demo_fleet demo_second (Some (Returned demo_run None)) [''t1''])"
proof -
  let ?step = "fleet_step demo_pg demo_registry"
  let ?f0 = "demo_fleet (demo_db demo_row) None []"
  let ?f1 = "demo_fleet (demo_db demo_leased_row) (Some (Running demo_run 0 [None, None])) [''t1'']"
  let ?f2 = "demo_fleet demo_first (Some (Running demo_run 1 [Some (JNum ''1''), None])) [''t1'']"
  let ?f3 = "demo_fleet demo_second (Some (Returned demo_run None)) [''t1'']"
  have "insertRun demo_pg 0 ''r1'' ''w'' 1 ''q'' 3 None JNull (Some ''k'') ''c'' empty_db = Inr ((''r1'', 1), demo_db demo_row)"
    by (simp add: insertRun_def demo_pg_def demo_db_def demo_row_def empty_db_def int4_ok_def text_ok_letter)
  then have "client_step demo_pg (empty_db, 0) (demo_db demo_row, 0)"
    by (intro client_step.enqueue [of 0 0]) simp_all
  then have "?step (init_fleet 0) ((init_fleet 0)\<lparr>fl_db := demo_db demo_row, fl_clock := 0\<rparr>)"
    by (intro fleet_step.client) (simp add: init_fleet_def)
  then have 1: "?step (init_fleet 0) ?f0" by (simp add: init_fleet_def demo_fleet_def)
  have "?step ?f0 (?f0\<lparr>fl_db := demo_db demo_leased_row, fl_tasks := start_tasks demo_registry [demo_run] (fl_tasks ?f0),
      fl_tokens := fl_tokens ?f0 @ map cr_Token [demo_run]\<rparr>)"
    by (rule fleet_step.claim [where now = 0 and e = demo_worker_engine and gen = "\<lambda>_. ''t1''" and order = "[(''w'', 1)]"
          and locked = "\<lambda>_. False" and started = 0 and limit = 4])
       (use demo_claimReadyRuns in \<open>simp_all add: demo_fleet_def demo_worker_engine_def demo_registry_def map_order_def fresh_tokens_def\<close>)
  moreover have "start_tasks demo_registry [demo_run] Map.empty = [''t1'' \<mapsto> Running demo_run 0 [None, None]]"
    by (rule ext) (simp add: start_tasks_def start_task_def demo_run_def demo_registry_def initial_values_def demo_cw_def)
  ultimately have 2: "?step ?f0 ?f1" by (simp add: demo_fleet_def demo_run_def)
  have "?step ?f1 (?f1\<lparr>fl_db := demo_first, fl_tasks := (fl_tasks ?f1)(''t1'' \<mapsto> after_body demo_run 0 (Continue [Some (JNum ''1''), None]))\<rparr>)"
    by (rule fleet_step.work [where env = demo_env and cw = demo_cw and vals = "[None, None]"])
       (use demo_first_step in \<open>simp_all add: demo_fleet_def demo_registry_def demo_run_def demo_env_def demo_cw_def\<close>)
  then have 3: "?step ?f1 ?f2" by (simp add: demo_fleet_def after_body_def)
  have "?step ?f2 (?f2\<lparr>fl_db := demo_second, fl_tasks := (fl_tasks ?f2)(''t1'' \<mapsto> after_body demo_run 1 (Return None))\<rparr>)"
    by (rule fleet_step.work [where env = demo_env and cw = demo_cw and vals = "[Some (JNum ''1''), None]"])
       (use demo_second_step in \<open>simp_all add: demo_fleet_def demo_registry_def demo_run_def demo_env_def demo_cw_def\<close>)
  then have 4: "?step ?f2 ?f3" by (simp add: demo_fleet_def after_body_def)
  show ?thesis using 1 2 3 4 by (meson converse_rtranclp_into_rtranclp rtranclp.rtrancl_refl)
qed

theorem fleet_refines_system_witness:
  "\<exists>s. (sys_step demo_pg)\<^sup>*\<^sup>* (init_sys 0) s \<and> s_db s = demo_second \<and> s_clock s = 0"
  using fleet_refines_system [OF demo_fleet_steps demo_registry_ok demo_jsonb] by (auto simp: demo_fleet_def)

theorem completed_runs_have_results_witness:
  "state demo_completed_row = RunCompleted
   \<and> output_json demo_completed_row = checkpoint_of (checkpoints demo_second) ''r1'' 1
   \<and> checkpoint_of (checkpoints demo_second) ''r1'' 0 \<noteq> None"
proof -
  have mem: "demo_completed_row \<in> set (runs (fl_db (demo_fleet demo_second (Some (Returned demo_run None)) [''t1''])))"
    by (simp add: demo_fleet_def demo_second_def)
  have key: "demo_registry (workflow_name demo_completed_row, workflow_version demo_completed_row) = Some demo_cw"
    by (simp add: demo_registry_def demo_completed_row_def demo_leased_row_def demo_row_def)
  have row: "rid demo_completed_row = ''r1''" "step_index demo_completed_row = 2" "state demo_completed_row = RunCompleted"
    by (simp_all add: demo_completed_row_def demo_leased_row_def demo_row_def)
  have cw: "op_name (cw_ops demo_cw ! 0) \<noteq> None" "cw_outputIndex demo_cw = Some 1"
    by (simp_all add: demo_cw_def demo_step_def)
  have db: "fl_db (demo_fleet demo_second (Some (Returned demo_run None)) [''t1'']) = demo_second"
    by (simp add: demo_fleet_def)
  note result = completed_runs_have_results [OF demo_fleet_steps demo_registry_ok demo_jsonb mem key, unfolded row db cw(2)]
  from result have "output_json demo_completed_row = checkpoint_of (checkpoints demo_second) ''r1'' 1" by simp
  moreover from result cw(1) have "checkpoint_of (checkpoints demo_second) ''r1'' 0 \<noteq> None" by simp
  ultimately show ?thesis using row by simp
qed

end
