(* ===== verification/Worker_Loops.thy ===== *)
theory Worker_Loops
  imports Worker_System
begin

text \<open>
  The model of the loops of \<open>worker.go\<close> around the execution of claims: the batched
  maintenance statements, the dispatcher with its limit on running claims and its drain on
  shutdown, the notification listener, and \<open>StartWorker\<close>, which ties them together.  Timers
  and channels are the steps they enable; a channel with one slot is a flag.  The lemmas show
  that a maintenance pass works off its backlog in bounded batches, that the dispatcher never
  runs more claims than configured and counts them right through shutdown, and that new
  work wakes a worker of its queue.
\<close>

section \<open>Maintenance\<close>

text \<open>The environment of one batch: what others did before it, the age of its transaction, the
  rows others hold locked, its fault, and \<open>time.Since(started)\<close> after it.\<close>

record batch_env =
  be_others :: "dbtime \<Rightarrow> dbtime"
  be_lag :: nat
  be_locked :: "uuid \<Rightarrow> bool"
  be_locked_events :: "nat \<Rightarrow> bool"
  be_fault :: fault
  be_elapsed :: duration

fun batches ::
    "(nat \<Rightarrow> batch_env) \<Rightarrow> nat \<Rightarrow> nat \<Rightarrow> nat \<Rightarrow> (batch_env \<Rightarrow> dbtime \<Rightarrow> (pg_error + nat) \<times> dbtime) \<Rightarrow> dbtime
     \<Rightarrow> pg_error option \<times> dbtime" where
  "batches env i 0 bsize batch st = (None, st)"
| "batches env i (Suc left) bsize batch st =
     (case batch (env i) st of
        (Inl err, st') \<Rightarrow> (Some err, st')
      | (Inr n, st') \<Rightarrow>
          if n < bsize \<or> Second \<le> be_elapsed (env i) then (None, st')
          else batches env (Suc i) left bsize batch st')"

definition run_batch :: "(batch_env \<Rightarrow> timestamptz \<Rightarrow> timestamptz \<Rightarrow> nat stmt) \<Rightarrow> batch_env \<Rightarrow> dbtime \<Rightarrow> (pg_error + nat) \<times> dbtime" where
  "run_batch stmt env st =
     (let (d, clk) = be_others env st;
          (res, d') = exec (be_fault env) (stmt env (clk - int (be_lag env)) clk) d
      in (res, (d', clk)))"

text \<open>The first of the two counts that the promotion statement returns.\<close>

definition first_count :: "(nat \<times> nat) stmt \<Rightarrow> nat stmt" where
  "first_count stmt d = (case stmt d of Inl err \<Rightarrow> Inl err | Inr ((n, m), d') \<Rightarrow> Inr (n, d'))"

definition recoverExpiredLeases :: "(nat \<Rightarrow> batch_env) \<Rightarrow> dbtime \<Rightarrow> pg_error option \<times> dbtime" where
  "recoverExpiredLeases env =
     batches env 0 8 maintenanceBatch (run_batch (\<lambda>be now clk. recoverLeases (be_locked be) now clk))"

definition promoteTimedOutWaiters :: "Engine \<Rightarrow> (nat \<Rightarrow> batch_env) \<Rightarrow> dbtime \<Rightarrow> pg_error option \<times> dbtime" where
  "promoteTimedOutWaiters e env =
     batches env 0 8 maintenanceBatch
       (run_batch (\<lambda>be now clk. first_count (promoteTimedOut (be_locked be) now (e_channel e))))"

definition pruneExpiredEvents :: "(nat \<Rightarrow> batch_env) \<Rightarrow> dbtime \<Rightarrow> pg_error option \<times> dbtime" where
  "pruneExpiredEvents env =
     batches env 0 64 pruneBatch (run_batch (\<lambda>be now clk. pruneEvents (be_locked_events be) now))"

text \<open>The body of \<open>maintenanceLoop\<close>: both passes, an error of the first being only logged; and
  the loop, one pass at once and one for every tick until the context is done.\<close>

definition maintain ::
    "Engine \<Rightarrow> (nat \<Rightarrow> batch_env) \<Rightarrow> (nat \<Rightarrow> batch_env) \<Rightarrow> dbtime \<Rightarrow> pg_error option \<times> pg_error option \<times> dbtime" where
  "maintain e renv penv st =
     (let (err1, st1) = recoverExpiredLeases renv st;
          (err2, st2) = promoteTimedOutWaiters e penv st1
      in (err1, err2, st2))"

fun maintenanceLoop ::
    "Engine \<Rightarrow> (nat \<Rightarrow> batch_env) \<times> (nat \<Rightarrow> batch_env) \<Rightarrow> ((nat \<Rightarrow> batch_env) \<times> (nat \<Rightarrow> batch_env)) list \<Rightarrow> dbtime \<Rightarrow> dbtime" where
  "maintenanceLoop e (renv, penv) [] st = snd (snd (maintain e renv penv st))"
| "maintenanceLoop e (renv, penv) (tick # ticks) st =
     maintenanceLoop e tick ticks (snd (snd (maintain e renv penv st)))"

fun retentionLoop :: "(nat \<Rightarrow> batch_env) list \<Rightarrow> dbtime \<Rightarrow> dbtime" where
  "retentionLoop [] st = st"
| "retentionLoop (tick # ticks) st = retentionLoop ticks (snd (pruneExpiredEvents tick st))"

subsection \<open>Working off a backlog\<close>

text \<open>
  The contract of a batched statement: it handles as much of its backlog as fits in a
  batch, and says how much.
\<close>

locale batch_statement =
  fixes stmt :: "nat stmt" and backlog :: "db \<Rightarrow> nat" and bsize :: nat and ok :: "db \<Rightarrow> bool"
  assumes takes: "ok d \<Longrightarrow> \<exists>d'. stmt d = Inr (min bsize (backlog d), d') \<and> backlog d' = backlog d - min bsize (backlog d) \<and> ok d'"
begin

lemma batches_drain:
  assumes "ok d" and "\<And>i. be_others (env i) = (\<lambda>st. st) \<and> be_fault (env i) = NoFault \<and> be_elapsed (env i) < Second"
    and "\<And>i. f (env i) (clk - int (be_lag (env i))) clk = stmt"
  shows "\<exists>d'. batches env i left bsize (run_batch f) (d, clk) = (None, (d', clk))
    \<and> backlog d' = backlog d - left * bsize \<and> ok d'"
  using assms(1)
proof (induction left arbitrary: i d)
  case (Suc left)
  obtain d' where d': "stmt d = Inr (min bsize (backlog d), d')" "backlog d' = backlog d - min bsize (backlog d)" "ok d'"
    using takes [OF Suc.prems] by blast
  have batch: "run_batch f (env i) (d, clk) = (Inr (min bsize (backlog d)), (d', clk))"
    using assms(2) [of i] d'(1) by (simp add: run_batch_def assms(3) exec_def)
  show ?case
  proof (cases "min bsize (backlog d) < bsize")
    case True
    then have "backlog d' = 0" "backlog d < bsize" using d'(2) by auto
    then show ?thesis using True batch d' by (auto simp: algebra_simps)
  next
    case False
    then have "backlog d' = backlog d - bsize" using d'(2) by simp
    with Suc.IH [OF d'(3), of "Suc i"] show ?thesis
      using False batch assms(2) [of i] by (auto simp: not_le algebra_simps)
  qed
qed auto

end

text \<open>How many rows are left of those a selection took from.\<close>

lemma count_where_split: "count_where p rs = count_where (\<lambda>r. p r \<and> q r) rs + count_where (\<lambda>r. p r \<and> \<not> q r) rs"
  by (induction rs) (auto simp: count_where_def)

lemma count_where_picked:
  assumes "distinct (map key rs)"
  shows "count_where (\<lambda>r. p r \<and> key r \<in> set (map key (select_limit ord n p rs))) rs = min n (count_where p rs)"
proof -
  let ?picked = "select_limit ord n p rs"
  have inj: "inj_on key (set rs)" and dist: "distinct rs" using assms by (simp_all add: distinct_map)
  have "set (filter (\<lambda>r. p r \<and> key r \<in> set (map key ?picked)) rs) = set ?picked"
  proof (intro equalityI subsetI)
    fix r
    assume "r \<in> set (filter (\<lambda>r. p r \<and> key r \<in> set (map key ?picked)) rs)"
    then obtain s where "r \<in> set rs" "s \<in> set ?picked" "key s = key r" by auto
    then show "r \<in> set ?picked" using select_limitD inj by (metis inj_onD)
  next
    fix r
    assume "r \<in> set ?picked"
    then show "r \<in> set (filter (\<lambda>r. p r \<and> key r \<in> set (map key ?picked)) rs)" by (auto dest: select_limitD)
  qed
  moreover have "distinct ?picked" using distinct_select_limit [OF assms, of ord n p] by (simp add: distinct_map)
  ultimately have "length (filter (\<lambda>r. p r \<and> key r \<in> set (map key ?picked)) rs) = length ?picked"
    using dist by (metis distinct_card distinct_filter)
  then show ?thesis by (simp add: count_where_def [of "\<lambda>r. p r \<and> _ r"] length_select_limit)
qed

lemma count_where_left:
  assumes "distinct (map key rs)"
  shows "count_where (\<lambda>r. p r \<and> key r \<notin> set (map key (select_limit ord n p rs))) rs
    = count_where p rs - min n (count_where p rs)"
  using count_where_split [of p rs "\<lambda>r. key r \<in> set (map key (select_limit ord n p rs))"]
    count_where_picked [OF assms, of p ord n] by simp

lemma count_where_update:
  assumes "\<And>r. \<not> p (f r)"
  shows "count_where p (update_where q f rs) = count_where (\<lambda>r. p r \<and> \<not> q r) rs"
  using assms by (induction rs) (auto simp: count_where_def)

lemma count_where_update_same:
  assumes "\<And>r. r \<in> set rs \<Longrightarrow> q r \<Longrightarrow> p (f r) = p r"
  shows "count_where p (update_where q f rs) = count_where p rs"
  using assms by (induction rs) (auto simp: count_where_def)

definition expired_leases :: "(uuid \<Rightarrow> bool) \<Rightarrow> timestamptz \<Rightarrow> db \<Rightarrow> nat" where
  "expired_leases locked now d = count_where (\<lambda>r. lease_expired now r \<and> \<not> locked (rid r)) (runs d)"

definition expired_waits :: "(uuid \<Rightarrow> bool) \<Rightarrow> timestamptz \<Rightarrow> db \<Rightarrow> nat" where
  "expired_waits locked now d = count_where (\<lambda>r. wait_expired now r \<and> \<not> locked (rid r)) (runs d)"

definition expired_events :: "(nat \<Rightarrow> bool) \<Rightarrow> timestamptz \<Rightarrow> db \<Rightarrow> nat" where
  "expired_events locked now d = count_where (\<lambda>e. ev_expires_at e \<le> now \<and> \<not> locked (ev_id e)) (events d)"

lemma recoverLeases_takes:
  assumes "db_ok d"
  shows "\<exists>d'. recoverLeases locked now clk d = Inr (min maintenanceBatch (expired_leases locked now d), d')
    \<and> expired_leases locked now d' = expired_leases locked now d - min maintenanceBatch (expired_leases locked now d)
    \<and> db_ok d'"
proof -
  let ?p = "\<lambda>r. lease_expired now r \<and> \<not> locked (rid r)"
  let ?picked = "recover_picked locked now d"
  let ?f = "\<lambda>r. r\<lparr>state := (if max_attempts r \<le> lease_failures r + 1 then RunFailed else RunReady),
      lease_failures := lease_failures r + 1, next_run_at := clk + interval_ms (recovery_backoff_ms (lease_failures r)),
      lease_token := None, lease_until := None, last_error := Some ''lease expired'', updated_at := now\<rparr>"
  obtain d' where st: "recoverLeases locked now clk d = Inr (length ?picked, d')"
    and d': "runs d' = update_where (\<lambda>r. rid r \<in> set (map rid ?picked)) ?f (runs d)"
    by (simp add: recoverLeases_def Let_def)
  have len: "length ?picked = min maintenanceBatch (expired_leases locked now d)"
    by (simp add: recover_picked_def length_select_limit expired_leases_def)
  have "\<not> ?p (?f r)" for r by (simp add: lease_expired_def)
  then have "expired_leases locked now d' = count_where (\<lambda>r. ?p r \<and> rid r \<notin> set (map rid ?picked)) (runs d)"
    unfolding expired_leases_def d' by (rule count_where_update)
  then have "expired_leases locked now d' = expired_leases locked now d - min maintenanceBatch (expired_leases locked now d)"
    using count_where_left [OF db_okD(1) [OF assms], of ?p] by (simp add: recover_picked_def expired_leases_def)
  then show ?thesis using st len recoverLeases_ok(1) [OF assms st] by auto
qed

lemma recover_keeps_waits:
  assumes "db_ok d" "recoverLeases locked now clk d = Inr (n, d')"
  shows "expired_waits locked' now' d' = expired_waits locked' now' d"
proof -
  let ?f = "\<lambda>r. r\<lparr>state := (if max_attempts r \<le> lease_failures r + 1 then RunFailed else RunReady),
        lease_failures := lease_failures r + 1, next_run_at := clk + interval_ms (recovery_backoff_ms (lease_failures r)),
        lease_token := None, lease_until := None, last_error := Some ''lease expired'', updated_at := now\<rparr>"
  have "runs d' = update_where (\<lambda>r. rid r \<in> set (map rid (recover_picked locked now d)))
      ?f (runs d)"
    using assms(2) by (auto simp: recoverLeases_def Let_def)
  then show ?thesis
    unfolding expired_waits_def
  proof (simp only:, intro count_where_update_same)
    fix r
    assume "r \<in> set (runs d)" "rid r \<in> set (map rid (recover_picked locked now d))"
    then have "lease_expired now r" using picked_by_id(2) [OF db_okD(1) [OF assms(1)]] unfolding recover_picked_def by blast
    then show "(wait_expired now' (?f r)
        \<and> \<not> locked' (rid (?f r)))
      = (wait_expired now' r \<and> \<not> locked' (rid r))"
      by (simp add: wait_expired_def lease_expired_def)
  qed
qed

interpretation recovery_pass: batch_statement "recoverLeases locked now clk" "expired_leases locked now" maintenanceBatch
    "\<lambda>d. db_ok d \<and> expired_waits locked' now' d = k" for locked now clk locked' now' k
  using recoverLeases_takes recover_keeps_waits by unfold_locales metis

lemma promoteTimedOut_takes:
  assumes "db_ok d"
  shows "\<exists>d'. first_count (promoteTimedOut locked now channel) d = Inr (min maintenanceBatch (expired_waits locked now d), d')
    \<and> expired_waits locked now d' = expired_waits locked now d - min maintenanceBatch (expired_waits locked now d)
    \<and> db_ok d'"
proof -
  let ?p = "\<lambda>r. wait_expired now r \<and> \<not> locked (rid r)"
  let ?picked = "promote_picked locked now d"
  let ?f = "\<lambda>r. r\<lparr>state := RunReady, next_run_at := now, waiting_event_key := None, waiting_deadline := None, updated_at := now\<rparr>"
  obtain d' m where st: "promoteTimedOut locked now channel d = Inr ((length ?picked, m), d')"
    and d': "runs d' = update_where (\<lambda>r. rid r \<in> set (map rid ?picked)) ?f (runs d)"
    by (simp add: promoteTimedOut_def Let_def)
  have len: "length ?picked = min maintenanceBatch (expired_waits locked now d)"
    by (simp add: promote_picked_def length_select_limit expired_waits_def)
  have "\<not> ?p (?f r)" for r by (simp add: wait_expired_def)
  then have "expired_waits locked now d' = count_where (\<lambda>r. ?p r \<and> rid r \<notin> set (map rid ?picked)) (runs d)"
    unfolding expired_waits_def d' by (rule count_where_update)
  then have "expired_waits locked now d' = expired_waits locked now d - min maintenanceBatch (expired_waits locked now d)"
    using count_where_left [OF db_okD(1) [OF assms], of ?p] by (simp add: promote_picked_def expired_waits_def)
  then show ?thesis using st len promoteTimedOut_ok(1) [OF assms st] by (auto simp: first_count_def)
qed

lemma promote_keeps_leases:
  assumes "db_ok d" "first_count (promoteTimedOut locked now channel) d = Inr (n, d')"
  shows "expired_leases locked' now' d' = expired_leases locked' now' d"
proof -
  let ?f = "\<lambda>r. r\<lparr>state := RunReady, next_run_at := now, waiting_event_key := None, waiting_deadline := None, updated_at := now\<rparr>"
  have "runs d' = update_where (\<lambda>r. rid r \<in> set (map rid (promote_picked locked now d)))
      ?f (runs d)"
    using assms(2) by (auto simp: first_count_def promoteTimedOut_def Let_def)
  then show ?thesis
    unfolding expired_leases_def
  proof (simp only:, intro count_where_update_same)
    fix r
    assume "r \<in> set (runs d)" "rid r \<in> set (map rid (promote_picked locked now d))"
    then have "wait_expired now r" using picked_by_id(2) [OF db_okD(1) [OF assms(1)]] unfolding promote_picked_def by blast
    then show "(lease_expired now' (?f r)
        \<and> \<not> locked' (rid (?f r)))
      = (lease_expired now' r \<and> \<not> locked' (rid r))"
      by (simp add: wait_expired_def lease_expired_def)
  qed
qed

interpretation promotion_pass: batch_statement "first_count (promoteTimedOut locked now channel)" "expired_waits locked now"
    maintenanceBatch "\<lambda>d. db_ok d \<and> expired_leases locked' now' d = k" for locked now channel locked' now' k
  using promoteTimedOut_takes promote_keeps_leases by unfold_locales metis

lemma pruneEvents_takes:
  assumes "db_ok d"
  shows "\<exists>d'. pruneEvents locked now d = Inr (min pruneBatch (expired_events locked now d), d')
    \<and> expired_events locked now d' = expired_events locked now d - min pruneBatch (expired_events locked now d)
    \<and> db_ok d'"
proof -
  let ?p = "\<lambda>e. ev_expires_at e \<le> now \<and> \<not> locked (ev_id e)"
  let ?picked = "select_limit ev_expires_at pruneBatch ?p (events d)"
  obtain d' where st: "pruneEvents locked now d = Inr (length ?picked, d')"
    and d': "events d' = filter (\<lambda>e. ev_id e \<notin> set (map ev_id ?picked)) (events d)"
    by (simp add: pruneEvents_def Let_def)
  have len: "length ?picked = min pruneBatch (expired_events locked now d)"
    by (simp add: length_select_limit expired_events_def)
  have dist: "distinct (map ev_id (events d))" using assms by (simp add: db_ok_def events_ok_def)
  have "expired_events locked now d' = count_where (\<lambda>e. ?p e \<and> ev_id e \<notin> set (map ev_id ?picked)) (events d)"
    by (simp add: expired_events_def d' count_where_def conj_ac)
  then have "expired_events locked now d' = expired_events locked now d - min pruneBatch (expired_events locked now d)"
    using count_where_left [OF dist, of ?p] by (simp add: expired_events_def)
  then show ?thesis using st len pruneEvents_ok(1) [OF assms st] by auto
qed

interpretation pruning_pass: batch_statement "pruneEvents locked now" "expired_events locked now" pruneBatch db_ok
  for locked now
  by unfold_locales (rule pruneEvents_takes)

text \<open>An undisturbed, quick pass.\<close>

definition calm :: "(uuid \<Rightarrow> bool) \<Rightarrow> (nat \<Rightarrow> batch_env) \<Rightarrow> bool" where
  "calm locked env \<longleftrightarrow>
     (\<forall>i. be_others (env i) = (\<lambda>st. st) \<and> be_lag (env i) = 0 \<and> be_locked (env i) = locked
        \<and> be_fault (env i) = NoFault \<and> be_elapsed (env i) < Second)"

text \<open>C20: A maintenance pass works off its backlog.  If nothing disturbs it and its batches are
  quick, a pass returns without error after at most eight batches of 1024 rows per statement,
  and leaves exactly what exceeds these limits: the expired leases and the timed-out waits that
  no one else has locked are all handled when there are at most 8192 of each.\<close>

theorem maintain_drains:
  assumes "db_ok d" "calm locked renv" "calm locked penv"
  shows "\<exists>d'. maintain e renv penv (d, clk) = (None, None, (d', clk)) \<and> db_ok d'
    \<and> expired_leases locked clk d' = expired_leases locked clk d - 8192
    \<and> expired_waits locked clk d' = expired_waits locked clk d - 8192"
proof -
  have size: "8 * maintenanceBatch = 8192" by (simp add: maintenanceBatch_def)
  obtain d1 where d1: "recoverExpiredLeases renv (d, clk) = (None, (d1, clk))"
    "expired_leases locked clk d1 = expired_leases locked clk d - 8192" "db_ok d1"
    "expired_waits locked clk d1 = expired_waits locked clk d"
    using recovery_pass.batches_drain [of d locked clk "expired_waits locked clk d" renv
        "\<lambda>be now clk. recoverLeases (be_locked be) now clk" clk locked clk clk 0 8] assms(1,2)
    by (auto simp: recoverExpiredLeases_def calm_def size)
  obtain d2 where d2: "promoteTimedOutWaiters e penv (d1, clk) = (None, (d2, clk))"
    "expired_waits locked clk d2 = expired_waits locked clk d1 - 8192" "db_ok d2"
    "expired_leases locked clk d2 = expired_leases locked clk d1"
    using promotion_pass.batches_drain [of d1 locked clk "expired_leases locked clk d1" penv
        "\<lambda>be now clk. first_count (promoteTimedOut (be_locked be) now (e_channel e))" clk locked clk "e_channel e" 0 8] d1(3) assms(3)
    by (auto simp: promoteTimedOutWaiters_def calm_def size)
  show ?thesis using d1 d2 by (simp add: maintain_def)
qed

definition demo_batch_env :: batch_env where
  "demo_batch_env = \<lparr>be_others = (\<lambda>st. st), be_lag = 0, be_locked = (\<lambda>_. False), be_locked_events = (\<lambda>_. False),
     be_fault = NoFault, be_elapsed = 0\<rparr>"

text \<open>The demo run after its lease has expired.\<close>

theorem maintain_drains_witness:
  "expired_leases (\<lambda>_. False) 40000000 (demo_db demo_leased_row) = 1
   \<and> (\<exists>d'. maintain demo_worker_engine (\<lambda>_. demo_batch_env) (\<lambda>_. demo_batch_env) (demo_db demo_leased_row, 40000000)
        = (None, None, (d', 40000000)) \<and> expired_leases (\<lambda>_. False) 40000000 d' = 0)"
proof -
  have ok: "db_ok (demo_db demo_leased_row)"
    using reachable_sys_ok [OF demo_leased] by (simp add: sys_ok_def demo_sys_def)
  have calm: "calm (\<lambda>_. False) (\<lambda>_. demo_batch_env)"
    by (simp add: calm_def demo_batch_env_def Second_def)
  have one: "expired_leases (\<lambda>_. False) 40000000 (demo_db demo_leased_row) = 1"
    by (simp add: expired_leases_def demo_db_def demo_leased_row_def demo_row_def lease_expired_def count_where_def)
  then show ?thesis
    using maintain_drains [OF ok calm calm, of demo_worker_engine 40000000] by auto
qed

lemma pruneExpiredEvents_drains:
  assumes "db_ok d"
    and "\<And>i. be_others (env i) = (\<lambda>st. st) \<and> be_lag (env i) = 0 \<and> be_locked_events (env i) = locked
      \<and> be_fault (env i) = NoFault \<and> be_elapsed (env i) < Second"
  shows "\<exists>d'. pruneExpiredEvents env (d, clk) = (None, (d', clk))
    \<and> expired_events locked clk d' = expired_events locked clk d - 64 * pruneBatch \<and> db_ok d'"
  using pruning_pass.batches_drain [of d env "\<lambda>be now clk. pruneEvents (be_locked_events be) now" clk locked clk 0 64] assms
  by (auto simp: pruneExpiredEvents_def)

section \<open>The dispatcher\<close>

text \<open>
  The state of \<open>dispatchLoop\<close>: the engine with its count of active claims, the counter of
  running claims, their tokens, the lease table, and the wake-up channel of one slot; and
  the number of claims of an earlier worker of the engine that outlived its drain.
\<close>

datatype dispatch_phase = Dispatching | Draining | Stopped

record dispatcher =
  dp_engine :: Engine
  dp_inFlight :: int
  dp_running :: "string list"
  dp_table :: leaseTable
  dp_wake :: bool
  dp_phase :: dispatch_phase
  dp_leftover :: nat

text \<open>\<open>StartWorker\<close> up to the start of its loops: the wake-up channel is filled.\<close>

definition start_dispatcher :: "Engine \<Rightarrow> api_error + dispatcher" where
  "start_dispatcher e =
     (case beginWorker e of
        Inl err \<Rightarrow> Inl err
      | Inr e' \<Rightarrow> Inr \<lparr>dp_engine = e', dp_inFlight = 0, dp_running = [], dp_table = newLeaseTable, dp_wake = True,
                      dp_phase = Dispatching, dp_leftover = e_activeClaims e\<rparr>)"

text \<open>Starting a claim, and the deferred function at its end.  \<open>stopped\<close> says whether the
  context of the work is already cancelled.\<close>

definition start_run :: "bool \<Rightarrow> claimedRun \<Rightarrow> dispatcher \<Rightarrow> dispatcher" where
  "start_run stopped run st =
     st\<lparr>dp_inFlight := dp_inFlight st + 1, dp_engine := claim_started (dp_engine st),
        dp_table := lt_insert stopped (cr_ID run) (cr_Token run) (cr_deadline run) (dp_table st),
        dp_running := dp_running st @ [cr_Token run]\<rparr>"

definition finish_run :: "string \<Rightarrow> dispatcher \<Rightarrow> dispatcher" where
  "finish_run token st =
     st\<lparr>dp_table := lt_release token (dp_table st), dp_inFlight := dp_inFlight st - 1, dp_wake := True,
        dp_engine := claim_done (dp_engine st), dp_running := remove1 token (dp_running st)\<rparr>"

text \<open>The closure \<open>dispatch\<close>; \<open>claims\<close> is \<open>claimReadyRuns\<close> at the time.\<close>

definition dispatch :: "bool \<Rightarrow> bool \<Rightarrow> (int \<Rightarrow> (go_error + claimedRun list) \<times> db) \<Rightarrow> dispatcher \<Rightarrow> dispatcher" where
  "dispatch ctx_done stopped claims st =
     (if ctx_done then st
      else
        (let available = e_maxConcurrency (dp_engine st) - dp_inFlight st in
         if available \<le> 0 then st
         else (case claims available of
                 (Inl err, d') \<Rightarrow> st
               | (Inr cruns, d') \<Rightarrow> fold (start_run stopped) cruns st)))"

text \<open>
  The loop: a tick or a wake-up dispatches, a notification or a finished claim fills the
  channel, and when the context is done the dispatcher waits for its claims, but not longer
  than its drain timeout.  Claims go on in every phase, and the heartbeat changes their entries.
\<close>

inductive dispatch_step :: "dispatcher \<Rightarrow> dispatcher \<Rightarrow> bool" where
  tick: "\<lbrakk>dp_phase st = Dispatching; claims = (\<lambda>limit. claimReadyRuns f gen locked now clk started order (dp_engine st) limit d)\<rbrakk>
     \<Longrightarrow> dispatch_step st (dispatch ctx_done stopped claims st)"
| wake: "\<lbrakk>dp_phase st = Dispatching; dp_wake st;
     claims = (\<lambda>limit. claimReadyRuns f gen locked now clk started order (dp_engine st) limit d)\<rbrakk>
     \<Longrightarrow> dispatch_step st (dispatch ctx_done stopped claims (st\<lparr>dp_wake := False\<rparr>))"
| signal: "dispatch_step st (st\<lparr>dp_wake := True\<rparr>)"
| finish: "token \<in> set (dp_running st) \<Longrightarrow> dispatch_step st (finish_run token st)"
| heartbeat: "dom t = dom (dp_table st) \<Longrightarrow> dispatch_step st (st\<lparr>dp_table := t\<rparr>)"
| leftover: "0 < dp_leftover st \<Longrightarrow>
     dispatch_step st (st\<lparr>dp_leftover := dp_leftover st - 1, dp_engine := claim_done (dp_engine st)\<rparr>)"
| cancelled: "dp_phase st = Dispatching \<Longrightarrow> dispatch_step st (st\<lparr>dp_phase := Draining\<rparr>)"
| drained: "dp_phase st = Draining \<Longrightarrow> dp_running st = [] \<Longrightarrow>
     dispatch_step st (st\<lparr>dp_phase := Stopped, dp_engine := endWorker (dp_engine st)\<rparr>)"
| timeout: "dp_phase st = Draining \<Longrightarrow>
     dispatch_step st (st\<lparr>dp_phase := Stopped, dp_engine := endWorker (dp_engine st)\<rparr>)"

definition dispatcher_ok :: "dispatcher \<Rightarrow> bool" where
  "dispatcher_ok st \<longleftrightarrow>
     dp_inFlight st = int (length (dp_running st)) \<and> dp_inFlight st \<le> e_maxConcurrency (dp_engine st)
   \<and> e_activeClaims (dp_engine st) = dp_leftover st + length (dp_running st)
   \<and> dom (dp_table st) \<subseteq> set (dp_running st)
   \<and> (e_workerRunning (dp_engine st) \<longleftrightarrow> dp_phase st \<noteq> Stopped)"

lemma claim_query_length:
  "claim_query gen locked now clk e limit names versions d = Inr (rows, d') \<Longrightarrow> length rows \<le> limit"
  by (auto simp: claim_query_def claimSingle_def claimMulti_def claim_def Let_def claim_picked_def length_select_limit
      split: if_splits)

lemma claimReadyRuns_limit:
  assumes "claimReadyRuns f gen locked now clk started order e limit d = (Inr cruns, d')"
  shows "int (length cruns) \<le> max 0 limit"
proof (cases "limit \<le> 0 \<or> map fst order = []")
  case True
  then have "cruns = []" using assms by (auto simp: claimReadyRuns_def supportedWorkflows_def split: if_splits)
  then show ?thesis by simp
next
  case False
  let ?q = "claim_query gen locked now clk e (nat limit) (map fst order) (map snd order)"
  obtain r d1 where ex: "exec f ?q d = (r, d1)" by fastforce
  then obtain rows where rows: "r = Inr rows" "cruns = map (scan_run (started + e_leaseTTL e)) rows"
    using assms False by (auto simp: claimReadyRuns_def supportedWorkflows_def split: sum.splits)
  then have "?q d = Inr (rows, d1)" using ex by (cases f) (auto simp: exec_def split: sum.splits)
  then have "length rows \<le> nat limit" by (rule claim_query_length)
  then show ?thesis using rows(2) by simp
qed

lemma start_runs:
  "dp_inFlight (fold (start_run stopped) cruns st) = dp_inFlight st + int (length cruns)"
  "dp_running (fold (start_run stopped) cruns st) = dp_running st @ map cr_Token cruns"
  "e_activeClaims (dp_engine (fold (start_run stopped) cruns st)) = e_activeClaims (dp_engine st) + length cruns"
  "e_maxConcurrency (dp_engine (fold (start_run stopped) cruns st)) = e_maxConcurrency (dp_engine st)"
  "e_workerRunning (dp_engine (fold (start_run stopped) cruns st)) = e_workerRunning (dp_engine st)"
  "dom (dp_table (fold (start_run stopped) cruns st)) = dom (dp_table st) \<union> cr_Token ` set cruns"
  "dp_phase (fold (start_run stopped) cruns st) = dp_phase st"
  "dp_leftover (fold (start_run stopped) cruns st) = dp_leftover st"
  by (induction cruns arbitrary: st) (auto simp: start_run_def claim_started_def lt_insert_def)

lemma dispatch_ok:
  assumes "dispatcher_ok st" "claims = (\<lambda>limit. claimReadyRuns f gen locked now clk started order e limit d)"
  shows "dispatcher_ok (dispatch ctx_done stopped claims st)"
proof -
  let ?available = "e_maxConcurrency (dp_engine st) - dp_inFlight st"
  obtain r d' where c: "claims ?available = (r, d')" by fastforce
  show ?thesis
  proof (cases "ctx_done \<or> ?available \<le> 0 \<or> isl r")
    case True
    then have "dispatch ctx_done stopped claims st = st"
      using c by (auto simp: dispatch_def isl_def)
    then show ?thesis using assms(1) by simp
  next
    case False
    then obtain cruns where r: "r = Inr cruns" by (cases r) auto
    then have "int (length cruns) \<le> ?available"
      using c claimReadyRuns_limit False unfolding assms(2) by (metis linorder_not_le max.absorb2 max.commute not_less_iff_gr_or_eq)
    moreover have "dispatch ctx_done stopped claims st = fold (start_run stopped) cruns st"
      using False c r by (simp add: dispatch_def)
    ultimately show ?thesis using assms(1) by (auto simp: dispatcher_ok_def start_runs)
  qed
qed

lemma dispatch_step_ok:
  assumes "dispatch_step st st'" "dispatcher_ok st"
  shows "dispatcher_ok st'"
  using assms
proof (induction rule: dispatch_step.induct)
  case (tick st claims f gen locked now clk started order d ctx_done stopped)
  then show ?case using dispatch_ok by blast
next
  case (wake st claims f gen locked now clk started order d ctx_done stopped)
  have "dispatcher_ok (st\<lparr>dp_wake := False\<rparr>)" using wake.prems by (simp add: dispatcher_ok_def)
  with wake(3) show ?case using dispatch_ok by blast
next
  case (finish token st)
  then have "0 < length (dp_running st)" by (cases "dp_running st") auto
  moreover have "dom (lt_release token (dp_table st)) = dom (dp_table st) - {token}"
    by (auto simp: lt_release_def split: if_splits)
  moreover have "set (dp_running st) - {token} \<subseteq> set (remove1 token (dp_running st))"
    using in_set_remove1 by fastforce
  ultimately have "0 < length (dp_running st)" "dom (lt_release token (dp_table st)) \<subseteq> set (remove1 token (dp_running st))"
    using finish.prems by (auto simp: dispatcher_ok_def)
  moreover from this obtain n where "length (dp_running st) = Suc n" by (cases "dp_running st") auto
  ultimately show ?case
    using finish by (auto simp: dispatcher_ok_def finish_run_def claim_done_def length_remove1)
qed (auto simp: dispatcher_ok_def claim_done_def endWorker_def)

interpretation dispatching: transition_invariant dispatch_step dispatcher_ok
  by unfold_locales (use dispatch_step_ok in blast)

text \<open>C21: The dispatcher keeps its limits and its books.  At every moment of a worker's life the
  counter of running claims is their number and stays within the configured concurrency,
  only running claims are in the lease table, and the engine counts every claim that is still
  running, also those that outlive a shutdown: once the worker has returned,
  \<open>WaitForIdle\<close> can succeed exactly when no claim is left.\<close>

theorem dispatcher_bounded:
  assumes "0 \<le> e_maxConcurrency e" "start_dispatcher e = Inr st0" "dispatch_step\<^sup>*\<^sup>* st0 st"
  shows "dp_inFlight st = int (length (dp_running st)) \<and> dp_inFlight st \<le> e_maxConcurrency (dp_engine st)
    \<and> dom (dp_table st) \<subseteq> set (dp_running st)
    \<and> e_activeClaims (dp_engine st) = dp_leftover st + length (dp_running st)
    \<and> (dp_phase st = Stopped \<longrightarrow>
         (WaitForIdle DoneChan (dp_engine st) = Some (Inr ()) \<longleftrightarrow> dp_running st = [] \<and> dp_leftover st = 0))"
proof -
  have "dispatcher_ok st0"
    using assms(1,2)
    by (auto simp: start_dispatcher_def beginWorker_def dispatcher_ok_def newLeaseTable_def split: if_splits)
  with assms(3) have "dispatcher_ok st" by (rule dispatching.steps_inv)
  then show ?thesis by (auto simp: dispatcher_ok_def WaitForIdle_def)
qed

definition demo_dispatcher :: dispatcher where
  "demo_dispatcher = \<lparr>dp_engine = demo_worker_engine\<lparr>e_workerRunning := True\<rparr>, dp_inFlight = 0, dp_running = [],
     dp_table = newLeaseTable, dp_wake = True, dp_phase = Dispatching, dp_leftover = 0\<rparr>"

theorem dispatcher_bounded_witness:
  "\<exists>st. dispatch_step\<^sup>*\<^sup>* demo_dispatcher st \<and> dp_running st = [''t1''] \<and> dp_inFlight st = 1
     \<and> dp_inFlight st \<le> e_maxConcurrency (dp_engine st)"
proof -
  have start: "start_dispatcher demo_worker_engine = Inr demo_dispatcher"
    by (simp add: start_dispatcher_def beginWorker_def demo_dispatcher_def demo_worker_engine_def demo_engine_def)
  let ?claims = "\<lambda>limit. claimReadyRuns NoFault (\<lambda>_. ''t1'') (\<lambda>_. False) 0 0 0 [(''w'', 1)] (dp_engine demo_dispatcher) limit (demo_db demo_row)"
  let ?st = "dispatch False False ?claims (demo_dispatcher\<lparr>dp_wake := False\<rparr>)"
  have "?claims 8 = (Inr [demo_run], demo_db demo_leased_row)"
    by (simp add: demo_dispatcher_def claimReadyRuns_def supportedWorkflows_def demo_worker_engine_def demo_engine_def exec_def
        claim_query_def claimSingle_def claim_def claim_picked_def select_limit_def demo_db_def demo_row_def due_in_def
        demo_leased_row_def demo_run_def scan_run_def claim_result_def lease_row_def interval_ms_def milliseconds_def)
  then have running: "dp_running ?st = [''t1'']"
    by (simp add: dispatch_def demo_dispatcher_def demo_worker_engine_def demo_engine_def start_run_def demo_run_def)
  have "dispatch_step demo_dispatcher ?st"
    by (rule dispatch_step.wake [OF _ _ refl]) (simp_all add: demo_dispatcher_def)
  then have steps: "dispatch_step\<^sup>*\<^sup>* demo_dispatcher ?st" by (rule r_into_rtranclp)
  have "0 \<le> e_maxConcurrency demo_worker_engine" by (simp add: demo_worker_engine_def demo_engine_def)
  from dispatcher_bounded [OF this start steps] show ?thesis using steps running by auto
qed

section \<open>Notifications\<close>

text \<open>
  A listener receives the notifications sent on its channel, each with the queue as its
  payload, until its connection fails.  The value is the wake-up channel after it, and the error
  with which it returned.
\<close>

datatype listen_event = Note string | ConnectionLost string

definition signal :: "bool \<Rightarrow> bool" where
  "signal wake = True"

fun listen_wait :: "Engine \<Rightarrow> listen_event list \<Rightarrow> bool \<Rightarrow> bool \<times> string option" where
  "listen_wait e [] wake = (wake, None)"
| "listen_wait e (Note payload # es) wake = listen_wait e es (if payload = e_queue e then signal wake else wake)"
| "listen_wait e (ConnectionLost m # es) wake = (signal wake, Some m)"

definition listen :: "Engine \<Rightarrow> string option \<Rightarrow> string option \<Rightarrow> listen_event list \<Rightarrow> bool \<Rightarrow> bool \<times> string option" where
  "listen e connect_err listen_err es wake =
     (case connect_err of
        Some m \<Rightarrow> (wake, Some m)
      | None \<Rightarrow> (case listen_err of Some m \<Rightarrow> (wake, Some m) | None \<Rightarrow> listen_wait e es (signal wake)))"

text \<open>\<open>listenLoop\<close>: it listens again after every failure until the context is done, which each
  attempt reports with its outcome.\<close>

fun listenLoop :: "Engine \<Rightarrow> (string option \<times> string option \<times> listen_event list \<times> bool) list \<Rightarrow> bool \<Rightarrow> bool" where
  "listenLoop e [] wake = wake"
| "listenLoop e ((connect_err, listen_err, es, ctx_done) # attempts) wake =
     (let (wake', err) = listen e connect_err listen_err es wake
      in if ctx_done then wake' else listenLoop e attempts wake')"

text \<open>What the server delivers to the listeners of a channel.\<close>

definition delivered :: "string \<Rightarrow> (string \<times> string) list \<Rightarrow> listen_event list" where
  "delivered channel nts = map (\<lambda>n. Note (snd n)) (filter (\<lambda>n. fst n = channel) nts)"

lemma listen_wait_mono: "fst (listen_wait e es True)"
proof (induction es)
  case (Cons ev es)
  then show ?case by (cases ev) (auto simp: signal_def)
qed simp

lemma listen_wait_signals:
  "Note (e_queue e) \<in> set es \<Longrightarrow> fst (listen_wait e es wake)"
proof (induction es arbitrary: wake)
  case (Cons ev es)
  then show ?case
    using listen_wait_mono [of e es] by (cases ev) (auto simp: signal_def)
qed simp

text \<open>A run of the engine's queue among those a statement notifies for.\<close>

lemma notify_signals:
  assumes "r \<in> set rs" "queue r = e_queue e" "notifications d' = notifications d @ notify_queues (e_channel e) rs"
  shows "fst (listen_wait e (delivered (e_channel e) (drop (length (notifications d)) (notifications d'))) wake)"
  using assms by (intro listen_wait_signals) (force simp: delivered_def notify_queues_def)

lemma insertRun_wakes:
  assumes "insertRun pg now j name version q maxA sched input dedup (e_channel e) d = Inr (res, d')"
    and "run_of d' i = Some r" "state r = RunReady" "next_run_at r \<le> now" "queue r = e_queue e"
    and "\<And>old. run_of d i = Some old \<Longrightarrow> state old = RunWaitingEvent"
  shows "fst (listen_wait e (delivered (e_channel e) (drop (length (notifications d)) (notifications d'))) wake)"
  using assms(1)
proof (cases rule: insertRun_cases)
  case (existing s k)
  obtain old where "run_of d i = Some old" "state r = state old"
    using assms(2) by (auto simp: existing(6) run_of_update split: if_splits)
  then show ?thesis using assms(3,6) by force
next
  case (inserted u inp due nts)
  have new: "run_of d i = None"
    using assms(2,3,6) by (cases "run_of d i") (auto simp: inserted(15) row_with_append)
  then have "queue r = q" "next_run_at r = due"
    using assms(2) by (auto simp: inserted(15) row_with_append split: if_splits)
  then have "notifications d' = notifications d @ [(e_channel e, e_queue e)]"
    using assms(4,5) inserted(5) by (simp add: inserted(15))
  then show ?thesis by (intro listen_wait_signals) (simp add: delivered_def)
qed

lemma emitEvent_wakes:
  assumes "emitEvent pg now key payload ttl (e_channel e) d = Inr (counts, d')"
    and "run_of d' i = Some r" "state r = RunReady" "next_run_at r \<le> now" "queue r = e_queue e"
    and "\<And>old. run_of d i = Some old \<Longrightarrow> state old = RunWaitingEvent"
  shows "fst (listen_wait e (delivered (e_channel e) (drop (length (notifications d)) (notifications d'))) wake)"
proof -
  have runs: "runs d' = update_where (waits_on key now)
      (\<lambda>r. r\<lparr>state := RunReady, next_run_at := now, waiting_event_key := None, waiting_deadline := None, last_error := None, updated_at := now\<rparr>) (runs d)"
    and nts: "notifications d' = notifications d @ notify_queues (e_channel e) (filter (waits_on key now) (runs d))"
    using assms(1) by (auto simp: emitEvent_def Let_def split: option.splits if_splits)
  obtain old where old: "run_of d i = Some old" "state old = RunWaitingEvent"
    using assms(2,6) by (auto simp: runs run_of_update)
  then have "waits_on key now old" "queue r = queue old" using assms(2,3) by (auto simp: runs run_of_update split: if_splits)
  moreover have "old \<in> set (runs d)" using row_with_SomeD [OF old(1)] by simp
  ultimately show ?thesis using nts assms(5) by (intro notify_signals [of old]) simp_all
qed

lemma promoteTimedOut_wakes:
  assumes "promoteTimedOut locked now (e_channel e) d = Inr (counts, d')"
    and "run_of d' i = Some r" "state r = RunReady" "next_run_at r \<le> now" "queue r = e_queue e"
    and "\<And>old. run_of d i = Some old \<Longrightarrow> state old = RunWaitingEvent"
    and "db_ok d"
  shows "fst (listen_wait e (delivered (e_channel e) (drop (length (notifications d)) (notifications d'))) wake)"
proof -
  let ?picked = "promote_picked locked now d"
  have runs: "runs d' = update_where (\<lambda>r. rid r \<in> set (map rid ?picked))
      (\<lambda>r. r\<lparr>state := RunReady, next_run_at := now, waiting_event_key := None, waiting_deadline := None, updated_at := now\<rparr>) (runs d)"
    and nts: "notifications d' = notifications d @ notify_queues (e_channel e) ?picked"
    using assms(1) by (auto simp: promoteTimedOut_def Let_def)
  obtain old where old: "run_of d i = Some old" "state old = RunWaitingEvent"
    using assms(2,6) by (auto simp: runs run_of_update)
  have "rid old \<in> set (map rid ?picked)" and q: "queue r = queue old"
    using assms(2,3) old by (auto simp: runs run_of_update split: if_splits)
  moreover have "old \<in> set (runs d)" using row_with_SomeD [OF old(1)] by simp
  ultimately have "old \<in> set ?picked"
    using picked_by_id(1) [OF db_okD(1) [OF assms(7)]] unfolding promote_picked_def by blast
  then show ?thesis using nts assms(5) q by (intro notify_signals [of old]) simp_all
qed

text \<open>C22: Work that becomes ready wakes the workers of its queue.  When a run becomes ready and due
  by being enqueued, by the event it waits for, or by the time-out of its wait, the same statement
  notifies the channel, and the listener of every engine of the schema that serves the queue
  of the run fills the wake-up channel of its worker.\<close>

theorem ready_runs_wake_workers:
  assumes "db_ok d"
    and "(\<exists>i name version q maxA sched input dedup. insertRun pg now i name version q maxA sched input dedup (e_channel e) d = Inr (res, d'))
       \<or> (\<exists>key payload ttl. emitEvent pg now key payload ttl (e_channel e) d = Inr (counts, d'))
       \<or> (\<exists>locked. promoteTimedOut locked now (e_channel e) d = Inr (counts, d'))"
    and "run_of d' i = Some r" "state r = RunReady" "next_run_at r \<le> now" "queue r = e_queue e"
    and "\<And>old. run_of d i = Some old \<Longrightarrow> state old = RunWaitingEvent"
  shows "fst (listen_wait e (delivered (e_channel e) (drop (length (notifications d)) (notifications d'))) wake)"
  using assms(2)
proof (elim disjE exE)
  fix j name version q maxA sched input dedup
  assume "insertRun pg now j name version q maxA sched input dedup (e_channel e) d = Inr (res, d')"
  then show ?thesis using assms(3-7) by (rule insertRun_wakes)
next
  fix key payload ttl
  assume "emitEvent pg now key payload ttl (e_channel e) d = Inr (counts, d')"
  then show ?thesis using assms(3-7) by (rule emitEvent_wakes)
next
  fix locked
  assume "promoteTimedOut locked now (e_channel e) d = Inr (counts, d')"
  then show ?thesis using assms(3-7,1) by (rule promoteTimedOut_wakes)
qed

theorem ready_runs_wake_workers_witness:
  "fst (listen_wait (demo_worker_engine\<lparr>e_channel := ''c''\<rparr>) (delivered ''c'' (notifications (demo_db demo_row))) False)"
proof -
  have ok: "db_ok empty_db" by (rule db_ok_empty)
  have ins: "insertRun demo_pg 0 ''r1'' ''w'' 1 ''q'' 3 None JNull (Some ''k'') ''c'' empty_db = Inr ((''r1'', 1), demo_db demo_row)"
    by (simp add: insertRun_def demo_pg_def demo_db_def demo_row_def empty_db_def int4_ok_def text_ok_letter)
  let ?e = "demo_worker_engine\<lparr>e_channel := ''c''\<rparr>"
  have "\<exists>i name version q maxA sched input dedup.
      insertRun demo_pg 0 i name version q maxA sched input dedup (e_channel ?e) empty_db = Inr ((''r1'', 1), demo_db demo_row)"
    using ins by (intro exI) simp
  then have stmt: "(\<exists>i name version q maxA sched input dedup.
        insertRun demo_pg 0 i name version q maxA sched input dedup (e_channel ?e) empty_db = Inr ((''r1'', 1), demo_db demo_row))
      \<or> (\<exists>key payload ttl. emitEvent demo_pg 0 key payload ttl (e_channel ?e) empty_db = Inr ((0, 0), demo_db demo_row))
      \<or> (\<exists>locked. promoteTimedOut locked 0 (e_channel ?e) empty_db = Inr ((0, 0), demo_db demo_row))"
    by (rule disjI1)
  have row: "run_of (demo_db demo_row) ''r1'' = Some demo_row" "state demo_row = RunReady" "next_run_at demo_row \<le> 0"
      "queue demo_row = e_queue ?e"
    by (simp_all add: demo_db_def demo_row_def demo_worker_engine_def)
  show ?thesis
    using ready_runs_wake_workers [OF ok stmt row, of False] by (simp add: empty_db_def)
qed

end
