(* ===== verification/Worker_Lifecycle.thy ===== *)
theory Worker_Lifecycle
  imports Worker_Loops
begin

text \<open>
  The model of \<open>StartWorker\<close> in \<open>worker.go\<close>: its five loops as goroutines of one error group,
  with the contexts that connect them.  The loops that only dispatch stop with the caller's
  context; claims and the heartbeat run under a context of their own, which the dispatcher
  cancels when it returns.  The lemmas show that a shutdown is graceful (claims keep their
  leases while the worker drains), that it leaves nothing behind, and that it can always be
  completed within the drain timeout.
\<close>

section \<open>The error group\<close>

text \<open>
  The package \<open>errgroup\<close> is a parameter.  Both functions take the results of the functions that
  have returned, in order: \<open>eg_wait\<close> is the result of \<open>Wait\<close>, and \<open>eg_cancelled\<close> says whether the
  group has cancelled the context it derived.
\<close>

record errgroup =
  eg_wait :: "string option list \<Rightarrow> string option"
  eg_cancelled :: "string option list \<Rightarrow> bool"

text \<open>What its documentation says: \<open>Wait\<close> returns the first error, if any, and the context is
  cancelled the first time a function returns an error.\<close>

definition errgroup_ok :: "errgroup \<Rightarrow> bool" where
  "errgroup_ok g \<longleftrightarrow>
     (\<forall>rs. eg_wait g rs = (case filter (\<lambda>r. r \<noteq> None) rs of [] \<Rightarrow> None | r # _ \<Rightarrow> r))
   \<and> (\<forall>rs. eg_cancelled g rs \<longleftrightarrow> (\<exists>r \<in> set rs. r \<noteq> None))"

section \<open>The state of a worker\<close>

text \<open>Where each goroutine is.  Times are those at which a timer fires.\<close>

datatype listen_pc = Listening | Pausing gotime | ListenReturned

datatype loop_pc = LoopWorking | LoopSelecting | LoopReturned

datatype heartbeat_pc =
    HeartbeatTop
  | HeartbeatSelecting gotime
  | Renewing gotime gotime "string list" "string list" \<comment> \<open>the time of the request, its bound and its arrays\<close>
  | HeartbeatReturned

datatype dispatch_pc =
    DispatchCall
  | Claiming int
  | DispatchSelecting
  | DrainSelecting gotime
  | DispatchReturned

record worker_proc =
  wk_done :: bool \<comment> \<open>the caller's context\<close>
  wk_work_done :: bool \<comment> \<open>\<open>workCtx\<close>\<close>
  wk_clock :: gotime
  wk_results :: "string option list"
  wk_listen :: listen_pc
  wk_maintenance :: loop_pc
  wk_retention :: loop_pc
  wk_heartbeat :: heartbeat_pc
  wk_next :: gotime
  wk_dispatch :: dispatch_pc
  wk_dp :: dispatcher

abbreviation wk_engine :: "worker_proc \<Rightarrow> Engine" where
  "wk_engine w \<equiv> dp_engine (wk_dp w)"

definition dispatch_done :: "errgroup \<Rightarrow> worker_proc \<Rightarrow> bool" where
  "dispatch_done g w \<longleftrightarrow> wk_done w \<or> eg_cancelled g (wk_results w)"

text \<open>A function of the group returns.\<close>

definition go_return :: "string option \<Rightarrow> worker_proc \<Rightarrow> worker_proc" where
  "go_return r w = w\<lparr>wk_results := wk_results w @ [r]\<rparr>"

text \<open>\<open>cancelWork\<close>: the contexts of all claims are derived from \<open>workCtx\<close>.\<close>

definition cancel_all :: "leaseTable \<Rightarrow> leaseTable" where
  "cancel_all t = (\<lambda>k. map_option cancel_entry (t k))"

definition cancelWork :: "worker_proc \<Rightarrow> worker_proc" where
  "cancelWork w = w\<lparr>wk_work_done := True, wk_dp := (wk_dp w)\<lparr>dp_table := cancel_all (dp_table (wk_dp w))\<rparr>\<rparr>"

text \<open>\<open>StartWorker\<close> up to \<open>Wait\<close>.\<close>

definition StartWorker :: "gotime \<Rightarrow> Engine \<Rightarrow> api_error + worker_proc" where
  "StartWorker now e =
     (case start_dispatcher e of
        Inl err \<Rightarrow> Inl err
      | Inr dp \<Rightarrow> Inr \<lparr>wk_done = False, wk_work_done = False, wk_clock = now, wk_results = [],
          wk_listen = Listening, wk_maintenance = LoopWorking, wk_retention = LoopSelecting,
          wk_heartbeat = HeartbeatTop, wk_next = now + e_heartbeatEvery e, wk_dispatch = DispatchCall,
          wk_dp = dp\<rparr>)"

text \<open>\<open>Wait\<close> has returned: the deferred calls.\<close>

definition worker_return :: "worker_proc \<Rightarrow> worker_proc" where
  "worker_return w =
     (let w' = cancelWork w
      in w'\<lparr>wk_dp := (wk_dp w')\<lparr>dp_engine := endWorker (wk_engine w'), dp_phase := Stopped\<rparr>\<rparr>)"

text \<open>The result of \<open>StartWorker\<close>, once it has returned.\<close>

definition worker_result :: "errgroup \<Rightarrow> worker_proc \<Rightarrow> string option option" where
  "worker_result g w = (if dp_phase (wk_dp w) = Stopped then Some (eg_wait g (wk_results w)) else None)"

section \<open>The loops\<close>

text \<open>\<open>listenLoop\<close>: a notification, and the return of \<open>listen\<close>, which signals when it had been
  waiting for notifications.\<close>

definition listen_note :: "string \<Rightarrow> worker_proc \<Rightarrow> worker_proc" where
  "listen_note payload w =
     w\<lparr>wk_dp := (wk_dp w)\<lparr>dp_wake := fst (listen_wait (wk_engine w) [Note payload] (dp_wake (wk_dp w)))\<rparr>\<rparr>"

definition listen_return :: "errgroup \<Rightarrow> string option \<Rightarrow> string option \<Rightarrow> string \<Rightarrow> worker_proc \<Rightarrow> worker_proc" where
  "listen_return g connect_err listen_err m w =
     (let w' = w\<lparr>wk_dp := (wk_dp w)\<lparr>dp_wake :=
            fst (listen (wk_engine w) connect_err listen_err [ConnectionLost m] (dp_wake (wk_dp w)))\<rparr>\<rparr>
      in if dispatch_done g w then go_return None (w'\<lparr>wk_listen := ListenReturned\<rparr>)
         else w'\<lparr>wk_listen := Pausing (wk_clock w + 1000000000)\<rparr>)"

text \<open>\<open>heartbeatLoop\<close>, from the top to its \<open>select\<close>, after the timer, and after the request.\<close>

definition wk_hb :: "worker_proc \<Rightarrow> heartbeat" where
  "wk_hb w = \<lparr>hb_next = wk_next w, hb_table = dp_table (wk_dp w)\<rparr>"

definition set_hb :: "heartbeat_pc \<Rightarrow> heartbeat \<Rightarrow> worker_proc \<Rightarrow> worker_proc" where
  "set_hb pc hb w = w\<lparr>wk_heartbeat := pc, wk_next := hb_next hb, wk_dp := (wk_dp w)\<lparr>dp_table := hb_table hb\<rparr>\<rparr>"

definition heartbeat_top :: "string list \<Rightarrow> worker_proc \<Rightarrow> worker_proc" where
  "heartbeat_top order w =
     (let (wakeAt, hb) = heartbeat_wake order (wk_clock w) (wk_hb w)
      in set_hb (HeartbeatSelecting wakeAt) hb w)"

definition heartbeat_timer :: "string list \<Rightarrow> string list \<Rightarrow> worker_proc \<Rightarrow> worker_proc" where
  "heartbeat_timer order order' w =
     (case heartbeat_request (wk_engine w) order order' (wk_clock w) (wk_hb w) of
        (None, hb) \<Rightarrow> set_hb HeartbeatTop hb w
      | (Some (bound, runIDs, tokens), hb) \<Rightarrow> set_hb (Renewing (wk_clock w) bound runIDs tokens) hb w)"

definition heartbeat_answer :: "gotime \<Rightarrow> string list \<Rightarrow> pg_error + string set \<Rightarrow> worker_proc \<Rightarrow> worker_proc" where
  "heartbeat_answer now tokens answer w =
     (case answer of
        Inl err \<Rightarrow>
          if wk_work_done w then go_return None (w\<lparr>wk_heartbeat := HeartbeatReturned\<rparr>)
          else w\<lparr>wk_heartbeat := HeartbeatTop\<rparr>
      | Inr renewed \<Rightarrow>
          w\<lparr>wk_heartbeat := HeartbeatTop,
            wk_dp := (wk_dp w)\<lparr>dp_table := heartbeat_apply (wk_engine w) now tokens answer (dp_table (wk_dp w))\<rparr>\<rparr>)"

text \<open>
  \<open>dispatchLoop\<close>: the closure \<open>dispatch\<close> up to its claim statement and after it, the \<open>select\<close> that
  sees the context done, and the return.  The statement runs under \<open>workCtx\<close>.
\<close>

definition dispatch_begin :: "errgroup \<Rightarrow> worker_proc \<Rightarrow> worker_proc" where
  "dispatch_begin g w =
     (let available = e_maxConcurrency (wk_engine w) - dp_inFlight (wk_dp w)
      in if dispatch_done g w \<or> available \<le> 0 then w\<lparr>wk_dispatch := DispatchSelecting\<rparr>
         else w\<lparr>wk_dispatch := Claiming available\<rparr>)"

definition dispatch_claimed :: "go_error + claimedRun list \<Rightarrow> worker_proc \<Rightarrow> worker_proc" where
  "dispatch_claimed answer w =
     (case answer of
        Inl err \<Rightarrow> w\<lparr>wk_dispatch := DispatchSelecting\<rparr>
      | Inr cruns \<Rightarrow> w\<lparr>wk_dispatch := DispatchSelecting,
                     wk_dp := fold (start_run (wk_work_done w)) cruns (wk_dp w)\<rparr>)"

definition drainTimeout :: "Engine \<Rightarrow> duration" where
  "drainTimeout e = max (e_leaseTTL e) 5000000000"

definition dispatch_drain :: "worker_proc \<Rightarrow> worker_proc" where
  "dispatch_drain w =
     w\<lparr>wk_dispatch := DrainSelecting (wk_clock w + drainTimeout (wk_engine w)),
       wk_dp := (wk_dp w)\<lparr>dp_phase := Draining\<rparr>\<rparr>"

definition dispatch_return :: "worker_proc \<Rightarrow> worker_proc" where
  "dispatch_return w = go_return None (cancelWork (w\<lparr>wk_dispatch := DispatchReturned\<rparr>))"

text \<open>
  One step of the goroutines of a worker, of the claims it has started, of the claims an
  earlier worker of the engine has left, of the caller, or of the clock.  A \<open>select\<close> takes any
  ready case.  The database is part of the environment: a statement sees it in any state.
\<close>

inductive wk_step :: "errgroup \<Rightarrow> worker_proc \<Rightarrow> worker_proc \<Rightarrow> bool" for g where
  cancel: "wk_step g w (w\<lparr>wk_done := True\<rparr>)"
| elapse: "0 \<le> dt \<Longrightarrow> wk_step g w (w\<lparr>wk_clock := wk_clock w + dt\<rparr>)"
| listen_up: "wk_listen w = Listening \<Longrightarrow>
     wk_step g w (w\<lparr>wk_dp := (wk_dp w)\<lparr>dp_wake := signal (dp_wake (wk_dp w))\<rparr>\<rparr>)"
| listen_notified: "wk_listen w = Listening \<Longrightarrow> wk_step g w (listen_note payload w)"
| listen_failed: "wk_listen w = Listening \<Longrightarrow> wk_step g w (listen_return g connect_err listen_err m w)"
| pause_stopped: "\<lbrakk>wk_listen w = Pausing t; dispatch_done g w\<rbrakk> \<Longrightarrow>
     wk_step g w (go_return None (w\<lparr>wk_listen := ListenReturned\<rparr>))"
| pause_over: "\<lbrakk>wk_listen w = Pausing t; t \<le> wk_clock w\<rbrakk> \<Longrightarrow> wk_step g w (w\<lparr>wk_listen := Listening\<rparr>)"
| maintained: "wk_maintenance w = LoopWorking \<Longrightarrow> wk_step g w (w\<lparr>wk_maintenance := LoopSelecting\<rparr>)"
| maintenance_tick: "wk_maintenance w = LoopSelecting \<Longrightarrow> wk_step g w (w\<lparr>wk_maintenance := LoopWorking\<rparr>)"
| maintenance_stopped: "\<lbrakk>wk_maintenance w = LoopSelecting; dispatch_done g w\<rbrakk> \<Longrightarrow>
     wk_step g w (go_return None (w\<lparr>wk_maintenance := LoopReturned\<rparr>))"
| pruned: "wk_retention w = LoopWorking \<Longrightarrow> wk_step g w (w\<lparr>wk_retention := LoopSelecting\<rparr>)"
| retention_tick: "wk_retention w = LoopSelecting \<Longrightarrow> wk_step g w (w\<lparr>wk_retention := LoopWorking\<rparr>)"
| retention_stopped: "\<lbrakk>wk_retention w = LoopSelecting; dispatch_done g w\<rbrakk> \<Longrightarrow>
     wk_step g w (go_return None (w\<lparr>wk_retention := LoopReturned\<rparr>))"
| heartbeat_sleeps: "\<lbrakk>wk_heartbeat w = HeartbeatTop; map_order (dp_table (wk_dp w)) order\<rbrakk> \<Longrightarrow>
     wk_step g w (heartbeat_top order w)"
| heartbeat_stopped: "\<lbrakk>wk_heartbeat w = HeartbeatSelecting t; wk_work_done w\<rbrakk> \<Longrightarrow>
     wk_step g w (go_return None (w\<lparr>wk_heartbeat := HeartbeatReturned\<rparr>))"
| heartbeat_fires: "\<lbrakk>wk_heartbeat w = HeartbeatSelecting t; t \<le> wk_clock w;
     map_order (dp_table (wk_dp w)) order; map_order (dp_table (wk_dp w)) order'\<rbrakk> \<Longrightarrow>
     wk_step g w (heartbeat_timer order order' w)"
| renewal_answered: "\<lbrakk>wk_heartbeat w = Renewing now bound runIDs tokens;
     renewLeases_op f dnow dclk (wk_engine w) runIDs tokens d = (answer, d')\<rbrakk> \<Longrightarrow>
     wk_step g w (heartbeat_answer now tokens answer w)"
| renewal_interrupted: "\<lbrakk>wk_heartbeat w = Renewing now bound runIDs tokens; bound \<le> wk_clock w \<or> wk_work_done w\<rbrakk> \<Longrightarrow>
     wk_step g w (heartbeat_answer now tokens (Inl (ConnectionError m)) w)"
| dispatch_called: "wk_dispatch w = DispatchCall \<Longrightarrow> wk_step g w (dispatch_begin g w)"
| claim_answered: "\<lbrakk>wk_dispatch w = Claiming limit;
     claimReadyRuns f gen locked now clk started order (wk_engine w) limit d = (answer, d')\<rbrakk> \<Longrightarrow>
     wk_step g w (dispatch_claimed answer w)"
| dispatch_tick: "wk_dispatch w = DispatchSelecting \<Longrightarrow> wk_step g w (w\<lparr>wk_dispatch := DispatchCall\<rparr>)"
| dispatch_woken: "\<lbrakk>wk_dispatch w = DispatchSelecting; dp_wake (wk_dp w)\<rbrakk> \<Longrightarrow>
     wk_step g w (w\<lparr>wk_dispatch := DispatchCall, wk_dp := (wk_dp w)\<lparr>dp_wake := False\<rparr>\<rparr>)"
| dispatch_stopped: "\<lbrakk>wk_dispatch w = DispatchSelecting; dispatch_done g w\<rbrakk> \<Longrightarrow> wk_step g w (dispatch_drain w)"
| drained: "\<lbrakk>wk_dispatch w = DrainSelecting t; dp_running (wk_dp w) = []\<rbrakk> \<Longrightarrow> wk_step g w (dispatch_return w)"
| drain_timeout: "\<lbrakk>wk_dispatch w = DrainSelecting t; t \<le> wk_clock w\<rbrakk> \<Longrightarrow> wk_step g w (dispatch_return w)"
| claim_finished: "token \<in> set (dp_running (wk_dp w)) \<Longrightarrow> wk_step g w (w\<lparr>wk_dp := finish_run token (wk_dp w)\<rparr>)"
| leftover_finished: "0 < dp_leftover (wk_dp w) \<Longrightarrow>
     wk_step g w (w\<lparr>wk_dp := (wk_dp w)\<lparr>dp_leftover := dp_leftover (wk_dp w) - 1, dp_engine := claim_done (wk_engine w)\<rparr>\<rparr>)"
| returned: "\<lbrakk>length (wk_results w) = 5; dp_phase (wk_dp w) \<noteq> Stopped\<rbrakk> \<Longrightarrow> wk_step g w (worker_return w)"

text \<open>The two halves of the closure, run together, are the atomic one of \<open>Worker_Loops\<close>.\<close>

lemma dispatch_halves:
  "wk_dp (case wk_dispatch (dispatch_begin g w) of
       Claiming limit \<Rightarrow> dispatch_claimed (fst (claims limit)) (dispatch_begin g w) | _ \<Rightarrow> dispatch_begin g w)
   = dispatch (dispatch_done g w) (wk_work_done w) claims (wk_dp w)"
  by (auto simp: dispatch_begin_def dispatch_claimed_def dispatch_def Let_def split: sum.splits prod.splits)

section \<open>The invariant\<close>

definition returned_loops :: "worker_proc \<Rightarrow> nat" where
  "returned_loops w =
     of_bool (wk_listen w = ListenReturned) + of_bool (wk_maintenance w = LoopReturned)
   + of_bool (wk_retention w = LoopReturned) + of_bool (wk_heartbeat w = HeartbeatReturned)
   + of_bool (wk_dispatch w = DispatchReturned)"

definition all_returned :: "worker_proc \<Rightarrow> bool" where
  "all_returned w \<longleftrightarrow> wk_listen w = ListenReturned \<and> wk_maintenance w = LoopReturned \<and> wk_retention w = LoopReturned
     \<and> wk_heartbeat w = HeartbeatReturned \<and> wk_dispatch w = DispatchReturned"

lemma returned_loops_5: "returned_loops w = 5 \<longleftrightarrow> all_returned w"
  by (auto simp: returned_loops_def all_returned_def of_bool_def)

definition all_cancelled :: "leaseTable \<Rightarrow> bool" where
  "all_cancelled t \<longleftrightarrow> (\<forall>k e. t k = Some e \<longrightarrow> le_cancelled e)"

text \<open>The contexts: who may have stopped, and when.\<close>

definition contexts_ok :: "worker_proc \<Rightarrow> bool" where
  "contexts_ok w \<longleftrightarrow>
     (wk_work_done w \<longleftrightarrow> wk_dispatch w = DispatchReturned)
   \<and> (wk_heartbeat w = HeartbeatReturned \<longrightarrow> wk_work_done w)
   \<and> (wk_listen w = ListenReturned \<or> wk_maintenance w = LoopReturned \<or> wk_retention w = LoopReturned
      \<or> dp_phase (wk_dp w) \<noteq> Dispatching \<longrightarrow> wk_done w)
   \<and> (wk_work_done w \<longrightarrow> all_cancelled (dp_table (wk_dp w)))"

text \<open>The group: one result for each loop that has returned, none of them an error.\<close>

definition group_ok :: "worker_proc \<Rightarrow> bool" where
  "group_ok w \<longleftrightarrow> set (wk_results w) \<subseteq> {None} \<and> length (wk_results w) = returned_loops w"

text \<open>The dispatcher: its phase, the slots its claim statement may fill, and its drain timer.\<close>

definition dispatching_ok :: "worker_proc \<Rightarrow> bool" where
  "dispatching_ok w \<longleftrightarrow>
     dispatcher_ok (wk_dp w)
   \<and> (case wk_dispatch w of
        Claiming limit \<Rightarrow> dp_phase (wk_dp w) = Dispatching \<and> 0 < limit \<and> dp_inFlight (wk_dp w) + limit \<le> e_maxConcurrency (wk_engine w)
      | DrainSelecting t \<Rightarrow> dp_phase (wk_dp w) = Draining \<and> t \<le> wk_clock w + drainTimeout (wk_engine w)
      | DispatchReturned \<Rightarrow> dp_phase (wk_dp w) = Draining \<or> dp_phase (wk_dp w) = Stopped \<and> all_returned w
      | _ \<Rightarrow> dp_phase (wk_dp w) = Dispatching)"

definition worker_ok :: "worker_proc \<Rightarrow> bool" where
  "worker_ok w \<longleftrightarrow> contexts_ok w \<and> group_ok w \<and> dispatching_ok w"

lemma go_return_simps [simp]:
  "wk_done (go_return r w) = wk_done w" "wk_work_done (go_return r w) = wk_work_done w"
  "wk_clock (go_return r w) = wk_clock w" "wk_results (go_return r w) = wk_results w @ [r]"
  "wk_listen (go_return r w) = wk_listen w" "wk_maintenance (go_return r w) = wk_maintenance w"
  "wk_retention (go_return r w) = wk_retention w" "wk_heartbeat (go_return r w) = wk_heartbeat w"
  "wk_dispatch (go_return r w) = wk_dispatch w" "wk_dp (go_return r w) = wk_dp w"
  by (simp_all add: go_return_def)

lemma cancelWork_simps [simp]:
  "wk_done (cancelWork w) = wk_done w" "wk_work_done (cancelWork w)"
  "wk_clock (cancelWork w) = wk_clock w" "wk_results (cancelWork w) = wk_results w"
  "wk_listen (cancelWork w) = wk_listen w" "wk_maintenance (cancelWork w) = wk_maintenance w"
  "wk_retention (cancelWork w) = wk_retention w" "wk_heartbeat (cancelWork w) = wk_heartbeat w"
  "wk_dispatch (cancelWork w) = wk_dispatch w"
  "wk_dp (cancelWork w) = (wk_dp w)\<lparr>dp_table := cancel_all (dp_table (wk_dp w))\<rparr>"
  by (simp_all add: cancelWork_def)

lemma cancel_all_simps [simp]: "all_cancelled (cancel_all t)" "dom (cancel_all t) = dom t"
  by (auto simp: cancel_all_def all_cancelled_def cancel_entry_def)

text \<open>Under the group's contract, its context is the caller's as long as no loop fails.\<close>

lemma dispatch_done_iff: "errgroup_ok g \<Longrightarrow> group_ok w \<Longrightarrow> dispatch_done g w \<longleftrightarrow> wk_done w"
  by (auto simp: dispatch_done_def errgroup_ok_def group_ok_def)

text \<open>A change of the lease table that keeps its claims and revives none.\<close>

definition table_keeps :: "leaseTable \<Rightarrow> leaseTable \<Rightarrow> bool" where
  "table_keeps t t' \<longleftrightarrow> dom t' = dom t \<and> (all_cancelled t \<longrightarrow> all_cancelled t')"

lemma table_keeps_map:
  "(\<And>k e. le_cancelled e \<Longrightarrow> le_cancelled (f k e)) \<Longrightarrow> table_keeps t (\<lambda>k. map_option (f k) (t k))"
  by (auto simp: table_keeps_def all_cancelled_def)

lemma table_keeps_refl [simp]: "table_keeps t t"
  by (simp add: table_keeps_def)

lemma expire_keeps:
  assumes "map_order t order"
  shows "table_keeps t (snd (expire order now t))"
proof -
  have "snd (expire order now t) = (\<lambda>k. map_option (expire_entry now) (t k))"
    using assms expire_loop_table [of order now None t]
    by (auto simp: expire_def map_order_def fun_eq_iff domIff split: option.splits)
  then show ?thesis using table_keeps_map [of "\<lambda>_. expire_entry now"] by simp
qed

lemma heartbeat_apply_keeps: "table_keeps t (heartbeat_apply e now tokens answer t)"
proof (cases answer)
  case (Inr renewed)
  have "applyRenewal tokens renewed (now + e_leaseTTL e) t =
      (\<lambda>k. map_option (\<lambda>e'. if k \<notin> set tokens then e' else if k \<in> renewed then e'\<lparr>le_deadline := now + e_leaseTTL e\<rparr>
        else cancel_entry e') (t k))"
    by (auto simp: applyRenewal_lookup fun_eq_iff option.map_id option.map_ident split: option.splits)
  moreover have "table_keeps t \<dots>" by (rule table_keeps_map) (simp add: cancel_entry_def)
  ultimately show ?thesis by (simp add: heartbeat_apply_def Inr)
qed (simp add: heartbeat_apply_def)

lemma heartbeat_top_hb:
  assumes "map_order (dp_table (wk_dp w)) order"
  shows "\<exists>pc hb. heartbeat_top order w = set_hb pc hb w \<and> pc \<noteq> HeartbeatReturned
    \<and> table_keeps (dp_table (wk_dp w)) (hb_table hb)"
proof -
  obtain m t where ex: "expire order (wk_clock w) (dp_table (wk_dp w)) = (m, t)" by fastforce
  then have "table_keeps (dp_table (wk_dp w)) t" using expire_keeps [OF assms, of "wk_clock w"] by simp
  then show ?thesis
    by (intro exI [of _ "HeartbeatSelecting _"] exI [of _ "\<lparr>hb_next = wk_next w, hb_table = t\<rparr>"])
      (simp add: heartbeat_top_def heartbeat_wake_def wk_hb_def Let_def ex)
qed

lemma heartbeat_timer_hb:
  assumes "map_order (dp_table (wk_dp w)) order"
  shows "\<exists>pc hb. heartbeat_timer order order' w = set_hb pc hb w \<and> pc \<noteq> HeartbeatReturned
    \<and> table_keeps (dp_table (wk_dp w)) (hb_table hb)"
proof (cases "wk_clock w < wk_next w")
  case True
  then have "heartbeat_timer order order' w = set_hb HeartbeatTop (wk_hb w) w"
    by (simp add: heartbeat_timer_def heartbeat_request_def wk_hb_def)
  moreover have "table_keeps (dp_table (wk_dp w)) (hb_table (wk_hb w))" by (simp add: wk_hb_def)
  ultimately show ?thesis by blast
next
  case False
  obtain m t where ex: "expire order (wk_clock w) (dp_table (wk_dp w)) = (m, t)" by fastforce
  then have keeps: "table_keeps (dp_table (wk_dp w)) t" using expire_keeps [OF assms, of "wk_clock w"] by simp
  obtain ids tokens where sn: "snapshot order' t = (ids, tokens)" by fastforce
  let ?hb = "\<lparr>hb_next = wk_clock w + e_heartbeatEvery (wk_engine w), hb_table = t\<rparr>"
  let ?pc = "if tokens = [] then HeartbeatTop
      else Renewing (wk_clock w) (case m of Some m \<Rightarrow> m | None \<Rightarrow> wk_clock w + e_leaseTTL (wk_engine w)) ids tokens"
  have "heartbeat_timer order order' w = set_hb ?pc ?hb w"
    using False by (simp add: heartbeat_timer_def heartbeat_request_def wk_hb_def ex sn)
  moreover have "?pc \<noteq> HeartbeatReturned" "table_keeps (dp_table (wk_dp w)) (hb_table ?hb)" using keeps by simp_all
  ultimately show ?thesis by blast
qed

lemma dispatcher_ok_table:
  "dispatcher_ok dp \<Longrightarrow> dom t = dom (dp_table dp) \<Longrightarrow> dispatcher_ok (dp\<lparr>dp_table := t\<rparr>)"
  by (simp add: dispatcher_ok_def)

lemma set_hb_ok:
  assumes "worker_ok w" "wk_heartbeat w \<noteq> HeartbeatReturned" "pc \<noteq> HeartbeatReturned"
    "table_keeps (dp_table (wk_dp w)) (hb_table hb)"
  shows "worker_ok (set_hb pc hb w)"
proof -
  have "contexts_ok (set_hb pc hb w)" using assms by (auto simp: worker_ok_def contexts_ok_def set_hb_def table_keeps_def)
  moreover have "returned_loops (set_hb pc hb w) = returned_loops w" using assms(2,3) by (simp add: returned_loops_def set_hb_def)
  moreover have "dispatcher_ok ((wk_dp w)\<lparr>dp_table := hb_table hb\<rparr>)"
    using assms(1,4) by (intro dispatcher_ok_table) (simp_all add: worker_ok_def dispatching_ok_def table_keeps_def)
  ultimately show ?thesis
    using assms(1-3)
    by (simp add: worker_ok_def group_ok_def dispatching_ok_def all_returned_def set_hb_def split: dispatch_pc.splits)
qed

lemmas worker_ok_defs = worker_ok_def contexts_ok_def group_ok_def dispatching_ok_def all_returned_def returned_loops_def

lemma dispatcher_ok_wake: "dispatcher_ok (dp\<lparr>dp_wake := b\<rparr>) = dispatcher_ok dp"
  by (simp add: dispatcher_ok_def)

lemma wake_ok: "worker_ok w \<Longrightarrow> worker_ok (w\<lparr>wk_dp := (wk_dp w)\<lparr>dp_wake := b\<rparr>\<rparr>)"
  by (auto simp: worker_ok_defs dispatcher_ok_wake split: dispatch_pc.splits)

lemma heartbeat_answer_ok:
  assumes "worker_ok w" "wk_heartbeat w = Renewing now bound runIDs tokens"
  shows "worker_ok (heartbeat_answer now tokens answer w)"
proof (cases answer)
  case (Inl err)
  then show ?thesis using assms by (auto simp: heartbeat_answer_def worker_ok_defs split: dispatch_pc.splits)
next
  case (Inr renewed)
  let ?hb = "\<lparr>hb_next = wk_next w, hb_table = heartbeat_apply (wk_engine w) now tokens answer (dp_table (wk_dp w))\<rparr>"
  have "heartbeat_answer now tokens answer w = set_hb HeartbeatTop ?hb w"
    by (simp add: heartbeat_answer_def set_hb_def Inr)
  moreover have "worker_ok \<dots>" using assms by (intro set_hb_ok) (simp_all add: heartbeat_apply_keeps)
  ultimately show ?thesis by simp
qed

lemma finish_run_ok:
  assumes "worker_ok w" "token \<in> set (dp_running (wk_dp w))"
  shows "worker_ok (w\<lparr>wk_dp := finish_run token (wk_dp w)\<rparr>)"
proof -
  have "dispatcher_ok (finish_run token (wk_dp w))"
    using assms by (intro dispatch_step_ok [OF dispatch_step.finish]) (auto simp: worker_ok_defs)
  then show ?thesis
    using assms(1)
    by (auto simp: worker_ok_defs finish_run_def claim_done_def lt_release_def all_cancelled_def drainTimeout_def
        split: dispatch_pc.splits)
qed

lemma leftover_ok:
  assumes "worker_ok w" "0 < dp_leftover (wk_dp w)"
  shows "worker_ok (w\<lparr>wk_dp := (wk_dp w)\<lparr>dp_leftover := dp_leftover (wk_dp w) - 1, dp_engine := claim_done (wk_engine w)\<rparr>\<rparr>)"
proof -
  have "dispatcher_ok ((wk_dp w)\<lparr>dp_leftover := dp_leftover (wk_dp w) - 1, dp_engine := claim_done (wk_engine w)\<rparr>)"
    using assms by (intro dispatch_step_ok [OF dispatch_step.leftover]) (auto simp: worker_ok_defs)
  then show ?thesis
    using assms(1) by (auto simp: worker_ok_defs claim_done_def drainTimeout_def split: dispatch_pc.splits)
qed

lemma start_runs_engine: "e_leaseTTL (dp_engine (fold (start_run stopped) cruns dp)) = e_leaseTTL (dp_engine dp)"
  by (induction cruns arbitrary: dp) (simp_all add: start_run_def claim_started_def)

lemma dispatch_claimed_fits:
  assumes "worker_ok w" "wk_dispatch w = Claiming limit" "\<And>cruns. answer = Inr cruns \<Longrightarrow> int (length cruns) \<le> limit"
  shows "worker_ok (dispatch_claimed answer w)"
proof (cases answer)
  case (Inl err)
  then show ?thesis using assms(1,2) by (auto simp: dispatch_claimed_def worker_ok_defs)
next
  case (Inr cruns)
  then have "dispatcher_ok (fold (start_run (wk_work_done w)) cruns (wk_dp w))"
    using assms by (auto simp: worker_ok_defs dispatcher_ok_def start_runs)
  then show ?thesis
    using assms(1,2) by (auto simp: dispatch_claimed_def worker_ok_defs Inr start_runs)
qed

lemma dispatch_claimed_ok:
  assumes "worker_ok w" "wk_dispatch w = Claiming limit"
    and "claimReadyRuns f gen locked now clk started order e limit d = (answer, d')"
  shows "worker_ok (dispatch_claimed answer w)"
  using assms(1,2)
proof (rule dispatch_claimed_fits)
  fix cruns
  assume "answer = Inr cruns"
  then show "int (length cruns) \<le> limit"
    using claimReadyRuns_limit [of f gen] assms by (fastforce simp: worker_ok_defs)
qed

lemma dispatch_return_ok:
  assumes "worker_ok w" "wk_dispatch w = DrainSelecting t"
  shows "worker_ok (dispatch_return w)"
proof -
  have "dispatcher_ok ((wk_dp w)\<lparr>dp_table := cancel_all (dp_table (wk_dp w))\<rparr>)"
    using assms(1) by (intro dispatcher_ok_table) (simp_all add: worker_ok_defs)
  then show ?thesis using assms by (auto simp: dispatch_return_def worker_ok_defs)
qed

lemma worker_return_ok:
  assumes "worker_ok w" "length (wk_results w) = 5"
  shows "worker_ok (worker_return w)"
proof -
  have "dispatcher_ok ((wk_dp w)\<lparr>dp_table := cancel_all (dp_table (wk_dp w)), dp_engine := endWorker (wk_engine w), dp_phase := Stopped\<rparr>)"
    using assms(1) by (simp add: worker_ok_defs dispatcher_ok_def endWorker_def)
  moreover have "all_returned w" "wk_done w"
    using assms returned_loops_5 [of w] by (auto simp: worker_ok_def group_ok_def contexts_ok_def all_returned_def)
  ultimately show ?thesis using assms by (auto simp: worker_return_def worker_ok_defs Let_def)
qed

lemma wk_step_ok:
  assumes "wk_step g w w'" "errgroup_ok g" "worker_ok w"
  shows "worker_ok w'"
  using assms(1)
proof cases
  case (listen_failed connect_err listen_err m)
  then show ?thesis
    using assms(3) dispatch_done_iff [OF assms(2), of w]
    by (auto simp: listen_return_def worker_ok_defs dispatcher_ok_wake Let_def split: dispatch_pc.splits)
next
  case (heartbeat_sleeps order)
  then show ?thesis using heartbeat_top_hb [OF heartbeat_sleeps(3)] set_hb_ok [OF assms(3)] by auto
next
  case (heartbeat_fires t order order')
  then show ?thesis using heartbeat_timer_hb [OF heartbeat_fires(4), of order'] set_hb_ok [OF assms(3)] by auto
next
  case (renewal_answered now bound runIDs tokens f dnow dclk d answer d')
  then show ?thesis using heartbeat_answer_ok [OF assms(3)] by simp
next
  case (renewal_interrupted now bound runIDs tokens m)
  then show ?thesis using heartbeat_answer_ok [OF assms(3)] by simp
next
  case (claim_answered limit f gen locked now clk started order d answer d')
  then show ?thesis using dispatch_claimed_ok [OF assms(3)] by blast
next
  case (claim_finished token)
  then show ?thesis using finish_run_ok [OF assms(3)] by simp
next
  case leftover_finished
  then show ?thesis using leftover_ok [OF assms(3)] by simp
next
  case (drained t)
  then show ?thesis using dispatch_return_ok [OF assms(3)] by simp
next
  case (drain_timeout t)
  then show ?thesis using dispatch_return_ok [OF assms(3)] by simp
next
  case returned
  then show ?thesis using worker_return_ok [OF assms(3)] by simp
qed (use assms(3) dispatch_done_iff [OF assms(2), of w] wake_ok [OF assms(3)] in
  \<open>auto simp: worker_ok_defs listen_note_def dispatch_begin_def dispatch_drain_def Let_def dispatcher_ok_def
    split: dispatch_pc.splits\<close>)

interpretation lifecycle: transition_invariant "\<lambda>w w'. errgroup_ok g \<and> wk_step g w w'" worker_ok
  by unfold_locales (use wk_step_ok in blast)

lemma StartWorker_ok:
  assumes "StartWorker now e = Inr w" "0 \<le> e_maxConcurrency e"
  shows "worker_ok w"
proof -
  obtain dp where dp: "start_dispatcher e = Inr dp"
    using assms(1) by (auto simp: StartWorker_def split: sum.splits)
  then have "dispatcher_ok dp" "dp_phase dp = Dispatching"
    using assms(2)
    by (auto simp: start_dispatcher_def beginWorker_def dispatcher_ok_def newLeaseTable_def split: if_splits)
  then show ?thesis using assms(1) dp by (auto simp: StartWorker_def worker_ok_defs)
qed

lemma lifecycle_ok:
  assumes "errgroup_ok g" "StartWorker now e = Inr w0" "0 \<le> e_maxConcurrency e" "(wk_step g)\<^sup>*\<^sup>* w0 w"
  shows "worker_ok w"
proof -
  have "wk_step g = (\<lambda>w w'. errgroup_ok g \<and> wk_step g w w')" using assms(1) by simp
  then have "(\<lambda>w w'. errgroup_ok g \<and> wk_step g w w')\<^sup>*\<^sup>* w0 w" using assms(4) by simp
  then show ?thesis by (rule lifecycle.steps_inv) (rule StartWorker_ok [OF assms(2,3)])
qed

section \<open>Shutting down\<close>

text \<open>The work context is cancelled by no step but the return of the dispatcher.\<close>

lemma work_cancelled_by_drain:
  assumes "wk_step g w w'" "worker_ok w" "wk_work_done w'" "\<not> wk_work_done w"
  shows "\<exists>t. wk_dispatch w = DrainSelecting t \<and> (dp_running (wk_dp w) = [] \<or> t \<le> wk_clock w)"
  using assms(1)
proof cases
  case returned
  then show ?thesis using assms(2,4) returned_loops_5 [of w] by (auto simp: worker_ok_defs)
qed (use assms(3,4) in \<open>auto simp: listen_note_def listen_return_def heartbeat_top_def heartbeat_timer_def set_hb_def
    heartbeat_answer_def dispatch_begin_def dispatch_claimed_def dispatch_drain_def Let_def
    split: if_splits sum.splits prod.splits option.splits\<close>)

text \<open>How much a worker still has to do after its context is done, and how long it may take.\<close>

fun listen_left :: "listen_pc \<Rightarrow> nat" where
  "listen_left ListenReturned = 0"
| "listen_left _ = 1"

fun loop_left :: "loop_pc \<Rightarrow> nat" where
  "loop_left LoopWorking = 2"
| "loop_left LoopSelecting = 1"
| "loop_left LoopReturned = 0"

fun heartbeat_left :: "heartbeat_pc \<Rightarrow> nat" where
  "heartbeat_left HeartbeatTop = 2"
| "heartbeat_left HeartbeatReturned = 0"
| "heartbeat_left _ = 1"

fun dispatch_left :: "dispatch_pc \<Rightarrow> nat" where
  "dispatch_left DispatchSelecting = 2"
| "dispatch_left (DrainSelecting _) = 1"
| "dispatch_left DispatchReturned = 0"
| "dispatch_left _ = 3"

definition shutdown_left :: "worker_proc \<Rightarrow> nat" where
  "shutdown_left w = listen_left (wk_listen w) + loop_left (wk_maintenance w) + loop_left (wk_retention w)
     + heartbeat_left (wk_heartbeat w) + dispatch_left (wk_dispatch w) + of_bool (dp_phase (wk_dp w) \<noteq> Stopped)"

definition drain_bound :: "worker_proc \<Rightarrow> gotime" where
  "drain_bound w =
     (case wk_dispatch w of
        DispatchReturned \<Rightarrow> wk_clock w
      | DrainSelecting t \<Rightarrow> max t (wk_clock w)
      | _ \<Rightarrow> wk_clock w + drainTimeout (wk_engine w))"

definition nearer :: "worker_proc \<Rightarrow> worker_proc \<Rightarrow> bool" where
  "nearer w w' \<longleftrightarrow> wk_done w' \<and> shutdown_left w' < shutdown_left w \<and> drain_bound w' \<le> drain_bound w"

lemma dispatch_nearer:
  assumes "errgroup_ok g" "worker_ok w" "wk_done w" "wk_dispatch w \<noteq> DispatchReturned"
  shows "\<exists>w'. (wk_step g)\<^sup>*\<^sup>* w w' \<and> nearer w w'"
proof -
  have stop: "dispatch_done g w" using assms(3) by (simp add: dispatch_done_def)
  show ?thesis
  proof (cases "wk_dispatch w")
    case DispatchCall
    then have "nearer w (dispatch_begin g w)"
      using stop assms(3) by (simp add: nearer_def dispatch_begin_def shutdown_left_def drain_bound_def)
    then show ?thesis using wk_step.dispatch_called [OF DispatchCall] by blast
  next
    case (Claiming limit)
    obtain answer d' where
      ans: "claimReadyRuns NoFault id (\<lambda>_. False) 0 0 0 [] (wk_engine w) limit empty_db = (answer, d')" by fastforce
    have "nearer w (dispatch_claimed answer w)"
      using Claiming assms(3)
      by (cases answer) (simp_all add: nearer_def dispatch_claimed_def shutdown_left_def drain_bound_def start_runs
          start_runs_engine drainTimeout_def)
    then show ?thesis using wk_step.claim_answered [OF Claiming ans] by blast
  next
    case DispatchSelecting
    then have "nearer w (dispatch_drain w)"
      using assms(2,3) by (simp add: nearer_def dispatch_drain_def shutdown_left_def drain_bound_def drainTimeout_def worker_ok_defs)
    then show ?thesis using wk_step.dispatch_stopped [OF DispatchSelecting stop] by blast
  next
    case (DrainSelecting t)
    let ?later = "w\<lparr>wk_clock := wk_clock w + (max t (wk_clock w) - wk_clock w)\<rparr>"
    have "wk_step g w ?later" by (rule wk_step.elapse) simp
    moreover have "wk_step g ?later (dispatch_return ?later)"
      using DrainSelecting by (intro wk_step.drain_timeout [of _ t]) simp_all
    moreover have "nearer w (dispatch_return ?later)"
      using assms(3) DrainSelecting by (simp add: nearer_def dispatch_return_def shutdown_left_def drain_bound_def)
    ultimately show ?thesis by (meson converse_rtranclp_into_rtranclp r_into_rtranclp)
  qed (use assms(4) in simp)
qed

lemma heartbeat_nearer:
  assumes "worker_ok w" "wk_done w" "wk_dispatch w = DispatchReturned" "wk_heartbeat w \<noteq> HeartbeatReturned"
  shows "\<exists>w'. wk_step g w w' \<and> nearer w w'"
proof -
  have work: "wk_work_done w" using assms(1,3) by (simp add: worker_ok_def contexts_ok_def)
  show ?thesis
  proof (cases "wk_heartbeat w")
    case HeartbeatTop
    have "dom (dp_table (wk_dp w)) \<subseteq> set (dp_running (wk_dp w))"
      using assms(1) by (simp add: worker_ok_def dispatching_ok_def dispatcher_ok_def)
    then have "finite (dom (dp_table (wk_dp w)))" by (rule finite_subset) simp
    then obtain order where "set order = dom (dp_table (wk_dp w))" "distinct order"
      using finite_distinct_list [of "dom (dp_table (wk_dp w))"] by blast
    then have order: "map_order (dp_table (wk_dp w)) order" by (simp add: map_order_def)
    have "nearer w (heartbeat_top order w)"
      using assms(2,3) HeartbeatTop
      by (auto simp: nearer_def heartbeat_top_def set_hb_def shutdown_left_def drain_bound_def split: prod.splits)
    then show ?thesis using wk_step.heartbeat_sleeps [OF HeartbeatTop order] by blast
  next
    case (HeartbeatSelecting t)
    have "nearer w (go_return None (w\<lparr>wk_heartbeat := HeartbeatReturned\<rparr>))"
      using assms(2,3) HeartbeatSelecting by (simp add: nearer_def shutdown_left_def drain_bound_def)
    then show ?thesis using wk_step.heartbeat_stopped [OF HeartbeatSelecting work] by blast
  next
    case (Renewing now bound runIDs tokens)
    have "nearer w (heartbeat_answer now tokens (Inl (ConnectionError m)) w)" for m
      using assms(2,3) Renewing work by (simp add: nearer_def heartbeat_answer_def shutdown_left_def drain_bound_def)
    then show ?thesis using wk_step.renewal_interrupted [OF Renewing] work by blast
  qed (use assms(4) in simp)
qed

lemma loops_nearer:
  assumes "wk_done w" "wk_listen w \<noteq> ListenReturned \<or> wk_maintenance w \<noteq> LoopReturned \<or> wk_retention w \<noteq> LoopReturned"
  shows "\<exists>w'. wk_step g w w' \<and> nearer w w'"
proof -
  have stop: "dispatch_done g w" using assms(1) by (simp add: dispatch_done_def)
  note measures = nearer_def shutdown_left_def drain_bound_def
  consider "wk_listen w = Listening" | t where "wk_listen w = Pausing t"
    | "wk_maintenance w = LoopWorking" | "wk_maintenance w = LoopSelecting"
    | "wk_retention w = LoopWorking" | "wk_retention w = LoopSelecting"
    using assms(2) by (cases "wk_listen w"; cases "wk_maintenance w"; cases "wk_retention w") auto
  then show ?thesis
  proof cases
    case 1
    then have "nearer w (listen_return g None None m w)" for m
      using stop assms(1) by (simp add: measures listen_return_def Let_def split: dispatch_pc.splits)
    then show ?thesis using wk_step.listen_failed [OF 1] by blast
  next
    case 2
    then have "nearer w (go_return None (w\<lparr>wk_listen := ListenReturned\<rparr>))"
      using assms(1) by (simp add: measures split: dispatch_pc.splits)
    then show ?thesis using wk_step.pause_stopped [OF 2 stop] by blast
  next
    case 3
    then have "nearer w (w\<lparr>wk_maintenance := LoopSelecting\<rparr>)" using assms(1) by (simp add: measures split: dispatch_pc.splits)
    then show ?thesis using wk_step.maintained [OF 3] by blast
  next
    case 4
    then have "nearer w (go_return None (w\<lparr>wk_maintenance := LoopReturned\<rparr>))"
      using assms(1) by (simp add: measures split: dispatch_pc.splits)
    then show ?thesis using wk_step.maintenance_stopped [OF 4 stop] by blast
  next
    case 5
    then have "nearer w (w\<lparr>wk_retention := LoopSelecting\<rparr>)" using assms(1) by (simp add: measures split: dispatch_pc.splits)
    then show ?thesis using wk_step.pruned [OF 5] by blast
  next
    case 6
    then have "nearer w (go_return None (w\<lparr>wk_retention := LoopReturned\<rparr>))"
      using assms(1) by (simp add: measures split: dispatch_pc.splits)
    then show ?thesis using wk_step.retention_stopped [OF 6 stop] by blast
  qed
qed

lemma return_nearer:
  assumes "worker_ok w" "wk_done w" "all_returned w" "dp_phase (wk_dp w) \<noteq> Stopped"
  shows "wk_step g w (worker_return w)" "nearer w (worker_return w)"
proof -
  have "length (wk_results w) = 5" using assms(1,3) returned_loops_5 [of w] by (simp add: worker_ok_def group_ok_def)
  then show "wk_step g w (worker_return w)" using assms(4) by (rule wk_step.returned)
  show "nearer w (worker_return w)"
    using assms by (simp add: nearer_def worker_return_def shutdown_left_def drain_bound_def all_returned_def Let_def)
qed

lemma shutdown_progress:
  assumes "errgroup_ok g" "worker_ok w" "wk_done w" "dp_phase (wk_dp w) \<noteq> Stopped"
  shows "\<exists>w'. (wk_step g)\<^sup>*\<^sup>* w w' \<and> nearer w w'"
proof (cases "all_returned w")
  case True
  then show ?thesis using return_nearer [OF assms(2,3)] assms(4) by blast
next
  case False
  consider "wk_dispatch w \<noteq> DispatchReturned" | "wk_dispatch w = DispatchReturned" "wk_heartbeat w \<noteq> HeartbeatReturned"
    | "wk_listen w \<noteq> ListenReturned \<or> wk_maintenance w \<noteq> LoopReturned \<or> wk_retention w \<noteq> LoopReturned"
    using False by (auto simp: all_returned_def)
  then show ?thesis
  proof cases
    case 1
    with assms(1-3) show ?thesis by (rule dispatch_nearer)
  next
    case 2
    then show ?thesis using heartbeat_nearer [OF assms(2,3), of g] by blast
  next
    case 3
    then show ?thesis using loops_nearer [OF assms(3), of g] by blast
  qed
qed

lemma shutdown_reaches_return:
  assumes "errgroup_ok g" "worker_ok w" "wk_done w"
  shows "\<exists>w'. (wk_step g)\<^sup>*\<^sup>* w w' \<and> dp_phase (wk_dp w') = Stopped \<and> wk_clock w' \<le> drain_bound w"
  using assms(2,3)
proof (induction "shutdown_left w" arbitrary: w rule: less_induct)
  case less
  show ?case
  proof (cases "dp_phase (wk_dp w) = Stopped")
    case True
    then have "wk_clock w \<le> drain_bound w"
      by (auto simp: drain_bound_def drainTimeout_def split: dispatch_pc.splits)
    then show ?thesis using True by blast
  next
    case False
    obtain w1 where w1: "(wk_step g)\<^sup>*\<^sup>* w w1" "nearer w w1" using shutdown_progress [OF assms(1) less.prems False] by blast
    have "(\<lambda>w w'. errgroup_ok g \<and> wk_step g w w')\<^sup>*\<^sup>* w w1" using w1(1) assms(1) by simp
    then have "worker_ok w1" using less.prems(1) by (rule lifecycle.steps_inv)
    then obtain w2 where "(wk_step g)\<^sup>*\<^sup>* w1 w2" "dp_phase (wk_dp w2) = Stopped" "wk_clock w2 \<le> drain_bound w1"
      using less.hyps [of w1] w1(2) unfolding nearer_def by blast
    then show ?thesis using w1 unfolding nearer_def by (meson order_trans rtranclp_trans)
  qed
qed

lemma drain_timer:
  assumes "wk_step g w w'" "wk_dispatch w' = DrainSelecting t" "wk_dispatch w \<noteq> DrainSelecting t"
  shows "t = wk_clock w + drainTimeout (wk_engine w) \<and> dispatch_done g w"
  using assms(1)
proof cases
  case (claim_answered limit f gen locked now clk started order d answer d')
  then show ?thesis using assms(2) by (cases answer) (simp_all add: dispatch_claimed_def)
qed (use assms(2,3) in \<open>auto simp: listen_note_def listen_return_def heartbeat_top_def heartbeat_timer_def set_hb_def
    heartbeat_answer_def dispatch_begin_def dispatch_drain_def dispatch_return_def worker_return_def Let_def
    split: if_splits sum.splits prod.splits option.splits\<close>)

text \<open>The claim statement holds the dispatcher: the drain timer is not running, and nothing but the
  answer of the database ends this state, whether or not the context is done.\<close>

lemma claiming_until_answered:
  assumes "wk_step g w w'" "wk_dispatch w = Claiming limit"
  shows "wk_dispatch w' = Claiming limit \<or> (\<exists>answer. w' = dispatch_claimed answer w)"
  using assms(1)
proof cases
  case (claim_answered limit' f gen locked now clk started order d answer d')
  then show ?thesis by blast
qed (use assms(2) in \<open>auto simp: listen_note_def listen_return_def heartbeat_top_def heartbeat_timer_def set_hb_def
    heartbeat_answer_def worker_return_def Let_def split: if_splits sum.splits prod.splits option.splits\<close>)


definition demo_group :: errgroup where
  "demo_group = \<lparr>eg_wait = (\<lambda>rs. case filter (\<lambda>r. r \<noteq> None) rs of [] \<Rightarrow> None | r # _ \<Rightarrow> r),
                 eg_cancelled = list_ex (\<lambda>r. r \<noteq> None)\<rparr>"

lemma demo_group_ok: "errgroup_ok demo_group"
  by (simp add: errgroup_ok_def demo_group_def list_ex_iff)

definition demo_started :: worker_proc where
  "demo_started = \<lparr>wk_done = False, wk_work_done = False, wk_clock = 0, wk_results = [], wk_listen = Listening,
     wk_maintenance = LoopWorking, wk_retention = LoopSelecting, wk_heartbeat = HeartbeatTop,
     wk_next = e_heartbeatEvery demo_worker_engine, wk_dispatch = DispatchCall, wk_dp = demo_dispatcher\<rparr>"

lemma demo_StartWorker: "StartWorker 0 demo_worker_engine = Inr demo_started"
  by (simp add: StartWorker_def demo_started_def start_dispatcher_def beginWorker_def demo_dispatcher_def
      demo_worker_engine_def demo_engine_def)

definition demo_stopping :: worker_proc where
  "demo_stopping = demo_started\<lparr>wk_done := True\<rparr>"

definition demo_draining :: worker_proc where
  "demo_draining = dispatch_drain (demo_stopping\<lparr>wk_dispatch := DispatchSelecting\<rparr>)"

lemma demo_limit: "0 \<le> e_maxConcurrency demo_worker_engine"
  by (simp add: demo_worker_engine_def demo_engine_def)

lemma demo_stopping_steps: "(wk_step demo_group)\<^sup>*\<^sup>* demo_started demo_stopping"
  unfolding demo_stopping_def using wk_step.cancel by (rule r_into_rtranclp)

lemma demo_draining_steps: "(wk_step demo_group)\<^sup>*\<^sup>* demo_started demo_draining"
proof -
  have stop: "dispatch_done demo_group demo_stopping" by (simp add: dispatch_done_def demo_stopping_def)
  have "wk_step demo_group demo_stopping (dispatch_begin demo_group demo_stopping)"
    by (rule wk_step.dispatch_called) (simp add: demo_stopping_def demo_started_def)
  moreover have "dispatch_begin demo_group demo_stopping = demo_stopping\<lparr>wk_dispatch := DispatchSelecting\<rparr>"
    using stop by (simp add: dispatch_begin_def)
  moreover have "wk_step demo_group (demo_stopping\<lparr>wk_dispatch := DispatchSelecting\<rparr>) demo_draining"
    unfolding demo_draining_def by (rule wk_step.dispatch_stopped) (simp_all add: dispatch_done_def demo_stopping_def)
  ultimately show ?thesis using demo_stopping_steps by (metis rtranclp.rtrancl_into_rtrancl)
qed




end
