(* ===== verification/Worker_Ownership.thy ===== *)
theory Worker_Ownership
  imports Worker_Lifecycle
begin

text \<open>
  The worker of \<open>Worker_Lifecycle\<close> beside the system of \<open>Run_System\<close>: its claim and renewal statements run on
  the shared database, and their answers reach the loops later.  The theorem carries the
  guarantee of \<open>Lease_Table\<close> over to the loops of \<open>StartWorker\<close> as they are wired: a claim
  whose deadline has not passed owns its run, from the first claim to the end of the drain.
\<close>

section \<open>The worker and the database\<close>

text \<open>The answers of a claim statement and of a renewal that have been executed and not yet
  been processed.\<close>

record wired =
  wi_sys :: sys
  wi_worker :: worker_proc
  wi_claimed :: "(go_error + claimedRun list) option"
  wi_renewed :: "(pg_error + string set) option"

abbreviation wi_table :: "wired \<Rightarrow> leaseTable" where
  "wi_table x \<equiv> dp_table (wk_dp (wi_worker x))"

abbreviation wi_engine :: "wired \<Rightarrow> Engine" where
  "wi_engine x \<equiv> wk_engine (wi_worker x)"

text \<open>The tokens with the times until which the worker takes their leases to be confirmed.\<close>

definition held :: "wired \<Rightarrow> (string \<times> gotime) set" where
  "held x =
     {(token, le_deadline e) | token e. wi_table x token = Some e}
   \<union> {(cr_Token run, cr_deadline run) | run. \<exists>cruns. wi_claimed x = Some (Inr cruns) \<and> run \<in> set cruns}
   \<union> {(token, local + e_leaseTTL (wi_engine x)) | token local. \<exists>renewed bound ids tokens.
        wi_renewed x = Some (Inr renewed) \<and> token \<in> renewed \<and> wk_heartbeat (wi_worker x) = Renewing local bound ids tokens}"

text \<open>A step of the loops that does not process an answer.\<close>

definition keeps_waiting :: "worker_proc \<Rightarrow> worker_proc \<Rightarrow> bool" where
  "keeps_waiting w w' \<longleftrightarrow>
     (\<forall>limit. wk_dispatch w = Claiming limit \<longrightarrow> wk_dispatch w' = Claiming limit)
   \<and> (\<forall>now bound ids tokens. wk_heartbeat w = Renewing now bound ids tokens \<longrightarrow> wk_heartbeat w' = Renewing now bound ids tokens)"

text \<open>
  Others act on the database, without shortening a lease the worker holds; the loops act,
  with a clock that is not ahead of the database's; a statement is executed; and its answer is processed.  A statement
  may fail at any time; whatever it has done to the database is then a step of the others.
\<close>

inductive wired_step :: "pg \<Rightarrow> errgroup \<Rightarrow> wired \<Rightarrow> wired \<Rightarrow> bool" for pg g where
  others: "\<lbrakk>sys_step pg (wi_sys x) s'; leases_kept (fst ` held x) (s_db (wi_sys x)) (s_db s')\<rbrakk>
     \<Longrightarrow> wired_step pg g x (x\<lparr>wi_sys := s'\<rparr>)"
| loops: "\<lbrakk>wk_step g (wi_worker x) w'; keeps_waiting (wi_worker x) w'; wk_clock w' \<le> s_clock (wi_sys x) * 1000\<rbrakk>
     \<Longrightarrow> wired_step pg g x (x\<lparr>wi_worker := w'\<rparr>)"
| claim: "\<lbrakk>wk_dispatch (wi_worker x) = Claiming limit; wi_claimed x = None; now \<le> s_clock (wi_sys x);
     started \<le> s_clock (wi_sys x) * 1000; supportedWorkflows order (wi_engine x) = (names, versions); names \<noteq> [];
     claim_query gen locked now (s_clock (wi_sys x)) (wi_engine x) (nat limit) names versions (s_db (wi_sys x)) = Inr (cs, d');
     fresh_tokens gen (map cl_id cs) (map ac_token (s_claims (wi_sys x)))\<rbrakk>
     \<Longrightarrow> wired_step pg g x (x\<lparr>
           wi_sys := (wi_sys x)\<lparr>s_db := d', s_claims := s_claims (wi_sys x) @ new_claims cs\<rparr>,
           wi_claimed := Some (Inr (map (scan_run (started + e_leaseTTL (wi_engine x))) cs))\<rparr>)"
| claim_nothing: "\<lbrakk>wk_dispatch (wi_worker x) = Claiming limit; wi_claimed x = None; supportedWorkflows order (wi_engine x) = ([], versions)\<rbrakk>
     \<Longrightarrow> wired_step pg g x (x\<lparr>wi_claimed := Some (Inr [])\<rparr>)"
| claim_failed: "\<lbrakk>wk_dispatch (wi_worker x) = Claiming limit; wi_claimed x = None\<rbrakk>
     \<Longrightarrow> wired_step pg g x (x\<lparr>wi_claimed := Some (Inl err)\<rparr>)"
| claim_answered: "wi_claimed x = Some answer
     \<Longrightarrow> wired_step pg g x (x\<lparr>wi_worker := dispatch_claimed answer (wi_worker x), wi_claimed := None\<rparr>)"
| renew: "\<lbrakk>wk_heartbeat (wi_worker x) = Renewing local bound ids tokens; wi_renewed x = None; now \<le> s_clock (wi_sys x);
     renewLeases_op NoFault now (s_clock (wi_sys x)) (wi_engine x) ids tokens (s_db (wi_sys x)) = (Inr renewed, d')\<rbrakk>
     \<Longrightarrow> wired_step pg g x (x\<lparr>wi_sys := (wi_sys x)\<lparr>s_db := d'\<rparr>, wi_renewed := Some (Inr renewed)\<rparr>)"
| renew_failed: "\<lbrakk>wk_heartbeat (wi_worker x) = Renewing local bound ids tokens; wi_renewed x = None\<rbrakk>
     \<Longrightarrow> wired_step pg g x (x\<lparr>wi_renewed := Some (Inl err)\<rparr>)"
| renew_answered: "\<lbrakk>wk_heartbeat (wi_worker x) = Renewing local bound ids tokens; wi_renewed x = Some answer\<rbrakk>
     \<Longrightarrow> wired_step pg g x (x\<lparr>wi_worker := heartbeat_answer local tokens answer (wi_worker x), wi_renewed := None\<rparr>)"
| renew_interrupted: "\<lbrakk>wk_heartbeat (wi_worker x) = Renewing local bound ids tokens;
     bound \<le> wk_clock (wi_worker x) \<or> wk_work_done (wi_worker x)\<rbrakk>
     \<Longrightarrow> wired_step pg g x
           (x\<lparr>wi_worker := heartbeat_answer local tokens (Inl (ConnectionError m)) (wi_worker x), wi_renewed := None\<rparr>)"

text \<open>The answer to a claim is what \<open>claimReadyRuns\<close> returns.\<close>

lemma claim_answers:
  assumes "0 < limit" "supportedWorkflows order e = (names, versions)"
  shows "names = [] \<Longrightarrow> claimReadyRuns NoFault gen locked now clk started order e limit d = (Inr [], d)"
    and "names \<noteq> [] \<Longrightarrow> claim_query gen locked now clk e (nat limit) names versions d = Inr (cs, d') \<Longrightarrow>
      claimReadyRuns NoFault gen locked now clk started order e limit d = (Inr (map (scan_run (started + e_leaseTTL e)) cs), d')"
  using assms by (simp_all add: claimReadyRuns_def exec_def)

section \<open>What the loops do to the leases\<close>

lemma engine_updates [simp]:
  "e_leaseTTL (claim_done e) = e_leaseTTL e" "e_leaseTTL (endWorker e) = e_leaseTTL e"
  by (simp_all add: claim_done_def endWorker_def)

lemma dispatch_claimed_simps [simp]:
  "e_leaseTTL (wk_engine (dispatch_claimed answer w)) = e_leaseTTL (wk_engine w)"
  "wk_clock (dispatch_claimed answer w) = wk_clock w" "wk_heartbeat (dispatch_claimed answer w) = wk_heartbeat w"
  by (cases answer; simp add: dispatch_claimed_def start_runs_engine)+

lemma heartbeat_answer_simps [simp]:
  "e_leaseTTL (wk_engine (heartbeat_answer now tokens answer w)) = e_leaseTTL (wk_engine w)"
  "wk_clock (heartbeat_answer now tokens answer w) = wk_clock w"
  "wk_dispatch (heartbeat_answer now tokens answer w) = wk_dispatch w"
  "wk_heartbeat (heartbeat_answer now tokens answer w) \<noteq> Renewing a b c d"
  by (cases answer; simp add: heartbeat_answer_def)+

lemma wk_step_ttl: "wk_step g w w' \<Longrightarrow> e_leaseTTL (wk_engine w') = e_leaseTTL (wk_engine w)"
  by (induction rule: wk_step.induct)
    (auto simp: listen_note_def listen_return_def heartbeat_top_def heartbeat_timer_def set_hb_def dispatch_begin_def
      dispatch_drain_def dispatch_return_def finish_run_def worker_return_def Let_def split: prod.splits option.splits)

lemma wk_step_renewing:
  assumes "wk_step g w w'" "wk_heartbeat w' = Renewing local bound ids tokens"
  shows "wk_heartbeat w = Renewing local bound ids tokens \<or> local = wk_clock w"
  using assms
  by (cases rule: wk_step.cases)
    (auto simp: listen_note_def listen_return_def heartbeat_top_def heartbeat_timer_def set_hb_def dispatch_begin_def
      dispatch_drain_def dispatch_return_def finish_run_def worker_return_def Let_def split: prod.splits option.splits if_splits)

text \<open>No deadline of the table is new unless an answer is processed.\<close>

definition deadlines_from :: "leaseTable \<Rightarrow> leaseTable \<Rightarrow> bool" where
  "deadlines_from t t' \<longleftrightarrow> (\<forall>k e'. t' k = Some e' \<longrightarrow> (\<exists>e. t k = Some e \<and> le_deadline e' = le_deadline e))"

lemma deadlines_from_simps [simp]:
  "deadlines_from t t" "deadlines_from t (cancel_all t)" "deadlines_from t (lt_release token t)"
  by (auto simp: deadlines_from_def cancel_all_def cancel_entry_def lt_release_def split: if_splits)

lemma expire_deadlines:
  assumes "map_order t order"
  shows "deadlines_from t (snd (expire order now t))"
  using expire_loop_table [of order now None t] assms
  by (auto simp: deadlines_from_def expire_def map_order_def expire_entry_def cancel_entry_def split: if_splits)

lemma heartbeat_top_deadlines:
  assumes "map_order (dp_table (wk_dp w)) order"
  shows "deadlines_from (dp_table (wk_dp w)) (dp_table (wk_dp (heartbeat_top order w)))"
  using expire_deadlines [OF assms, of "wk_clock w"]
  by (simp add: heartbeat_top_def heartbeat_wake_def wk_hb_def set_hb_def Let_def split_def)

lemma heartbeat_timer_deadlines:
  assumes "map_order (dp_table (wk_dp w)) order"
  shows "deadlines_from (dp_table (wk_dp w)) (dp_table (wk_dp (heartbeat_timer order order' w)))"
proof (cases "wk_clock w < wk_next w")
  case True
  then show ?thesis by (simp add: heartbeat_timer_def heartbeat_request_def wk_hb_def set_hb_def)
next
  case False
  obtain m t where ex: "expire order (wk_clock w) (dp_table (wk_dp w)) = (m, t)" by fastforce
  then have "deadlines_from (dp_table (wk_dp w)) t" using expire_deadlines [OF assms, of "wk_clock w"] by simp
  moreover obtain ids tokens where "snapshot order' t = (ids, tokens)" by fastforce
  ultimately show ?thesis using False
    by (simp add: heartbeat_timer_def heartbeat_request_def wk_hb_def set_hb_def ex Let_def)
qed

lemma wk_step_deadlines:
  assumes "wk_step g w w'" "keeps_waiting w w'"
  shows "deadlines_from (dp_table (wk_dp w)) (dp_table (wk_dp w'))"
  using assms(1)
proof cases
  case (heartbeat_sleeps order)
  then show ?thesis using heartbeat_top_deadlines by simp
next
  case (heartbeat_fires t order order')
  then show ?thesis using heartbeat_timer_deadlines by simp
next
  case (renewal_answered now bound runIDs tokens f dnow dclk d answer d')
  then show ?thesis using assms(2) by (simp add: keeps_waiting_def)
next
  case (renewal_interrupted now bound runIDs tokens m)
  then show ?thesis using assms(2) by (simp add: keeps_waiting_def)
next
  case (claim_answered limit f gen locked now clk started order d answer d')
  then show ?thesis using assms(2) by (cases answer) (simp_all add: keeps_waiting_def dispatch_claimed_def)
qed (auto simp: listen_note_def listen_return_def dispatch_begin_def dispatch_drain_def dispatch_return_def finish_run_def
    worker_return_def Let_def)

section \<open>The invariant\<close>

definition answers_ok :: "wired \<Rightarrow> bool" where
  "answers_ok x \<longleftrightarrow>
     (\<forall>answer. wi_claimed x = Some answer \<longrightarrow>
        (\<exists>limit. wk_dispatch (wi_worker x) = Claiming limit \<and> (\<forall>cruns. answer = Inr cruns \<longrightarrow> int (length cruns) \<le> limit)))
   \<and> (wi_renewed x \<noteq> None \<longrightarrow> (\<exists>local bound ids tokens. wk_heartbeat (wi_worker x) = Renewing local bound ids tokens))"

definition clocks_ok :: "wired \<Rightarrow> bool" where
  "clocks_ok x \<longleftrightarrow>
     wk_clock (wi_worker x) \<le> s_clock (wi_sys x) * 1000
   \<and> (\<forall>local bound ids tokens. wk_heartbeat (wi_worker x) = Renewing local bound ids tokens \<longrightarrow> local \<le> s_clock (wi_sys x) * 1000)"

definition wired_ok :: "wired \<Rightarrow> bool" where
  "wired_ok x \<longleftrightarrow>
     sys_ok (wi_sys x) \<and> worker_ok (wi_worker x) \<and> whole_ms (e_leaseTTL (wi_engine x)) \<and> answers_ok x \<and> clocks_ok x
   \<and> covered (wi_engine x) (wi_sys x) (held x)"

lemma covered_engine: "e_leaseTTL e' = e_leaseTTL e \<Longrightarrow> covered e' s C = covered e s C"
  by (simp add: covered_def)

text \<open>A change of the worker that confirms nothing new.\<close>

lemma covered_worker:
  assumes "covered (wi_engine x) (wi_sys x) (held x)" "held y \<subseteq> held x"
    and "wi_sys y = wi_sys x" "e_leaseTTL (wi_engine y) = e_leaseTTL (wi_engine x)"
  shows "covered (wi_engine y) (wi_sys y) (held y)"
  using covered_mono [OF assms(1,2)] covered_engine [OF assms(4)] assms(3) by simp

lemma heldI:
  "wi_table x token = Some e \<Longrightarrow> (token, le_deadline e) \<in> held x"
  "wi_claimed x = Some (Inr cruns) \<Longrightarrow> run \<in> set cruns \<Longrightarrow> (cr_Token run, cr_deadline run) \<in> held x"
  "wi_renewed x = Some (Inr renewed) \<Longrightarrow> token \<in> renewed \<Longrightarrow> wk_heartbeat (wi_worker x) = Renewing local bound ids tokens \<Longrightarrow>
   (token, local + e_leaseTTL (wi_engine x)) \<in> held x"
  by (auto simp: held_def)

lemma held_loops:
  assumes "answers_ok x" "keeps_waiting (wi_worker x) w'" "deadlines_from (wi_table x) (dp_table (wk_dp w'))"
    and "e_leaseTTL (wk_engine w') = e_leaseTTL (wi_engine x)"
  shows "held (x\<lparr>wi_worker := w'\<rparr>) \<subseteq> held x"
proof
  fix c
  assume "c \<in> held (x\<lparr>wi_worker := w'\<rparr>)"
  then consider (table) token e where "c = (token, le_deadline e)" "dp_table (wk_dp w') token = Some e"
    | (claimed) run cruns where "c = (cr_Token run, cr_deadline run)" "wi_claimed x = Some (Inr cruns)" "run \<in> set cruns"
    | (renewed) token local renewed bound ids tokens where "c = (token, local + e_leaseTTL (wi_engine x))"
        "wi_renewed x = Some (Inr renewed)" "token \<in> renewed" "wk_heartbeat w' = Renewing local bound ids tokens"
    using assms(4) by (auto simp: held_def)
  then show "c \<in> held x"
  proof cases
    case table
    then show ?thesis using assms(3) heldI(1) unfolding deadlines_from_def by metis
  next
    case claimed
    then show ?thesis using heldI(2) by blast
  next
    case renewed
    then have "wk_heartbeat (wi_worker x) = Renewing local bound ids tokens"
      using assms(1,2) by (auto simp: answers_ok_def keeps_waiting_def)
    then show ?thesis using heldI(3) [OF renewed(2,3)] renewed(1) by simp
  qed
qed

lemma start_runs_table:
  "dp_table (fold (start_run stopped) cruns dp) k = Some e \<Longrightarrow>
   dp_table dp k = Some e \<or> (\<exists>run \<in> set cruns. k = cr_Token run \<and> le_deadline e = cr_deadline run)"
proof (induction cruns arbitrary: dp)
  case (Cons run cruns)
  from Cons.IH [of "start_run stopped run dp"] Cons.prems show ?case
    by (auto simp: start_run_def lt_insert_def split: if_splits)
qed simp

lemma held_claim_answered:
  assumes "wi_claimed x = Some answer"
  shows "held (x\<lparr>wi_worker := dispatch_claimed answer (wi_worker x), wi_claimed := None\<rparr>) \<subseteq> held x" (is "held ?y \<subseteq> _")
proof
  fix c
  assume "c \<in> held ?y"
  then consider (table) token e where "c = (token, le_deadline e)" "dp_table (wk_dp (dispatch_claimed answer (wi_worker x))) token = Some e"
    | (renewed) token local renewed bound ids tokens where "c = (token, local + e_leaseTTL (wi_engine x))"
        "wi_renewed x = Some (Inr renewed)" "token \<in> renewed" "wk_heartbeat (wi_worker x) = Renewing local bound ids tokens"
    by (auto simp: held_def)
  then show "c \<in> held x"
  proof cases
    case table
    show ?thesis
    proof (cases answer)
      case (Inl err)
      then show ?thesis using table heldI(1) by (simp add: dispatch_claimed_def)
    next
      case (Inr cruns)
      with table(2) have "wi_table x token = Some e \<or> (\<exists>run \<in> set cruns. token = cr_Token run \<and> le_deadline e = cr_deadline run)"
        by (intro start_runs_table) (simp add: dispatch_claimed_def)
      then show ?thesis using heldI(1,2) assms table(1) unfolding Inr by metis
    qed
  next
    case renewed
    then show ?thesis using heldI(3) by metis
  qed
qed

lemma held_renew_answered:
  assumes "wk_heartbeat (wi_worker x) = Renewing local bound ids tokens" "\<And>renewed. answer = Inr renewed \<Longrightarrow> wi_renewed x = Some answer"
  shows "held (x\<lparr>wi_worker := heartbeat_answer local tokens answer (wi_worker x), wi_renewed := None\<rparr>) \<subseteq> held x" (is "held ?y \<subseteq> _")
proof
  fix c
  assume "c \<in> held ?y"
  then consider (table) token e where "c = (token, le_deadline e)" "dp_table (wk_dp (heartbeat_answer local tokens answer (wi_worker x))) token = Some e"
    | (claimed) run cruns where "c = (cr_Token run, cr_deadline run)" "wi_claimed x = Some (Inr cruns)" "run \<in> set cruns"
    by (auto simp: held_def)
  then show "c \<in> held x"
  proof cases
    case table
    show ?thesis
    proof (cases answer)
      case (Inl err)
      then show ?thesis using table heldI(1) by (auto simp: heartbeat_answer_def split: if_splits)
    next
      case (Inr renewed)
      with table(2) obtain e0 where "wi_table x token = Some e0"
        "le_deadline e = le_deadline e0 \<or> token \<in> renewed \<and> le_deadline e = local + e_leaseTTL (wi_engine x)"
        by (cases "token \<in> set tokens"; cases "token \<in> renewed")
          (auto simp: heartbeat_answer_def heartbeat_apply_def applyRenewal_lookup cancel_entry_def)
      then show ?thesis using heldI(1) heldI(3) [of x renewed token local] assms table(1) Inr by metis
    qed
  next
    case claimed
    then show ?thesis using heldI(2) by blast
  qed
qed

section \<open>Every step keeps the invariant\<close>

lemma claim_query_claim:
  "claim_query gen locked now clk e n names versions d = Inr (cs, d') \<Longrightarrow>
   \<exists>pred. claim pred gen locked now clk (e_queue e) n (milliseconds (e_leaseTTL e)) d = Inr (cs, d')"
  by (auto simp: claim_query_def claimSingle_def claimMulti_def split: if_splits)

lemma wired_ok_claim:
  assumes x: "wired_ok x" and c: "wk_dispatch (wi_worker x) = Claiming limit"
    and st: "started \<le> s_clock (wi_sys x) * 1000"
    and q: "claim_query gen locked now (s_clock (wi_sys x)) (wi_engine x) (nat limit) names versions (s_db (wi_sys x)) = Inr (cs, d')"
    and fresh: "fresh_tokens gen (map cl_id cs) (map ac_token (s_claims (wi_sys x)))"
  shows "wired_ok (x\<lparr>wi_sys := (wi_sys x)\<lparr>s_db := d', s_claims := s_claims (wi_sys x) @ new_claims cs\<rparr>,
           wi_claimed := Some (Inr (map (scan_run (started + e_leaseTTL (wi_engine x))) cs))\<rparr>)" (is "wired_ok ?y")
proof -
  have ok: "sys_ok (wi_sys x)" and cov: "covered (wi_engine x) (wi_sys x) (held x)" and ms: "whole_ms (e_leaseTTL (wi_engine x))"
    and lim: "0 < limit" using x c by (simp_all add: wired_ok_def worker_ok_def dispatching_ok_def)
  obtain pred where cl: "claim pred gen locked now (s_clock (wi_sys x)) (e_queue (wi_engine x)) (nat limit)
      (milliseconds (e_leaseTTL (wi_engine x))) (s_db (wi_sys x)) = Inr (cs, d')"
    using claim_query_claim [OF q] by blast
  have "held ?y \<subseteq> held x \<union> (\<lambda>c. (cl_token c, started + e_leaseTTL (wi_engine x))) ` set cs"
    by (auto simp: held_def scan_run_def)
  then have "covered (wi_engine x) (wi_sys ?y) (held ?y)"
    using covered_mono [OF covered_claim [OF cov st ms cl fresh ok]] by simp
  moreover have "sys_ok (wi_sys ?y)" using sys_ok_claim(1) [OF ok cl fresh] by simp
  moreover have "answers_ok ?y" using x c lim claim_query_length [OF q] by (auto simp: wired_ok_def answers_ok_def)
  moreover have "clocks_ok ?y" using x by (simp add: wired_ok_def clocks_ok_def)
  ultimately show ?thesis using x by (simp add: wired_ok_def)
qed

lemma wired_ok_renew:
  assumes x: "wired_ok x" and rn: "wk_heartbeat (wi_worker x) = Renewing local bound ids tokens" and now: "now \<le> s_clock (wi_sys x)"
    and r: "renewLeases_op NoFault now (s_clock (wi_sys x)) (wi_engine x) ids tokens (s_db (wi_sys x)) = (Inr renewed, d')"
  shows "wired_ok (x\<lparr>wi_sys := (wi_sys x)\<lparr>s_db := d'\<rparr>, wi_renewed := Some (Inr renewed)\<rparr>)" (is "wired_ok ?y")
proof -
  have ok: "sys_ok (wi_sys x)" and cov: "covered (wi_engine x) (wi_sys x) (held x)" and ms: "whole_ms (e_leaseTTL (wi_engine x))"
    and loc: "local \<le> s_clock (wi_sys x) * 1000" using x rn by (auto simp: wired_ok_def clocks_ok_def)
  have "held ?y \<subseteq> held x \<union> (\<lambda>token. (token, local + e_leaseTTL (wi_engine x))) ` renewed"
    using rn by (auto simp: held_def)
  then have "covered (wi_engine x) (wi_sys ?y) (held ?y)"
    using covered_mono [OF covered_renew [OF cov loc ms r ok]] by simp
  moreover obtain ts where "renewLeases now (s_clock (wi_sys x)) ids tokens (milliseconds (e_leaseTTL (wi_engine x))) (s_db (wi_sys x)) = Inr (ts, d')"
    using r by (auto simp: renewLeases_op_def exec_def split: sum.splits prod.splits)
  then have "sys_ok (wi_sys ?y)" using ok now sys_step.renew sys_step_ok by simp blast
  moreover have "answers_ok ?y" using x rn by (auto simp: wired_ok_def answers_ok_def)
  moreover have "clocks_ok ?y" using x by (simp add: wired_ok_def clocks_ok_def)
  ultimately show ?thesis using x by (simp add: wired_ok_def)
qed

lemma wired_ok_loops:
  assumes x: "wired_ok x" and g: "errgroup_ok g" and st: "wk_step g (wi_worker x) w'" "keeps_waiting (wi_worker x) w'"
    and clk: "wk_clock w' \<le> s_clock (wi_sys x) * 1000"
  shows "wired_ok (x\<lparr>wi_worker := w'\<rparr>)" (is "wired_ok ?y")
proof -
  have ans: "answers_ok x" and wok: "worker_ok (wi_worker x)" using x by (simp_all add: wired_ok_def)
  note ttl = wk_step_ttl [OF st(1)]
  have "held ?y \<subseteq> held x" using held_loops [OF ans st(2) wk_step_deadlines [OF st] ttl] .
  then have "covered (wi_engine ?y) (wi_sys ?y) (held ?y)"
    using x ttl by - (rule covered_worker [of x], simp_all add: wired_ok_def)
  moreover have "answers_ok ?y" using ans st(2) by (auto simp: answers_ok_def keeps_waiting_def)
  moreover have "clocks_ok ?y"
    using x clk wk_step_renewing [OF st(1)] by (auto simp: wired_ok_def clocks_ok_def)
  moreover have "worker_ok w'" by (rule wk_step_ok [OF st(1) g wok])
  ultimately show ?thesis using x ttl by (simp add: wired_ok_def)
qed

lemma wired_ok_claim_answered:
  assumes x: "wired_ok x" and a: "wi_claimed x = Some answer"
  shows "wired_ok (x\<lparr>wi_worker := dispatch_claimed answer (wi_worker x), wi_claimed := None\<rparr>)" (is "wired_ok ?y")
proof -
  obtain limit where l: "wk_dispatch (wi_worker x) = Claiming limit" "\<And>cruns. answer = Inr cruns \<Longrightarrow> int (length cruns) \<le> limit"
    using x a by (auto simp: wired_ok_def answers_ok_def)
  have "worker_ok (wi_worker ?y)" using dispatch_claimed_fits [OF _ l] x by (simp add: wired_ok_def)
  moreover have "covered (wi_engine ?y) (wi_sys ?y) (held ?y)"
    using x held_claim_answered [OF a] by - (rule covered_worker [of x], simp_all add: wired_ok_def)
  moreover have "answers_ok ?y" "clocks_ok ?y" using x by (auto simp: wired_ok_def answers_ok_def clocks_ok_def)
  ultimately show ?thesis using x by (simp add: wired_ok_def)
qed

lemma wired_ok_renew_answered:
  assumes x: "wired_ok x" and rn: "wk_heartbeat (wi_worker x) = Renewing local bound ids tokens"
    and a: "\<And>renewed. answer = Inr renewed \<Longrightarrow> wi_renewed x = Some answer"
  shows "wired_ok (x\<lparr>wi_worker := heartbeat_answer local tokens answer (wi_worker x), wi_renewed := None\<rparr>)" (is "wired_ok ?y")
proof -
  have "worker_ok (wi_worker ?y)" using heartbeat_answer_ok [OF _ rn] x by (simp add: wired_ok_def)
  moreover have "covered (wi_engine ?y) (wi_sys ?y) (held ?y)"
    using x held_renew_answered [OF rn a] by - (rule covered_worker [of x], simp_all add: wired_ok_def)
  moreover have "answers_ok ?y" "clocks_ok ?y" using x by (auto simp: wired_ok_def answers_ok_def clocks_ok_def)
  ultimately show ?thesis using x by (simp add: wired_ok_def)
qed

lemma wired_step_ok:
  assumes "wired_step pg g x y" "errgroup_ok g" "wired_ok x"
  shows "wired_ok y"
  using assms(1)
proof cases
  case (others s')
  have "covered (wi_engine x) s' (held x)"
    using covered_others [OF _ others(2,3)] assms(3) by (simp add: wired_ok_def)
  moreover have "held y = held x" by (simp add: others(1) held_def)
  ultimately show ?thesis
    using assms(3) sys_step_ok [OF others(2)] sys_step_clock [OF others(2)]
    by (fastforce simp: others(1) wired_ok_def answers_ok_def clocks_ok_def)
next
  case (loops w')
  then show ?thesis using wired_ok_loops [OF assms(3,2)] by simp
next
  case (claim limit now started order names versions gen locked cs d')
  then show ?thesis using wired_ok_claim [OF assms(3)] by simp
next
  case (claim_nothing limit order versions)
  have "held y \<subseteq> held x" by (auto simp: claim_nothing(1) held_def)
  then show ?thesis
    using assms(3) claim_nothing(2) covered_worker [of x y]
    by (auto simp: claim_nothing(1) wired_ok_def answers_ok_def clocks_ok_def worker_ok_def dispatching_ok_def)
next
  case (claim_failed limit err)
  have "held y \<subseteq> held x" by (auto simp: claim_failed(1) held_def)
  then show ?thesis
    using assms(3) claim_failed(2) covered_worker [of x y]
    by (auto simp: claim_failed(1) wired_ok_def answers_ok_def clocks_ok_def)
next
  case (claim_answered answer)
  then show ?thesis using wired_ok_claim_answered [OF assms(3)] by simp
next
  case (renew local bound ids tokens now renewed d')
  then show ?thesis using wired_ok_renew [OF assms(3)] by simp
next
  case (renew_failed local bound ids tokens err)
  have "held y \<subseteq> held x" by (auto simp: renew_failed(1) held_def)
  then show ?thesis
    using assms(3) renew_failed(2) covered_worker [of x y]
    by (auto simp: renew_failed(1) wired_ok_def answers_ok_def clocks_ok_def)
next
  case (renew_answered local bound ids tokens answer)
  then show ?thesis using wired_ok_renew_answered [OF assms(3) renew_answered(2), of answer] by simp
next
  case (renew_interrupted local bound ids tokens m)
  then show ?thesis using wired_ok_renew_answered [OF assms(3) renew_interrupted(2), of "Inl (ConnectionError m)"] by simp
qed

interpretation wiring: transition_invariant "\<lambda>x y. errgroup_ok g \<and> wired_step pg g x y" wired_ok for g pg
  by unfold_locales (use wired_step_ok in blast)

section \<open>Claims own their runs\<close>

definition wired_start :: "sys \<Rightarrow> worker_proc \<Rightarrow> wired" where
  "wired_start s w = \<lparr>wi_sys = s, wi_worker = w, wi_claimed = None, wi_renewed = None\<rparr>"

lemma StartWorker_fields:
  assumes "StartWorker now e = Inr w"
  shows "dp_table (wk_dp w) = newLeaseTable" "e_leaseTTL (wk_engine w) = e_leaseTTL e" "wk_clock w = now"
    "wk_heartbeat w = HeartbeatTop"
  using assms
  by (auto simp: StartWorker_def start_dispatcher_def beginWorker_def split: sum.splits if_splits)

lemma wired_start_ok:
  assumes "StartWorker now e = Inr w" "0 \<le> e_maxConcurrency e" "whole_ms (e_leaseTTL e)" "reachable pg s" "now \<le> s_clock s * 1000"
  shows "wired_ok (wired_start s w)"
  using assms(2-5) StartWorker_fields [OF assms(1)] StartWorker_ok [OF assms(1,2)] reachable_sys_ok [OF assms(4)]
  by (simp add: wired_ok_def wired_start_def answers_ok_def clocks_ok_def held_def covered_def newLeaseTable_def)


definition demo_claiming :: worker_proc where
  "demo_claiming = demo_started\<lparr>wk_dispatch := Claiming 8\<rparr>"

lemma demo_wired_steps:
  "(wired_step demo_pg demo_group)\<^sup>*\<^sup>* (wired_start (demo_sys demo_row [] 0) demo_started)
     (wired_start (demo_sys demo_leased_row [demo_claim] 0) (dispatch_claimed (Inr [demo_run]) demo_claiming))"
proof -
  let ?step = "wired_step demo_pg demo_group" and ?c = "ac_claim demo_claim"
  let ?x1 = "wired_start (demo_sys demo_row [] 0) demo_claiming"
  let ?x2 = "(wired_start (demo_sys demo_leased_row [demo_claim] 0) demo_claiming)\<lparr>wi_claimed := Some (Inr [demo_run])\<rparr>"
  have "dispatch_begin demo_group demo_started = demo_claiming"
    by (simp add: dispatch_begin_def dispatch_done_def demo_started_def demo_claiming_def demo_group_def demo_dispatcher_def
        demo_worker_engine_def demo_engine_def)
  moreover have "wk_step demo_group demo_started (dispatch_begin demo_group demo_started)"
    by (rule wk_step.dispatch_called) (simp add: demo_started_def)
  ultimately have "?step (wired_start (demo_sys demo_row [] 0) demo_started) ((wired_start (demo_sys demo_row [] 0) demo_started)\<lparr>wi_worker := demo_claiming\<rparr>)"
    by (intro wired_step.loops) (simp_all add: wired_start_def keeps_waiting_def demo_started_def demo_claiming_def demo_sys_def)
  then have 1: "?step (wired_start (demo_sys demo_row [] 0) demo_started) ?x1" by (simp add: wired_start_def)
  have q: "claim_query (\<lambda>_. ''t1'') (\<lambda>_. False) 0 0 (wk_engine demo_claiming) (nat 8) [''w''] [1] (demo_db demo_row)
      = Inr ([?c], demo_db demo_leased_row)"
    by (simp add: claim_query_def claimSingle_def claim_def claim_picked_def select_limit_def demo_db_def demo_row_def due_in_def
        demo_leased_row_def lease_row_def interval_ms_def milliseconds_def demo_claim_def demo_claiming_def demo_started_def
        demo_dispatcher_def demo_worker_engine_def demo_engine_def)
  have "?step ?x1 (?x1\<lparr>wi_sys := (wi_sys ?x1)\<lparr>s_db := demo_db demo_leased_row, s_claims := s_claims (wi_sys ?x1) @ new_claims [?c]\<rparr>,
      wi_claimed := Some (Inr (map (scan_run (0 + e_leaseTTL (wi_engine ?x1))) [?c]))\<rparr>)"
    by (rule wired_step.claim [where limit = 8 and now = 0 and order = "[(''w'', 1)]" and names = "[''w'']" and versions = "[1]"
        and gen = "\<lambda>_. ''t1''" and locked = "\<lambda>_. False"])
      (use q in \<open>simp_all add: wired_start_def demo_sys_def supportedWorkflows_def fresh_tokens_def demo_claiming_def\<close>)
  moreover have "scan_run (0 + e_leaseTTL (wi_engine ?x1)) ?c = demo_run"
    by (simp add: wired_start_def scan_run_def demo_run_def demo_claim_def claim_result_def demo_row_def demo_claiming_def demo_started_def
        demo_dispatcher_def demo_worker_engine_def demo_engine_def)
  ultimately have 2: "?step ?x1 ?x2"
    by (simp add: wired_start_def demo_sys_def new_claims_def demo_claim_def claim_result_def demo_row_def)
  have "?step ?x2 (?x2\<lparr>wi_worker := dispatch_claimed (Inr [demo_run]) (wi_worker ?x2), wi_claimed := None\<rparr>)"
    by (rule wired_step.claim_answered) simp
  then have 3: "?step ?x2 (wired_start (demo_sys demo_leased_row [demo_claim] 0) (dispatch_claimed (Inr [demo_run]) demo_claiming))"
    by (simp add: wired_start_def)
  from 1 2 3 show ?thesis by (meson converse_rtranclp_into_rtranclp rtranclp.rtrancl_refl)
qed


end
