(* ===== verification/Event_Protocol.thy ===== *)
theory Event_Protocol
  imports Run_System
begin

text \<open>
  \<open>Run_System\<close> takes the transactions of \<open>EmitEvent\<close> (\<open>engine.go\<close>) and \<open>waitForEvent\<close>
  (\<open>worker.go\<close>) as single steps.  This theory takes them apart: the advisory lock of the event
  key, the statements under it, each on the rows committed so far (\<open>READ COMMITTED\<close>), and the
  commit, with the statements of everyone else in between.  The lemmas show that the lock
  makes the coarse view correct: every state the interleaved transactions reach is a state of
  \<open>Run_System\<close>, so no event is missed; and that without the lock one can be.

  The last write of a waiter reads only the row it locks, so it and its commit are one step.  The
  number of an event is drawn when it becomes visible; numbers are compared only among the
  events of one key, whose emitters the lock puts in order.
\<close>

section \<open>Transactions\<close>

text \<open>
  A transaction that holds the lock of its key.  A waiter has its \<open>now()\<close>, the claim's run and
  token, the position of the wait, its time-out, whether the wait ends the run, and what it read;
  an emitter has its \<open>now()\<close>, the payload, the lifetime, the channel, and the runs its
  statement has found waiting, which it keeps locked until it commits.
\<close>

datatype event_tx =
    WaitTx (tx_key: string) timestamptz uuid uuid nat int bool "json option option"
  | EmitTx (tx_key: string) timestamptz json int string "uuid list option"

fun row_locks :: "event_tx \<Rightarrow> uuid set" where
  "row_locks (EmitTx _ _ _ _ _ (Some ids)) = set ids"
| "row_locks _ = {}"

record evsys =
  es_sys :: sys
  es_txs :: "nat \<rightharpoonup> event_tx"

text \<open>\<open>pg_advisory_xact_lock\<close> blocks while another transaction holds a lock of the same hash value.\<close>

definition lockEventKey :: "(string \<Rightarrow> string \<Rightarrow> bool) \<Rightarrow> string \<Rightarrow> evsys \<Rightarrow> bool" where
  "lockEventKey conflict key st \<longleftrightarrow> (\<forall>j tx. es_txs st j = Some tx \<longrightarrow> \<not> conflict (tx_key tx) key)"

definition same_hash :: "(string \<Rightarrow> int) \<Rightarrow> string \<Rightarrow> string \<Rightarrow> bool" where
  "same_hash hashtext k k' \<longleftrightarrow> hashtext k = hashtext k'"

text \<open>The statement of an emitter for the rows it has found and locked.\<close>

definition emit_rows ::
    "(run_row \<Rightarrow> bool) \<Rightarrow> pg \<Rightarrow> timestamptz \<Rightarrow> string \<Rightarrow> json \<Rightarrow> int \<Rightarrow> string \<Rightarrow> (nat \<times> nat) stmt" where
  "emit_rows p pg now key payload ttl_ms channel d =
     (case jsonb_in pg payload of
        None \<Rightarrow> Inl InvalidJson
      | Some v \<Rightarrow>
          if \<not> text_ok key then Inl InvalidText
          else
            (let woken = filter p (runs d); nts = notify_queues channel woken
             in Inr ((length woken, length nts),
                  d\<lparr>events := events d @
                      [\<lparr>ev_id = event_seq d, ev_key = key, ev_payload = v, ev_created_at = now,
                        ev_expires_at = now + interval_ms ttl_ms\<rparr>],
                    event_seq := Suc (event_seq d),
                    runs := update_where p
                      (\<lambda>r. r\<lparr>state := RunReady, next_run_at := now, waiting_event_key := None,
                            waiting_deadline := None, last_error := None, updated_at := now\<rparr>)
                      (runs d),
                    checkpoints := record_outcomes now (received v) woken (checkpoints d),
                    notifications := notifications d @ nts\<rparr>)))"

text \<open>Everything the others do: a step that neither parks a run nor logs an event.\<close>

definition other_step :: "pg \<Rightarrow> sys \<Rightarrow> sys \<Rightarrow> bool" where
  "other_step pg s t \<longleftrightarrow>
     sys_step pg s t \<and> no_new_waits (s_db s) (s_db t) \<and> set (events (s_db t)) \<subseteq> set (events (s_db s))"

text \<open>A row lock keeps others from changing the row.\<close>

definition locks_kept :: "evsys \<Rightarrow> sys \<Rightarrow> bool" where
  "locks_kept st t \<longleftrightarrow>
     (\<forall>j tx. es_txs st j = Some tx \<longrightarrow> (\<forall>i \<in> row_locks tx. run_of (s_db t) i = run_of (s_db (es_sys st)) i))"

inductive ev_step :: "(string \<Rightarrow> string \<Rightarrow> bool) \<Rightarrow> pg \<Rightarrow> evsys \<Rightarrow> evsys \<Rightarrow> bool" for conflict pg where
  other: "\<lbrakk>other_step pg (es_sys st) t; locks_kept st t\<rbrakk> \<Longrightarrow> ev_step conflict pg st (st\<lparr>es_sys := t\<rparr>)"
| wait_lock: "\<lbrakk>es_txs st j = None; now \<le> s_clock (es_sys st); lockEventKey conflict key st\<rbrakk>
     \<Longrightarrow> ev_step conflict pg st (st\<lparr>es_txs := (es_txs st)(j \<mapsto> WaitTx key now i token index ms complete None)\<rparr>)"
| wait_read: "\<lbrakk>es_txs st j = Some (WaitTx key now i token index ms complete None);
     latestEvent now key (s_db (es_sys st)) = Inr found\<rbrakk>
     \<Longrightarrow> ev_step conflict pg st (st\<lparr>es_txs := (es_txs st)(j \<mapsto> WaitTx key now i token index ms complete (Some found))\<rparr>)"
| wait_park: "\<lbrakk>es_txs st j = Some (WaitTx key now i token index ms complete (Some None)); s = es_sys st;
     a \<in> set (s_claims s); ac_id a = i; ac_token a = token; ac_index a \<le> index;
     parkWait now (s_clock s) i token index key ms (s_db s) = Inr (n, d')\<rbrakk>
     \<Longrightarrow> ev_step conflict pg st (st\<lparr>es_txs := (es_txs st)(j := None),
           es_sys := s\<lparr>s_db := d', s_parked := (if n = 0 then s_parked s else (s_parked s)(i := now))\<rparr>\<rparr>)"
| wait_deliver: "\<lbrakk>es_txs st j = Some (WaitTx key now i token index ms complete (Some (Some payload))); s = es_sys st;
     a \<in> set (s_claims s); ac_id a = i; ac_token a = token; ac_index a \<le> index;
     commitStep pg now (s_clock s) i token index (received payload) complete (s_db s) = Inr (res, d')\<rbrakk>
     \<Longrightarrow> ev_step conflict pg st (st\<lparr>es_txs := (es_txs st)(j := None),
           es_sys := s\<lparr>s_db := d', s_claims :=
             (if res = None then s_claims s else advance token (Suc index) (s_claims s))\<rparr>\<rparr>)"
| emit_lock: "\<lbrakk>es_txs st j = None; now \<le> s_clock (es_sys st); lockEventKey conflict key st\<rbrakk>
     \<Longrightarrow> ev_step conflict pg st (st\<lparr>es_txs := (es_txs st)(j \<mapsto> EmitTx key now payload ttl channel None)\<rparr>)"
| emit_stmt: "\<lbrakk>es_txs st j = Some (EmitTx key now payload ttl channel None);
     ids = map rid (filter (waits_on key now) (runs (s_db (es_sys st))))\<rbrakk>
     \<Longrightarrow> ev_step conflict pg st (st\<lparr>es_txs := (es_txs st)(j \<mapsto> EmitTx key now payload ttl channel (Some ids))\<rparr>)"
| emit_commit: "\<lbrakk>es_txs st j = Some (EmitTx key now payload ttl channel (Some ids)); s = es_sys st;
     emit_rows (\<lambda>r. rid r \<in> set ids) pg now key payload ttl channel (s_db s) = Inr (res, d')\<rbrakk>
     \<Longrightarrow> ev_step conflict pg st (st\<lparr>es_txs := (es_txs st)(j := None), es_sys := s\<lparr>s_db := d'\<rparr>\<rparr>)"
| rollback: "ev_step conflict pg st (st\<lparr>es_txs := (es_txs st)(j := None)\<rparr>)"

definition init_evsys :: "timestamptz \<Rightarrow> evsys" where
  "init_evsys t = \<lparr>es_sys = init_sys t, es_txs = Map.empty\<rparr>"

section \<open>What the others do\<close>

lemma no_new_waits_refl [simp]: "no_new_waits d d"
  by (auto simp: no_new_waits_def)

lemma quiet_commitStep:
  assumes "commitStep pg now clk i token index v complete d = Inr (res, d')"
  shows "no_new_waits d d' \<and> events d' = events d"
  using assms
proof (cases rule: commitStep_cases)
  case lost
  then show ?thesis by simp
next
  case (owned w out)
  then show ?thesis by (auto simp: no_new_waits_def set_update_where wait_view_def)
qed

lemma quiet_claim:
  assumes "claim pred gen locked now clk q limit ttl d = Inr (cs, d')"
  shows "no_new_waits d d' \<and> events d' = events d"
proof -
  have d': "d' = d\<lparr>runs := update_where (\<lambda>r. rid r \<in> set (map rid (claim_picked pred locked now q limit d)))
      (lease_row now clk ttl gen) (runs d)\<rparr>"
    using assms by (simp add: claim_def Let_def)
  have "no_new_waits d d'" unfolding d' by (rule no_new_waits_update) (simp add: lease_row_def wait_view_def)
  then show ?thesis by (simp add: d')
qed

lemmas quiet_ops = quiet_insertRun quiet_cancelRun quiet_renewLeases quiet_completeRun quiet_parkSleep
  quiet_failOrRetry quiet_recoverLeases quiet_promoteTimedOut quiet_pruneEvents

text \<open>Every step of the system is an emission, a park, or a step of the others.\<close>

lemma sys_step_split:
  assumes "sys_step pg s t"
  obtains (emission) now key payload ttl channel res d' where
      "emitEvent pg now key payload ttl channel (s_db s) = Inr (res, d')" "t = s\<lparr>s_db := d'\<rparr>"
  | (parking) now i token index key ms n d' where
      "parkWait now (s_clock s) i token index key ms (s_db s) = Inr (n, d')" "s_db t = d'"
  | (others) "other_step pg s t"
proof -
  have rest: "other_step pg s t" if "no_new_waits (s_db s) (s_db t)" "set (events (s_db t)) \<subseteq> set (events (s_db s))"
    using assms that by (simp add: other_step_def)
  from assms show thesis
  proof cases
    case (emit now key payload ttl channel res d')
    then show thesis using that(1) by blast
  next
    case (park_wait now a index key ms n d')
    then show thesis using that(2) by simp
  next
    case (tick u)
    then show thesis by (intro that(3) rest) simp_all
  next
    case (claim now pred gen locked q limit ttl cs d')
    then show thesis using quiet_claim by (intro that(3) rest) auto
  next
    case (commit now a index v complete res d')
    then show thesis using quiet_commitStep by (intro that(3) rest) auto
  qed (use quiet_ops events_frame prune_events_subset in \<open>intro that(3) rest; simp; blast\<close>)+
qed

lemma other_step_clock: "other_step pg s t \<Longrightarrow> s_clock s \<le> s_clock t"
  by (auto simp: other_step_def elim: sys_step.cases)

section \<open>The invariant of the transactions\<close>

fun tx_now :: "event_tx \<Rightarrow> timestamptz" where
  "tx_now (WaitTx _ now _ _ _ _ _ _) = now"
| "tx_now (EmitTx _ now _ _ _ _) = now"

text \<open>What a transaction has read is still true: a waiter that found no event would find none now,
  and the runs an emitter has found are the ones that wait for its event.\<close>

fun tx_ok :: "db \<Rightarrow> event_tx \<Rightarrow> bool" where
  "tx_ok d (WaitTx key now _ _ _ _ _ found) \<longleftrightarrow> (found = Some None \<longrightarrow> latestEvent now key d = Inr None)"
| "tx_ok d (EmitTx key now _ _ _ ids) \<longleftrightarrow>
     (\<forall>is. ids = Some is \<longrightarrow> (\<forall>r \<in> set (runs d). waits_on key now r \<longleftrightarrow> rid r \<in> set is))"

definition ev_ok :: "pg \<Rightarrow> evsys \<Rightarrow> bool" where
  "ev_ok pg st \<longleftrightarrow>
     reachable pg (es_sys st)
   \<and> (\<forall>j tx. es_txs st j = Some tx \<longrightarrow> tx_ok (s_db (es_sys st)) tx \<and> tx_now tx \<le> s_clock (es_sys st))
   \<and> (\<forall>j k tx tx'. es_txs st j = Some tx \<and> es_txs st k = Some tx' \<and> j \<noteq> k \<longrightarrow> tx_key tx \<noteq> tx_key tx')"

lemma waits_on_view:
  assumes "db_ok d" "r \<in> set (runs d)" "wait_view r = wait_view r'" "waits_on key now r'"
  shows "waits_on key now r"
  using assms db_okD(2) [OF assms(1,2)] by (auto simp: waits_on_def wait_view_def row_ok_def)

text \<open>What others may do without disturbing a transaction.\<close>

lemma tx_ok_keep:
  assumes "tx_ok d tx" "db_ok d" "db_ok d'"
    and waits: "\<And>r'. r' \<in> set (runs d') \<Longrightarrow> waiting_event_key r' = Some (tx_key tx)
      \<Longrightarrow> \<exists>r \<in> set (runs d). wait_view r = wait_view r'"
    and logs: "\<And>e. e \<in> set (events d') \<Longrightarrow> ev_key e = tx_key tx \<Longrightarrow> e \<in> set (events d)"
    and rows: "\<And>i. i \<in> row_locks tx \<Longrightarrow> run_of d' i = run_of d i"
  shows "tx_ok d' tx"
proof (cases tx)
  case (WaitTx key now i token index ms complete found)
  then show ?thesis using assms(1) logs by (auto simp: latestEvent_None)
next
  case (EmitTx key now payload ttl channel ids)
  have "waits_on key now r' \<longleftrightarrow> rid r' \<in> set is" if "ids = Some is" and r': "r' \<in> set (runs d')" for "is" r'
  proof
    assume w: "waits_on key now r'"
    then obtain r where r: "r \<in> set (runs d)" "wait_view r = wait_view r'"
      using waits [OF r'] by (auto simp: EmitTx waits_on_def)
    have "waits_on key now r" by (rule waits_on_view [OF assms(2) r w])
    then show "rid r' \<in> set is" using assms(1) r that(1) by (auto simp: EmitTx wait_view_def)
  next
    assume i: "rid r' \<in> set is"
    have "run_of d' (rid r') = Some r'" by (rule row_with_distinct [OF db_okD(1) [OF assms(3)] r'])
    then have "run_of d (rid r') = Some r'" using rows [of "rid r'"] i that(1) by (simp add: EmitTx)
    then have "r' \<in> set (runs d)" by (auto dest: row_with_SomeD)
    then show "waits_on key now r'" using assms(1) i that(1) by (simp add: EmitTx)
  qed
  then show ?thesis by (simp add: EmitTx)
qed

text \<open>An update of rows that no transaction has locked.\<close>

lemma unlocked_update:
  assumes "\<And>r. rid (f r) = rid r" "\<And>r. r \<in> set rs \<Longrightarrow> rid r = i \<Longrightarrow> \<not> p r"
  shows "row_with rid i (update_where p f rs) = row_with rid i rs"
  using assms(2) by (induction rs) (auto simp: assms(1))

lemma locked_waits:
  assumes "tx_ok d tx" "i \<in> row_locks tx" "r \<in> set (runs d)" "rid r = i"
  shows "state r = RunWaitingEvent \<and> waiting_event_key r = Some (tx_key tx)"
proof (cases tx)
  case (EmitTx key now payload ttl channel ids)
  then obtain "is" where "ids = Some is" "i \<in> set is" using assms(2) by (cases ids) auto
  then have "waits_on key now r" using assms(1,3,4) by (simp add: EmitTx)
  then show ?thesis by (simp add: waits_on_def EmitTx)
qed (use assms(2) in simp)

lemma emit_rows_waits_on: "emit_rows (waits_on key now) pg now key payload ttl channel = emitEvent pg now key payload ttl channel"
  by (rule ext) (simp add: emit_rows_def emitEvent_def)

lemma emit_rows_cong:
  assumes "\<And>r. r \<in> set (runs d) \<Longrightarrow> p r \<longleftrightarrow> q r"
  shows "emit_rows p pg now key payload ttl channel d = emit_rows q pg now key payload ttl channel d"
proof -
  have "filter p (runs d) = filter q (runs d)" using assms by (auto intro: filter_cong)
  moreover have "update_where p f (runs d) = update_where q f (runs d)" for f
    using assms by (auto simp: update_where_def)
  ultimately show ?thesis by (cases "jsonb_in pg payload") (simp_all add: emit_rows_def)
qed

section \<open>Every step keeps the invariant\<close>

lemma ev_okD:
  assumes "ev_ok pg st"
  shows "reachable pg (es_sys st)" "db_ok (s_db (es_sys st))"
    and "es_txs st j = Some tx \<Longrightarrow> tx_ok (s_db (es_sys st)) tx" "es_txs st j = Some tx \<Longrightarrow> tx_now tx \<le> s_clock (es_sys st)"
    and "es_txs st j = Some tx \<Longrightarrow> es_txs st k = Some tx' \<Longrightarrow> j \<noteq> k \<Longrightarrow> tx_key tx \<noteq> tx_key tx'"
  using assms reachable_sys_ok [of pg "es_sys st"] unfolding ev_ok_def sys_ok_def by blast+

lemma ev_ok_tx:
  assumes "ev_ok pg st" "tx_ok (s_db (es_sys st)) tx" "tx_now tx \<le> s_clock (es_sys st)"
    and "\<And>k tx'. k \<noteq> j \<Longrightarrow> es_txs st k = Some tx' \<Longrightarrow> tx_key tx' \<noteq> tx_key tx"
  shows "ev_ok pg (st\<lparr>es_txs := (es_txs st)(j \<mapsto> tx)\<rparr>)"
  unfolding ev_ok_def
proof (intro conjI allI impI; (elim conjE)?)
  show "reachable pg (es_sys (st\<lparr>es_txs := (es_txs st)(j \<mapsto> tx)\<rparr>))" using ev_okD(1) [OF assms(1)] by simp
  fix k tx1
  assume k: "es_txs (st\<lparr>es_txs := (es_txs st)(j \<mapsto> tx)\<rparr>) k = Some tx1"
  show "tx_ok (s_db (es_sys (st\<lparr>es_txs := (es_txs st)(j \<mapsto> tx)\<rparr>))) tx1"
    "tx_now tx1 \<le> s_clock (es_sys (st\<lparr>es_txs := (es_txs st)(j \<mapsto> tx)\<rparr>))"
    using k assms(2,3) ev_okD(3,4) [OF assms(1), of k tx1] by (auto split: if_splits)
  fix l tx2
  assume l: "es_txs (st\<lparr>es_txs := (es_txs st)(j \<mapsto> tx)\<rparr>) l = Some tx2" and ne: "k \<noteq> l"
  show "tx_key tx1 \<noteq> tx_key tx2"
  proof (cases "k = j \<or> l = j")
    case True
    then show ?thesis using k l ne assms(4) [of k tx1] assms(4) [of l tx2] by auto
  next
    case False
    then show ?thesis using k l ev_okD(5) [OF assms(1) _ _ ne] by simp
  qed
qed

lemma ev_ok_sys:
  assumes "ev_ok pg st" "sys_step pg (es_sys st) t" "s_clock (es_sys st) \<le> s_clock t"
    and "\<And>j tx. txs j = Some tx \<Longrightarrow> es_txs st j = Some tx"
    and "\<And>j tx. txs j = Some tx \<Longrightarrow> tx_ok (s_db t) tx"
  shows "ev_ok pg (st\<lparr>es_txs := txs, es_sys := t\<rparr>)"
  unfolding ev_ok_def
proof (intro conjI allI impI; (elim conjE)?)
  show "reachable pg (es_sys (st\<lparr>es_txs := txs, es_sys := t\<rparr>))"
    using reachable.step [OF ev_okD(1) [OF assms(1)] assms(2)] by simp
  fix j tx
  assume j: "es_txs (st\<lparr>es_txs := txs, es_sys := t\<rparr>) j = Some tx"
  then have old: "es_txs st j = Some tx" using assms(4) by simp
  show "tx_ok (s_db (es_sys (st\<lparr>es_txs := txs, es_sys := t\<rparr>))) tx"
    "tx_now tx \<le> s_clock (es_sys (st\<lparr>es_txs := txs, es_sys := t\<rparr>))"
    using j assms(3,5) ev_okD(4) [OF assms(1) old] by simp_all
  fix k tx'
  assume k: "es_txs (st\<lparr>es_txs := txs, es_sys := t\<rparr>) k = Some tx'" "j \<noteq> k"
  have "es_txs st k = Some tx'" by (rule assms(4)) (use k(1) in simp)
  then show "tx_key tx \<noteq> tx_key tx'" by (rule ev_okD(5) [OF assms(1) old _ k(2)])
qed

text \<open>The part of a step that concerns one of the remaining transactions: the step updates rows that
  are leased, or that wait for another key, and the new waits and events have another key.\<close>

lemma others_undisturbed:
  assumes "ev_ok pg st" "es_txs st k = Some tx" "db_ok d'"
    and "runs d' = update_where p f (runs (s_db (es_sys st)))" "\<And>r. rid (f r) = rid r"
    and "\<And>r. r \<in> set (runs (s_db (es_sys st))) \<Longrightarrow> p r \<Longrightarrow> state r = RunLeased \<or> waiting_event_key r \<noteq> Some (tx_key tx)"
    and "\<And>r. waiting_event_key (f r) = Some (tx_key tx) \<Longrightarrow> wait_view (f r) = wait_view r"
    and "\<And>e. e \<in> set (events d') \<Longrightarrow> ev_key e = tx_key tx \<Longrightarrow> e \<in> set (events (s_db (es_sys st)))"
  shows "tx_ok d' tx"
proof (rule tx_ok_keep [OF ev_okD(3) [OF assms(1,2)] ev_okD(2) [OF assms(1)] assms(3)])
  let ?d = "s_db (es_sys st)"
  show "\<exists>r \<in> set (runs ?d). wait_view r = wait_view r'"
    if r': "r' \<in> set (runs d')" "waiting_event_key r' = Some (tx_key tx)" for r'
  proof -
    from r'(1) obtain r where r: "r \<in> set (runs ?d)" "r' = (if p r then f r else r)"
      by (auto simp: assms(4) set_update_where)
    then show ?thesis using assms(7) [of r] r'(2) by (cases "p r") auto
  qed
  show "run_of d' i = run_of ?d i" if i: "i \<in> row_locks tx" for i
    unfolding assms(4)
  proof (rule unlocked_update [OF assms(5)])
    show "\<not> p r" if r: "r \<in> set (runs ?d)" "rid r = i" for r
      using locked_waits [OF ev_okD(3) [OF assms(1,2)] i r] assms(6) [OF r(1)] by auto
  qed
qed (rule assms(8))

lemma wait_park_ok:
  assumes "ev_ok pg st" "es_txs st j = Some (WaitTx key now i token index ms complete (Some None))" "s = es_sys st"
    and "a \<in> set (s_claims s)" "ac_id a = i" "ac_token a = token" "ac_index a \<le> index"
    and park: "parkWait now (s_clock s) i token index key ms (s_db s) = Inr (n, d')"
  shows "ev_ok pg (st\<lparr>es_txs := (es_txs st)(j := None),
    es_sys := s\<lparr>s_db := d', s_parked := (if n = 0 then s_parked s else (s_parked s)(i := now))\<rparr>\<rparr>)"
proof (rule ev_ok_sys [OF assms(1)])
  have none: "latestEvent now key (s_db s) = Inr None" "now \<le> s_clock s"
    using ev_okD(3,4) [OF assms(1,2)] assms(3) by simp_all
  have "sys_step pg s (s\<lparr>s_db := d', s_parked := (if n = 0 then s_parked s else (s_parked s)(ac_id a := now))\<rparr>)"
    by (rule sys_step.park_wait [OF none(2) assms(4,7) none(1)]) (use park assms(5,6) in simp)
  then show "sys_step pg (es_sys st) (s\<lparr>s_db := d', s_parked := (if n = 0 then s_parked s else (s_parked s)(i := now))\<rparr>)"
    unfolding assms(3) [symmetric] assms(5) .
  fix k tx
  assume "((es_txs st)(j := None)) k = Some tx"
  then have k: "es_txs st k = Some tx" "k \<noteq> j" by (auto split: if_splits)
  then show "es_txs st k = Some tx" by simp
  have key: "tx_key tx \<noteq> key" using ev_okD(5) [OF assms(1) k(1) assms(2) k(2)] by simp
  have dok: "db_ok d'" using parkWait_ok(1) [OF _ park] ev_okD(2) [OF assms(1)] assms(3) by simp
  obtain f where f: "d' = (s_db s)\<lparr>runs := update_where (fence i token (s_clock s)) f (runs (s_db s))\<rparr>"
    "\<And>r. rid (f r) = rid r" "\<And>r. waiting_event_key (f r) = Some key"
    using park by (auto simp: parkWait_def fenced_update_def split: if_splits)
  have "tx_ok d' tx"
    by (rule others_undisturbed [OF assms(1) k(1) dok, of "fence i token (s_clock s)" f])
      (use f key assms(3) in \<open>simp_all add: fence_def\<close>)
  then show "tx_ok (s_db (s\<lparr>s_db := d', s_parked := (if n = 0 then s_parked s else (s_parked s)(i := now))\<rparr>)) tx" by simp
qed (simp add: assms(3))

lemma wait_deliver_ok:
  assumes "ev_ok pg st" "es_txs st j = Some (WaitTx key now i token index ms complete (Some (Some payload)))" "s = es_sys st"
    and "a \<in> set (s_claims s)" "ac_id a = i" "ac_token a = token" "ac_index a \<le> index"
    and com: "commitStep pg now (s_clock s) i token index (received payload) complete (s_db s) = Inr (res, d')"
  shows "ev_ok pg (st\<lparr>es_txs := (es_txs st)(j := None), es_sys := s\<lparr>s_db := d', s_claims :=
    (if res = None then s_claims s else advance token (Suc index) (s_claims s))\<rparr>\<rparr>)"
proof (rule ev_ok_sys [OF assms(1)])
  have "now \<le> s_clock s" using ev_okD(4) [OF assms(1,2)] assms(3) by simp
  then have "sys_step pg s (s\<lparr>s_db := d', s_claims :=
      (if res = None then s_claims s else advance (ac_token a) (Suc index) (s_claims s))\<rparr>)"
    by (rule sys_step.commit [OF _ assms(4,7)]) (use com assms(5,6) in simp)
  then show "sys_step pg (es_sys st) (s\<lparr>s_db := d', s_claims :=
      (if res = None then s_claims s else advance token (Suc index) (s_claims s))\<rparr>)"
    unfolding assms(3) [symmetric] assms(6) .
  fix k tx
  assume "((es_txs st)(j := None)) k = Some tx"
  then have k: "es_txs st k = Some tx" by (auto split: if_splits)
  then show "es_txs st k = Some tx" .
  have dok: "db_ok d'" using commitStep_ok(1) [OF _ com] ev_okD(2) [OF assms(1)] assms(3) by simp
  obtain f p where f: "runs d' = update_where p f (runs (s_db s))" "events d' = events (s_db s)"
    "\<And>r. rid (f r) = rid r" "\<And>r. wait_view (f r) = wait_view r" "\<And>r. p r \<Longrightarrow> state r = RunLeased"
  proof (cases rule: commitStep_cases [OF com])
    case 1
    then show thesis using that [of "\<lambda>_. False" "\<lambda>r. r"] by (simp add: update_where_none)
  next
    case (2 w out)
    then show thesis using that [OF 2(7,5)] by (auto simp: wait_view_def owned_def fence_def)
  qed
  have "tx_ok d' tx"
    by (rule others_undisturbed [OF assms(1) k dok, of p f]) (use f assms(3) in simp_all)
  then show "tx_ok (s_db (s\<lparr>s_db := d', s_claims :=
      (if res = None then s_claims s else advance token (Suc index) (s_claims s))\<rparr>)) tx" by simp
qed (simp add: assms(3))

lemma emit_commit_ok:
  assumes "ev_ok pg st" "es_txs st j = Some (EmitTx key now payload ttl channel (Some ids))" "s = es_sys st"
    and com: "emit_rows (\<lambda>r. rid r \<in> set ids) pg now key payload ttl channel (s_db s) = Inr (res, d')"
  shows "ev_ok pg (st\<lparr>es_txs := (es_txs st)(j := None), es_sys := s\<lparr>s_db := d'\<rparr>\<rparr>)"
proof (rule ev_ok_sys [OF assms(1)])
  have found: "waits_on key now r \<longleftrightarrow> rid r \<in> set ids" if "r \<in> set (runs (s_db s))" for r
    using ev_okD(3) [OF assms(1,2)] assms(3) that by simp
  have em: "emitEvent pg now key payload ttl channel (s_db s) = Inr (res, d')"
    unfolding emit_rows_waits_on [symmetric]
    by (rule trans [OF emit_rows_cong com]) (rule found)
  have "now \<le> s_clock s" using ev_okD(4) [OF assms(1,2)] assms(3) by simp
  then have "sys_step pg s (s\<lparr>s_db := d'\<rparr>)" using em by (rule sys_step.emit)
  then show "sys_step pg (es_sys st) (s\<lparr>s_db := d'\<rparr>)" using assms(3) by simp
  fix k tx
  assume "((es_txs st)(j := None)) k = Some tx"
  then have k: "es_txs st k = Some tx" "k \<noteq> j" by (auto split: if_splits)
  then show "es_txs st k = Some tx" by simp
  have key: "tx_key tx \<noteq> key" using ev_okD(5) [OF assms(1) k(1) assms(2) k(2)] by simp
  have dok: "db_ok d'" using emitEvent_ok(1) [OF _ em] ev_okD(2) [OF assms(1)] assms(3) by simp
  obtain f e where f: "runs d' = update_where (waits_on key now) f (runs (s_db s))"
    "events d' = events (s_db s) @ [e]" "ev_key e = key" "\<And>r. rid (f r) = rid r" "\<And>r. waiting_event_key (f r) = None"
    using em by (auto simp: emitEvent_def Let_def split: option.splits if_splits)
  have "tx_ok d' tx"
    by (rule others_undisturbed [OF assms(1) k(1) dok, of "waits_on key now" f])
      (use f key assms(3) in \<open>auto simp: waits_on_def\<close>)
  then show "tx_ok (s_db (s\<lparr>s_db := d'\<rparr>)) tx" by simp
qed (simp add: assms(3))

lemma other_ok:
  assumes "ev_ok pg st" "other_step pg (es_sys st) t" "locks_kept st t"
  shows "ev_ok pg (st\<lparr>es_sys := t\<rparr>)"
proof -
  have step: "sys_step pg (es_sys st) t" and nw: "no_new_waits (s_db (es_sys st)) (s_db t)"
    and ev: "set (events (s_db t)) \<subseteq> set (events (s_db (es_sys st)))" using assms(2) by (simp_all add: other_step_def)
  have "reachable pg t" by (rule reachable.step [OF ev_okD(1) [OF assms(1)] step])
  then have dok: "db_ok (s_db t)" using reachable_sys_ok by (auto simp: sys_ok_def)
  have "ev_ok pg (st\<lparr>es_txs := es_txs st, es_sys := t\<rparr>)"
  proof (rule ev_ok_sys [OF assms(1) step other_step_clock [OF assms(2)]])
    fix j tx
    assume j: "es_txs st j = Some tx"
    show "tx_ok (s_db t) tx"
      by (rule tx_ok_keep [OF ev_okD(3) [OF assms(1) j] ev_okD(2) [OF assms(1)] dok])
        (use nw ev assms(3) j in \<open>auto simp: no_new_waits_def locks_kept_def\<close>)
  qed
  then show ?thesis by simp
qed

lemma ev_step_ok:
  assumes "ev_step conflict pg st st'" "ev_ok pg st" "\<And>k. conflict k k"
  shows "ev_ok pg st'"
  using assms(1,2)
proof (induction rule: ev_step.induct)
  case (other st t)
  then show ?case using other_ok by blast
next
  case (wait_lock st j now key i token index ms complete)
  then show ?case using assms(3) by (intro ev_ok_tx) (auto simp: lockEventKey_def)
next
  case (wait_read st j key now i token index ms complete found)
  then show ?case
    using ev_okD(4,5) [OF wait_read.prems wait_read.hyps(1)] by (intro ev_ok_tx) auto
next
  case (wait_park st j key now i token index ms complete s a n d')
  then show ?case using wait_park_ok by blast
next
  case (wait_deliver st j key now i token index ms complete payload s a res d')
  then show ?case using wait_deliver_ok by blast
next
  case (emit_lock st j now key payload ttl channel)
  then show ?case using assms(3) by (intro ev_ok_tx) (auto simp: lockEventKey_def)
next
  case (emit_stmt st j key now payload ttl channel ids)
  have "rid r \<in> rid ` {r \<in> set (runs (s_db (es_sys st))). waits_on key now r} \<longleftrightarrow> waits_on key now r"
    if "r \<in> set (runs (s_db (es_sys st)))" for r
    using that db_okD(1) [OF ev_okD(2) [OF emit_stmt.prems]] by (auto simp: distinct_map dest: inj_onD)
  then show ?case
    using emit_stmt ev_okD(4,5) [OF emit_stmt.prems emit_stmt.hyps(1)] by (intro ev_ok_tx) auto
next
  case (emit_commit st j key now payload ttl channel ids s res d')
  then show ?case using emit_commit_ok by blast
next
  case (rollback st j)
  then show ?case unfolding ev_ok_def by auto
qed

interpretation event_protocol: transition_invariant "ev_step (same_hash hashtext) pg" "ev_ok pg" for hashtext pg
  by unfold_locales (rule ev_step_ok, assumption+, simp add: same_hash_def)

lemma init_evsys_ok: "ev_ok pg (init_evsys t)"
  by (simp add: ev_ok_def init_evsys_def reachable.init)

section \<open>A trace of both transactions\<close>

text \<open>The demo run waits for a key that is being emitted: up to the moment the waiter has found no
  event.\<close>

definition demo_ev :: "run_row \<Rightarrow> (nat \<rightharpoonup> event_tx) \<Rightarrow> evsys" where
  "demo_ev r txs = \<lparr>es_sys = demo_sys r [demo_claim] 0, es_txs = txs\<rparr>"

abbreviation demo_wait :: "json option option \<Rightarrow> event_tx" where
  "demo_wait \<equiv> WaitTx ''k'' 0 ''r1'' ''t1'' 0 1000 False"

abbreviation demo_emit :: "uuid list option \<Rightarrow> event_tx" where
  "demo_emit \<equiv> EmitTx ''k'' 0 JNull 1000 ''c''"

lemma demo_other:
  assumes "sys_step demo_pg s t" "events (s_db t) = []" "\<And>r. r \<in> set (runs (s_db t)) \<Longrightarrow> waiting_event_key r = None"
  shows "ev_step conflict demo_pg \<lparr>es_sys = s, es_txs = Map.empty\<rparr> \<lparr>es_sys = t, es_txs = Map.empty\<rparr>"
proof -
  let ?st = "\<lparr>es_sys = s, es_txs = Map.empty\<rparr> :: evsys"
  have "other_step demo_pg (es_sys ?st) t" "locks_kept ?st t"
    using assms by (simp_all add: other_step_def no_new_waits_def locks_kept_def)
  from ev_step.other [OF this] show ?thesis by simp
qed

lemma demo_waiter: "(ev_step conflict demo_pg)\<^sup>*\<^sup>* (init_evsys 0) (demo_ev demo_leased_row [0 \<mapsto> demo_wait (Some None)])"
proof -
  let ?step = "ev_step conflict demo_pg"
  have "?step (init_evsys 0) \<lparr>es_sys = demo_sys demo_row [] 0, es_txs = Map.empty\<rparr>"
    unfolding init_evsys_def
    by (rule demo_other [OF demo_enqueue_step]) (simp_all add: demo_sys_def demo_db_def demo_row_def)
  moreover have "?step \<lparr>es_sys = demo_sys demo_row [] 0, es_txs = Map.empty\<rparr> (demo_ev demo_leased_row Map.empty)"
    unfolding demo_ev_def
    by (rule demo_other [OF demo_claim_step]) (simp_all add: demo_sys_def demo_db_def demo_leased_row_def demo_row_def)
  moreover have "?step (demo_ev demo_leased_row Map.empty) (demo_ev demo_leased_row [0 \<mapsto> demo_wait None])"
    using ev_step.wait_lock [of "demo_ev demo_leased_row Map.empty" 0 0 conflict "''k''" demo_pg "''r1''" "''t1''" 0 1000 False]
    by (simp add: demo_ev_def lockEventKey_def demo_sys_def)
  moreover have "latestEvent 0 ''k'' (demo_db demo_leased_row) = Inr None"
    by (simp add: latestEvent_None text_ok_letter demo_db_def)
  then have "?step (demo_ev demo_leased_row [0 \<mapsto> demo_wait None]) (demo_ev demo_leased_row [0 \<mapsto> demo_wait (Some None)])"
    using ev_step.wait_read [of "demo_ev demo_leased_row [0 \<mapsto> demo_wait None]" 0 "''k''" 0 "''r1''" "''t1''" 0 1000 False None conflict demo_pg]
    by (simp add: demo_ev_def demo_sys_def)
  ultimately show ?thesis by (meson converse_rtranclp_into_rtranclp rtranclp.rtrancl_refl)
qed

lemma demo_park:
  assumes "txs 0 = Some (demo_wait (Some None))"
  shows "ev_step conflict demo_pg (demo_ev demo_leased_row txs) (demo_ev demo_waiting_row (txs(0 := None)))"
proof -
  let ?s = "demo_sys demo_leased_row [demo_claim] 0"
  have pk: "parkWait 0 (s_clock ?s) ''r1'' ''t1'' 0 ''k'' 1000 (s_db ?s) = Inr (1, demo_db demo_waiting_row)"
    by (simp add: demo_sys_def parkWait_def text_ok_letter fenced_update_def demo_db_def demo_leased_row_def
        demo_row_def demo_waiting_row_def fence_def count_where_def update_where_def interval_ms_def)
  have "ev_step conflict demo_pg (demo_ev demo_leased_row txs)
      ((demo_ev demo_leased_row txs)\<lparr>es_txs := (es_txs (demo_ev demo_leased_row txs))(0 := None),
        es_sys := ?s\<lparr>s_db := demo_db demo_waiting_row,
          s_parked := (if (1::nat) = 0 then s_parked ?s else (s_parked ?s)(''r1'' := 0))\<rparr>\<rparr>)"
    by (rule ev_step.wait_park [OF _ _ _ _ _ _ pk, where a = demo_claim and complete = False])
      (simp_all add: assms demo_ev_def demo_sys_def demo_claim_simps)
  then show ?thesis by (simp add: demo_ev_def demo_sys_def fun_upd_def)
qed

section \<open>The guarantees\<close>

text \<open>C4: The event transactions behave as if each were one step.  Let emitters, waiters and
  everyone else interleave statement by statement, with every statement reading what is
  committed by then: every state they reach is a state of the system in which emissions and
  waits are atomic, and in particular no waiting run has missed an event.  Nothing is
  required of the hash function: keys of equal hash only block each other.\<close>

theorem event_transactions_atomic:
  assumes "(ev_step (same_hash hashtext) pg)\<^sup>*\<^sup>* (init_evsys t) st"
  shows "reachable pg (es_sys st) \<and> no_missed_event (s_db (es_sys st)) (s_parked (es_sys st))"
proof -
  have "ev_ok pg st" using assms init_evsys_ok by (rule event_protocol.steps_inv)
  then have "reachable pg (es_sys st)" by (rule ev_okD(1))
  then show ?thesis using reachable_sys_ok by (auto simp: sys_ok_def)
qed

theorem event_transactions_atomic_witness:
  "\<exists>st. (ev_step (same_hash (\<lambda>_. 0)) demo_pg)\<^sup>*\<^sup>* (init_evsys 0) st \<and> runs (s_db (es_sys st)) = [demo_waiting_row]
     \<and> reachable demo_pg (es_sys st)"
proof -
  let ?txs = "[0 \<mapsto> demo_wait (Some None)] :: nat \<rightharpoonup> event_tx" and ?step = "ev_step (same_hash (\<lambda>_. 0)) demo_pg"
  have "?step (demo_ev demo_leased_row ?txs) (demo_ev demo_waiting_row (?txs(0 := None)))"
    by (rule demo_park) simp
  moreover have "?txs(0 := None) = Map.empty" by simp
  ultimately have "?step (demo_ev demo_leased_row ?txs) (demo_ev demo_waiting_row Map.empty)" by (simp only:)
  with demo_waiter have steps: "?step\<^sup>*\<^sup>* (init_evsys 0) (demo_ev demo_waiting_row Map.empty)"
    by (rule rtranclp.rtrancl_into_rtrancl)
  from event_transactions_atomic [OF this] steps show ?thesis
    by (intro exI [of _ "demo_ev demo_waiting_row Map.empty"]) (simp add: demo_ev_def demo_sys_def demo_db_def)
qed

text \<open>Without the lock a wake-up can be lost: the emitter looks for waiting runs before the waiter
  parks, and the waiter looks for events before the emitter commits.\<close>

theorem unlocked_event_missed:
  "\<exists>st. (ev_step (\<lambda>_ _. False) demo_pg)\<^sup>*\<^sup>* (init_evsys 0) st
     \<and> \<not> no_missed_event (s_db (es_sys st)) (s_parked (es_sys st))"
proof -
  let ?step = "ev_step (\<lambda>_ _. False) demo_pg" and ?w = "demo_wait (Some None)"
  let ?d = "(demo_db demo_waiting_row)\<lparr>events := [demo_event\<lparr>ev_expires_at := 1000000\<rparr>], event_seq := 1\<rparr>"
  let ?final = "\<lparr>es_sys = (demo_sys demo_waiting_row [demo_claim] 0)\<lparr>s_db := ?d\<rparr>, es_txs = Map.empty\<rparr> :: evsys"
  have "?step (demo_ev demo_leased_row [0 \<mapsto> ?w]) (demo_ev demo_leased_row [0 \<mapsto> ?w, 1 \<mapsto> demo_emit None])"
    using ev_step.emit_lock [of "demo_ev demo_leased_row [0 \<mapsto> ?w]" 1 0 "\<lambda>_ _. False" "''k''" demo_pg JNull 1000 "''c''"]
    by (simp add: demo_ev_def lockEventKey_def demo_sys_def)
  moreover have "?step (demo_ev demo_leased_row [0 \<mapsto> ?w, 1 \<mapsto> demo_emit None])
      (demo_ev demo_leased_row [0 \<mapsto> ?w, 1 \<mapsto> demo_emit (Some [])])"
    using ev_step.emit_stmt [of "demo_ev demo_leased_row [0 \<mapsto> ?w, 1 \<mapsto> demo_emit None]" 1 "''k''" 0 JNull 1000 "''c''" "[]"
        "\<lambda>_ _. False" demo_pg]
    by (simp add: demo_ev_def demo_sys_def demo_db_def demo_leased_row_def demo_row_def waits_on_def)
  moreover have "?step (demo_ev demo_leased_row [0 \<mapsto> ?w, 1 \<mapsto> demo_emit (Some [])])
      (demo_ev demo_waiting_row [1 \<mapsto> demo_emit (Some [])])"
    using demo_park [of "[0 \<mapsto> ?w, 1 \<mapsto> demo_emit (Some [])]" "\<lambda>_ _. False"]
    by (simp add: fun_upd_twist)
  moreover have em: "emit_rows (\<lambda>r. rid r \<in> set []) demo_pg 0 ''k'' JNull 1000 ''c'' (demo_db demo_waiting_row) = Inr ((0, 0), ?d)"
    by (simp add: emit_rows_def demo_pg_def text_ok_letter demo_db_def update_where_def record_outcomes_def notify_queues_def
        demo_event_def interval_ms_def)
  have "?step (demo_ev demo_waiting_row [1 \<mapsto> demo_emit (Some [])]) ?final"
    using ev_step.emit_commit [of "demo_ev demo_waiting_row [1 \<mapsto> demo_emit (Some [])]" 1 "''k''" 0 JNull 1000 "''c''" "[]"
        "demo_sys demo_waiting_row [demo_claim] 0" demo_pg "(0, 0)" ?d "\<lambda>_ _. False"] em
    by (simp add: demo_ev_def demo_sys_def)
  ultimately have "?step\<^sup>*\<^sup>* (demo_ev demo_leased_row [0 \<mapsto> ?w]) ?final"
    by (meson converse_rtranclp_into_rtranclp rtranclp.rtrancl_refl)
  then have "?step\<^sup>*\<^sup>* (init_evsys 0) ?final" using demo_waiter by (rule rtranclp_trans [rotated])
  moreover have "\<not> no_missed_event ?d (\<lambda>_. 0)"
    by (auto simp: no_missed_event_def demo_db_def demo_waiting_row_def demo_row_def demo_event_def)
  ultimately show ?thesis by (intro exI [of _ ?final]) (simp add: demo_sys_def)
qed

end
