(* ===== verification/Schema_Migration.thy ===== *)
theory Schema_Migration
  imports Run_System Engine_Api
begin

text \<open>
  The model of \<open>migrate.go\<close>: the catalog of a database as far as the migrations touch it, the
  statements of the migrations, \<open>ApplySchema\<close> as one transaction with faults at each of its
  stages, and \<open>SchemaSQL\<close>.  A quoted identifier stands for the name it denotes.  The lemmas
  show that installation is all or nothing, idempotent, and refuses newer schemas; that
  the tables of \<open>Run_Store\<close> satisfy every constraint the migrations declare, in every state
  the system reaches; and that a schema created from \<open>SchemaSQL\<close> cannot be upgraded by
  \<open>ApplySchema\<close>.
\<close>

section \<open>Catalog\<close>

datatype sql_type = UUID | TEXT | INTEGER | BIGINT | TIMESTAMPTZ | JSONB

datatype col_default = NoDefault | DefaultZero | DefaultNow | AlwaysIdentity

record column =
  co_name :: string
  co_type :: sql_type
  co_not_null :: bool
  co_default :: col_default

datatype row_filter = Everywhere | WhereEq string string | WhereNotNull string

text \<open>\<open>References\<close> names a column, a table and a column of that table; the rows that refer to a
  deleted row are deleted with it.\<close>

datatype table_constraint =
    PrimaryKey "string list"
  | CheckPositive string
  | CheckIn string "string list"
  | References string string string

datatype index_key = Asc string | Desc string

primrec key_column :: "index_key \<Rightarrow> string" where
  "key_column (Asc c) = c"
| "key_column (Desc c) = c"

record table_def =
  td_columns :: "column list"
  td_constraints :: "table_constraint list"

record index_def =
  ix_table :: string
  ix_keys :: "index_key list"
  ix_unique :: bool
  ix_where :: row_filter

datatype relation = Table table_def | Index index_def

text \<open>The relations of each schema (tables and indexes share their names), and the rows of its
  \<open>schema_migrations\<close> table.\<close>

record catalog =
  ca_relations :: "string \<rightharpoonup> (string \<rightharpoonup> relation)"
  ca_versions :: "string \<Rightarrow> int list"

datatype ddl =
    CreateTable string table_def
  | CreateIndex string index_def

datatype ddl_error =
    NoSuchSchema string
  | DuplicateRelation string
  | NoSuchTable string
  | NoSuchColumn string
  | DuplicateVersion int
  | DdlFault string

definition create_schema_if_not_exists :: "string \<Rightarrow> catalog \<Rightarrow> catalog" where
  "create_schema_if_not_exists schema c =
     (case ca_relations c schema of
        Some _ \<Rightarrow> c
      | None \<Rightarrow> c\<lparr>ca_relations := (ca_relations c)(schema \<mapsto> Map.empty)\<rparr>)"

definition table_columns :: "(string \<rightharpoonup> relation) \<Rightarrow> string \<Rightarrow> string list option" where
  "table_columns rels t = (case rels t of Some (Table td) \<Rightarrow> Some (map co_name (td_columns td)) | _ \<Rightarrow> None)"

fun constraint_error :: "(string \<rightharpoonup> relation) \<Rightarrow> table_constraint \<Rightarrow> ddl_error option" where
  "constraint_error rels (References col t tcol) =
     (case table_columns rels t of
        None \<Rightarrow> Some (NoSuchTable t)
      | Some cols \<Rightarrow> if tcol \<in> set cols then None else Some (NoSuchColumn tcol))"
| "constraint_error rels _ = None"

fun relation_error :: "(string \<rightharpoonup> relation) \<Rightarrow> relation \<Rightarrow> ddl_error option" where
  "relation_error rels (Table td) =
     (case List.map_filter (constraint_error rels) (td_constraints td) of [] \<Rightarrow> None | err # _ \<Rightarrow> Some err)"
| "relation_error rels (Index ix) =
     (case table_columns rels (ix_table ix) of
        None \<Rightarrow> Some (NoSuchTable (ix_table ix))
      | Some cols \<Rightarrow>
          (case filter (\<lambda>k. key_column k \<notin> set cols) (ix_keys ix) of
             [] \<Rightarrow> None
           | k # _ \<Rightarrow> Some (NoSuchColumn (key_column k))))"

definition add_relation :: "string \<Rightarrow> relation \<Rightarrow> (string \<rightharpoonup> relation) \<Rightarrow> ddl_error + (string \<rightharpoonup> relation)" where
  "add_relation name rel rels =
     (case relation_error rels rel of
        Some err \<Rightarrow> Inl err
      | None \<Rightarrow> if rels name \<noteq> None then Inl (DuplicateRelation name) else Inr (rels(name \<mapsto> rel)))"

definition in_schema ::
  "string \<Rightarrow> ((string \<rightharpoonup> relation) \<Rightarrow> ddl_error + (string \<rightharpoonup> relation)) \<Rightarrow> catalog \<Rightarrow> ddl_error + catalog" where
  "in_schema schema f c =
     (case ca_relations c schema of
        None \<Rightarrow> Inl (NoSuchSchema schema)
      | Some rels \<Rightarrow>
          (case f rels of
             Inl err \<Rightarrow> Inl err
           | Inr rels' \<Rightarrow> Inr (c\<lparr>ca_relations := (ca_relations c)(schema \<mapsto> rels')\<rparr>)))"

fun add_ddl :: "(string \<rightharpoonup> relation) \<Rightarrow> ddl \<Rightarrow> ddl_error + (string \<rightharpoonup> relation)" where
  "add_ddl rels (CreateTable name td) = add_relation name (Table td) rels"
| "add_ddl rels (CreateIndex name ix) = add_relation name (Index ix) rels"

text \<open>One migration is a sequence of statements.\<close>

definition exec_script :: "string \<Rightarrow> ddl list \<Rightarrow> catalog \<Rightarrow> ddl_error + catalog" where
  "exec_script schema script = in_schema schema (\<lambda>rels. run_cmds add_ddl rels script)"

section \<open>The migrations\<close>

definition nullable :: "string \<Rightarrow> sql_type \<Rightarrow> column" where
  "nullable name ty = \<lparr>co_name = name, co_type = ty, co_not_null = False, co_default = NoDefault\<rparr>"

definition defaulted :: "string \<Rightarrow> sql_type \<Rightarrow> col_default \<Rightarrow> column" where
  "defaulted name ty d = \<lparr>co_name = name, co_type = ty, co_not_null = True, co_default = d\<rparr>"

definition required :: "string \<Rightarrow> sql_type \<Rightarrow> column" where
  "required name ty = defaulted name ty NoDefault"

definition schema_migrations_def :: table_def where
  "schema_migrations_def =
     \<lparr>td_columns = [required ''version'' INTEGER], td_constraints = [PrimaryKey [''version'']]\<rparr>"

definition run_states :: "string list" where
  "run_states = [''ready'', ''leased'', ''waiting_event'', ''completed'', ''failed'', ''cancelled'']"

definition workflow_runs_def :: table_def where
  "workflow_runs_def =
     \<lparr>td_columns =
        [required ''id'' UUID, required ''workflow_name'' TEXT, required ''workflow_version'' INTEGER,
         required ''queue'' TEXT, required ''state'' TEXT, defaulted ''step_index'' INTEGER DefaultZero,
         defaulted ''attempt'' INTEGER DefaultZero, required ''max_attempts'' INTEGER, defaulted ''lease_failures'' INTEGER DefaultZero,
         defaulted ''next_run_at'' TIMESTAMPTZ DefaultNow, nullable ''lease_token'' UUID, nullable ''lease_until'' TIMESTAMPTZ,
         nullable ''waiting_event_key'' TEXT, nullable ''waiting_deadline'' TIMESTAMPTZ,
         required ''input_json'' JSONB, nullable ''output_json'' JSONB, nullable ''dedup_key'' TEXT,
         nullable ''last_error'' TEXT, defaulted ''created_at'' TIMESTAMPTZ DefaultNow, defaulted ''updated_at'' TIMESTAMPTZ DefaultNow],
      td_constraints =
        [PrimaryKey [''id''], CheckPositive ''workflow_version'', CheckIn ''state'' run_states,
         CheckPositive ''max_attempts'']\<rparr>"

definition step_checkpoints_def :: table_def where
  "step_checkpoints_def =
     \<lparr>td_columns =
        [required ''run_id'' UUID, required ''step_index'' INTEGER, required ''value_json'' JSONB,
         defaulted ''completed_at'' TIMESTAMPTZ DefaultNow],
      td_constraints =
        [References ''run_id'' ''workflow_runs'' ''id'', PrimaryKey [''run_id'', ''step_index'']]\<rparr>"

definition event_log_def :: table_def where
  "event_log_def =
     \<lparr>td_columns =
        [defaulted ''id'' BIGINT AlwaysIdentity, required ''event_key'' TEXT, required ''payload_json'' JSONB,
         defaulted ''created_at'' TIMESTAMPTZ DefaultNow, required ''expires_at'' TIMESTAMPTZ],
      td_constraints = [PrimaryKey [''id'']]\<rparr>"

definition dedup_index :: index_def where
  "dedup_index = \<lparr>ix_table = ''workflow_runs'', ix_keys = [Asc ''workflow_name'', Asc ''dedup_key''], ix_unique = True,
     ix_where = WhereNotNull ''dedup_key''\<rparr>"

definition runs_index :: "index_key list \<Rightarrow> string \<Rightarrow> index_def" where
  "runs_index cols st = \<lparr>ix_table = ''workflow_runs'', ix_keys = cols, ix_unique = False, ix_where = WhereEq ''state'' st\<rparr>"

definition events_index :: "index_key list \<Rightarrow> index_def" where
  "events_index cols = \<lparr>ix_table = ''event_log'', ix_keys = cols, ix_unique = False, ix_where = Everywhere\<rparr>"

definition migrations :: "ddl list list" where
  "migrations =
     [[CreateTable ''workflow_runs'' workflow_runs_def,
       CreateIndex ''workflow_runs_ready_idx'' (runs_index [Asc ''queue'', Asc ''next_run_at'', Asc ''id''] ''ready''),
       CreateIndex ''workflow_runs_selective_ready_idx''
         (runs_index [Asc ''queue'', Asc ''workflow_name'', Asc ''workflow_version'', Asc ''next_run_at'', Asc ''id''] ''ready''),
       CreateIndex ''workflow_runs_leased_idx'' (runs_index [Asc ''lease_until''] ''leased''),
       CreateIndex ''workflow_runs_waiting_key_idx'' (runs_index [Asc ''waiting_event_key''] ''waiting_event''),
       CreateIndex ''workflow_runs_waiting_deadline_idx'' (runs_index [Asc ''waiting_deadline''] ''waiting_event''),
       CreateIndex ''workflow_runs_dedup_uidx'' dedup_index,
       CreateTable ''step_checkpoints'' step_checkpoints_def,
       CreateTable ''event_log'' event_log_def,
       CreateIndex ''event_log_key_idx'' (events_index [Asc ''event_key'', Desc ''created_at'', Desc ''id'']),
       CreateIndex ''event_log_expires_idx'' (events_index [Asc ''expires_at''])]]"

section \<open>ApplySchema\<close>

text \<open>\<open>CREATE TABLE IF NOT EXISTS schema_migrations\<close>: any relation of that name will do.\<close>

definition create_history_if_not_exists :: "string \<Rightarrow> catalog \<Rightarrow> ddl_error + catalog" where
  "create_history_if_not_exists schema =
     in_schema schema (\<lambda>rels.
       if rels ''schema_migrations'' \<noteq> None then Inr rels
       else add_relation ''schema_migrations'' (Table schema_migrations_def) rels)"

definition history_columns :: "string \<Rightarrow> catalog \<Rightarrow> ddl_error option" where
  "history_columns schema c =
     (case Option.bind (ca_relations c schema) (\<lambda>rels. table_columns rels ''schema_migrations'') of
        None \<Rightarrow> Some (NoSuchTable ''schema_migrations'')
      | Some cols \<Rightarrow> if ''version'' \<in> set cols then None else Some (NoSuchColumn ''version''))"

text \<open>\<open>COALESCE(max(version), 0)\<close>.\<close>

fun max_version :: "int list \<Rightarrow> int" where
  "max_version [] = 0"
| "max_version (v # vs) = fold max vs v"

definition current_version :: "string \<Rightarrow> catalog \<Rightarrow> ddl_error + int" where
  "current_version schema c =
     (case history_columns schema c of Some err \<Rightarrow> Inl err | None \<Rightarrow> Inr (max_version (ca_versions c schema)))"

definition record_version :: "string \<Rightarrow> int \<Rightarrow> catalog \<Rightarrow> ddl_error + catalog" where
  "record_version schema v c =
     (case history_columns schema c of
        Some err \<Rightarrow> Inl err
      | None \<Rightarrow>
          if v \<in> set (ca_versions c schema) then Inl (DuplicateVersion v)
          else Inr (c\<lparr>ca_versions := (ca_versions c)(schema := ca_versions c schema @ [v])\<rparr>))"

text \<open>The calls of \<open>ApplySchema\<close> that can fail, each with its own error message, and the faults
  that strike them; \<open>se_lost\<close> says that a failed commit had been applied by the server.\<close>

datatype schema_stage =
    AtBegin | AtLock | AtSchema | AtHistory | AtRead | AtApply int | AtRecord int | AtCommit

record schema_env =
  se_fault :: "schema_stage \<Rightarrow> string option"
  se_lost :: bool

datatype schema_error =
    StageFailed schema_stage ddl_error
  | UnsupportedSchema int int
  | IndexOutOfRange \<comment> \<open>the panic of indexing the migrations with a negative version\<close>

definition at_stage :: "schema_env \<Rightarrow> schema_stage \<Rightarrow> ddl_error + 'a \<Rightarrow> schema_error + 'a" where
  "at_stage env st r =
     (case se_fault env st of
        Some m \<Rightarrow> Inl (StageFailed st (DdlFault m))
      | None \<Rightarrow> (case r of Inl err \<Rightarrow> Inl (StageFailed st err) | Inr x \<Rightarrow> Inr x))"

text \<open>The loop, over the migrations that are left.\<close>

fun migration_loop :: "schema_env \<Rightarrow> string \<Rightarrow> int \<Rightarrow> ddl list list \<Rightarrow> catalog \<Rightarrow> schema_error + catalog" where
  "migration_loop env schema version [] c = Inr c"
| "migration_loop env schema version (m # ms) c =
     (case at_stage env (AtApply (version + 1)) (exec_script schema m c) of
        Inl err \<Rightarrow> Inl err
      | Inr c1 \<Rightarrow>
          (case at_stage env (AtRecord (version + 1)) (record_version schema (version + 1) c1) of
             Inl err \<Rightarrow> Inl err
           | Inr c2 \<Rightarrow> migration_loop env schema (version + 1) ms c2))"

text \<open>Everything between the advisory lock and the commit, for a list of migrations.\<close>

definition migration_tx :: "schema_env \<Rightarrow> ddl list list \<Rightarrow> string \<Rightarrow> catalog \<Rightarrow> schema_error + catalog" where
  "migration_tx env ms schema c =
     (case at_stage env AtSchema (Inr (create_schema_if_not_exists schema c)) of
        Inl err \<Rightarrow> Inl err
      | Inr c1 \<Rightarrow>
     (case at_stage env AtHistory (create_history_if_not_exists schema c1) of
        Inl err \<Rightarrow> Inl err
      | Inr c2 \<Rightarrow>
     (case at_stage env AtRead (current_version schema c2) of
        Inl err \<Rightarrow> Inl err
      | Inr version \<Rightarrow>
          if int (length ms) < version then Inl (UnsupportedSchema version (int (length ms)))
          else if version < 0 \<and> ms \<noteq> [] then Inl IndexOutOfRange
          else migration_loop env schema version (drop (nat version) ms) c2)))"

text \<open>The transaction: it runs alone among the callers for its schema, because the advisory
  lock is its first statement and is held to its end.  Without the commit, and on a panic,
  the deferred rollback leaves the catalog as it was.\<close>

definition ApplySchema :: "schema_env \<Rightarrow> Engine \<Rightarrow> catalog \<Rightarrow> schema_error option \<times> catalog" where
  "ApplySchema env e c =
     (case at_stage env AtBegin (Inr ()) of
        Inl err \<Rightarrow> (Some err, c)
      | Inr _ \<Rightarrow>
     (case at_stage env AtLock (Inr ()) of
        Inl err \<Rightarrow> (Some err, c)
      | Inr _ \<Rightarrow>
     (case migration_tx env migrations (e_schema e) c of
        Inl err \<Rightarrow> (Some err, c)
      | Inr c' \<Rightarrow>
     (case at_stage env AtCommit (Inr ()) of
        Inl err \<Rightarrow> (Some err, if se_lost env then c' else c)
      | Inr _ \<Rightarrow> (None, c')))))"

definition Migrate :: "schema_env \<Rightarrow> Engine \<Rightarrow> catalog \<Rightarrow> schema_error option \<times> catalog" where
  "Migrate env e c = ApplySchema env e c"

text \<open>Running the script of \<open>SchemaSQL\<close>: the schema and all migrations, without a history.\<close>

definition run_SchemaSQL :: "Engine \<Rightarrow> catalog \<Rightarrow> ddl_error + catalog" where
  "run_SchemaSQL e c =
     exec_script (e_schema e) (concat migrations) (create_schema_if_not_exists (e_schema e) c)"

section \<open>Installation\<close>

text \<open>What the migrations declare, by name.\<close>

fun ddl_relation :: "ddl \<Rightarrow> string \<times> relation" where
  "ddl_relation (CreateTable name td) = (name, Table td)"
| "ddl_relation (CreateIndex name ix) = (name, Index ix)"

definition declared :: "(string \<times> relation) list" where
  "declared = (''schema_migrations'', Table schema_migrations_def) # map ddl_relation (concat migrations)"

definition vacant :: "catalog \<Rightarrow> string \<Rightarrow> bool" where
  "vacant c s \<longleftrightarrow> ca_versions c s = []
     \<and> (\<forall>rels. ca_relations c s = Some rels \<longrightarrow> (\<forall>(n, r) \<in> set declared. rels n = None))"

definition complete :: "catalog \<Rightarrow> string \<Rightarrow> bool" where
  "complete c s \<longleftrightarrow> ca_versions c s = [1]
     \<and> (\<exists>rels. ca_relations c s = Some rels \<and> (\<forall>(n, r) \<in> set declared. rels n = Some r))"

definition calm_schema :: "schema_env \<Rightarrow> bool" where
  "calm_schema env \<longleftrightarrow> (\<forall>st. se_fault env st = None)"

lemma at_stage_calm [simp]:
  "calm_schema env \<Longrightarrow> at_stage env st r = (case r of Inl err \<Rightarrow> Inl (StageFailed st err) | Inr x \<Rightarrow> Inr x)"
  by (simp add: at_stage_def calm_schema_def)

lemma at_stage_Inr [simp]: "at_stage env st r = Inr x \<longleftrightarrow> se_fault env st = None \<and> r = Inr x"
  by (auto simp: at_stage_def split: option.splits sum.splits)

lemma add_ddl_Inr:
  "add_ddl rels d = Inr rels' \<Longrightarrow>
   rels (fst (ddl_relation d)) = None \<and> rels' = rels(fst (ddl_relation d) \<mapsto> snd (ddl_relation d))"
  by (cases d) (auto simp: add_relation_def split: option.splits if_splits)

lemma run_add_ddl:
  assumes "run_cmds add_ddl rels script = Inr rels'"
  shows "rels \<subseteq>\<^sub>m rels' \<and> (\<forall>(n, r) \<in> set (map ddl_relation script). rels' n = Some r \<and> rels n = None)"
  using assms
proof (induction script arbitrary: rels)
  case (Cons d script)
  from Cons.prems obtain mid where mid: "add_ddl rels d = Inr mid" "run_cmds add_ddl mid script = Inr rels'"
    by (auto split: sum.splits)
  have le: "rels \<subseteq>\<^sub>m mid" using add_ddl_Inr [OF mid(1)] by (auto simp: map_le_def)
  note tail = Cons.IH [OF mid(2)]
  have "mid n = None \<Longrightarrow> rels n = None" for n
    using le by (cases "rels n") (auto simp: map_le_def dom_def)
  moreover have "rels' (fst (ddl_relation d)) = Some (snd (ddl_relation d))"
    using tail add_ddl_Inr [OF mid(1)] by (auto simp: map_le_def dom_def)
  moreover have "rels \<subseteq>\<^sub>m rels'" using tail map_le_trans [OF le] by blast
  ultimately show ?case using tail add_ddl_Inr [OF mid(1)] by (auto simp del: fun_upd_apply)
qed simp

lemma run_add_ddl_other:
  "run_cmds add_ddl rels script = Inr rels' \<Longrightarrow> n \<notin> fst ` ddl_relation ` set script \<Longrightarrow> rels' n = rels n"
proof (induction script arbitrary: rels)
  case (Cons d script)
  from Cons.prems(1) obtain mid where mid: "add_ddl rels d = Inr mid" "run_cmds add_ddl mid script = Inr rels'"
    by (auto split: sum.splits)
  then show ?case using Cons.IH [OF mid(2)] add_ddl_Inr [OF mid(1)] Cons.prems(2) by simp
qed simp

lemmas table_defs = workflow_runs_def_def step_checkpoints_def_def event_log_def_def schema_migrations_def_def
  dedup_index_def runs_index_def events_index_def required_def nullable_def defaulted_def

lemma script_succeeds:
  assumes "\<forall>(n, r) \<in> set declared. rels n = None"
  shows "\<exists>rels'. run_cmds add_ddl (rels(''schema_migrations'' \<mapsto> Table schema_migrations_def)) (concat migrations)
    = Inr rels'"
  using assms
  by (simp add: declared_def migrations_def add_relation_def table_columns_def table_defs List.map_filter_simps)

text \<open>The other schemas of the database are not touched.\<close>

definition same_schema :: "catalog \<Rightarrow> catalog \<Rightarrow> string \<Rightarrow> bool" where
  "same_schema c c' s \<longleftrightarrow> ca_relations c' s = ca_relations c s \<and> ca_versions c' s = ca_versions c s"

lemma same_schema_refl [simp]: "same_schema c c s"
  by (simp add: same_schema_def)

lemma same_schema_trans: "same_schema c c1 s \<Longrightarrow> same_schema c1 c2 s \<Longrightarrow> same_schema c c2 s"
  by (simp add: same_schema_def)

lemma same_schema_vacant: "same_schema c c' s \<Longrightarrow> vacant c' s \<longleftrightarrow> vacant c s"
  by (simp add: same_schema_def vacant_def)

lemma same_schema_complete: "same_schema c c' s \<Longrightarrow> complete c' s \<longleftrightarrow> complete c s"
  by (simp add: same_schema_def complete_def)

lemma in_schema_Inr:
  assumes "in_schema schema f c = Inr c'"
  obtains rels rels' where "ca_relations c schema = Some rels" "f rels = Inr rels'"
    "c' = c\<lparr>ca_relations := (ca_relations c)(schema \<mapsto> rels')\<rparr>"
  using assms by (auto simp: in_schema_def split: option.splits sum.splits)

lemma in_schema_frame: "in_schema schema f c = Inr c' \<Longrightarrow> s \<noteq> schema \<Longrightarrow> same_schema c c' s"
  by (auto simp: in_schema_def same_schema_def split: option.splits sum.splits)

lemma record_version_Inr:
  "record_version schema v c = Inr c' \<Longrightarrow>
   c' = c\<lparr>ca_versions := (ca_versions c)(schema := ca_versions c schema @ [v])\<rparr>"
  by (auto simp: record_version_def split: option.splits if_splits)

lemma migration_loop_frame:
  "migration_loop env schema v ms c = Inr c' \<Longrightarrow> s \<noteq> schema \<Longrightarrow> same_schema c c' s"
proof (induction env schema v ms c rule: migration_loop.induct)
  case (2 env schema v m ms c)
  from "2.prems" obtain c1 c2 where c1: "exec_script schema m c = Inr c1"
    and c2: "record_version schema (v + 1) c1 = Inr c2"
    and st: "at_stage env (AtApply (v + 1)) (exec_script schema m c) = Inr c1"
      "at_stage env (AtRecord (v + 1)) (record_version schema (v + 1) c1) = Inr c2"
    and rest: "migration_loop env schema (v + 1) ms c2 = Inr c'"
    by (auto split: sum.splits)
  have "same_schema c c1 s" by (rule in_schema_frame [OF c1 [unfolded exec_script_def] "2.prems"(2)])
  moreover have "same_schema c1 c2 s"
    using record_version_Inr [OF c2] "2.prems"(2) by (simp add: same_schema_def)
  ultimately show ?case using "2.IH" [OF st rest "2.prems"(2)] same_schema_trans by blast
qed simp

lemma migration_tx_Inr:
  assumes "migration_tx env ms schema c = Inr c'"
  obtains c2 v where "create_history_if_not_exists schema (create_schema_if_not_exists schema c) = Inr c2"
    "current_version schema c2 = Inr v" "v \<le> int (length ms)" "0 \<le> v \<or> ms = []"
    "migration_loop env schema v (drop (nat v) ms) c2 = Inr c'"
  using assms by (auto simp: migration_tx_def not_less split: sum.splits if_splits)

lemma migration_tx_frame:
  assumes "migration_tx env ms schema c = Inr c'" "s \<noteq> schema"
  shows "same_schema c c' s"
proof -
  from migration_tx_Inr [OF assms(1)] obtain c2 v where
    c2: "create_history_if_not_exists schema (create_schema_if_not_exists schema c) = Inr c2"
    and loop: "migration_loop env schema v (drop (nat v) ms) c2 = Inr c'" .
  have "same_schema c (create_schema_if_not_exists schema c) s"
    using assms(2) by (auto simp: same_schema_def create_schema_if_not_exists_def split: option.splits)
  moreover have "same_schema (create_schema_if_not_exists schema c) c2 s"
    by (rule in_schema_frame [OF c2 [unfolded create_history_if_not_exists_def] assms(2)])
  ultimately show ?thesis using migration_loop_frame [OF loop assms(2)] same_schema_trans by blast
qed

lemma migrations_single: "migrations = [concat migrations]"
  by (simp add: migrations_def)

text \<open>The history table the transaction starts from.\<close>

definition history_ready :: "catalog \<Rightarrow> string \<Rightarrow> bool" where
  "history_ready c s \<longleftrightarrow>
     (\<exists>rels. (\<forall>(n, r) \<in> set declared. rels n = None) \<and> ca_versions c s = []
        \<and> ca_relations c s = Some (rels(''schema_migrations'' \<mapsto> Table schema_migrations_def)))"

lemma vacant_history:
  assumes "vacant c s"
  shows "\<exists>c2. create_history_if_not_exists s (create_schema_if_not_exists s c) = Inr c2 \<and> history_ready c2 s"
proof -
  have sm: "add_relation ''schema_migrations'' (Table schema_migrations_def) rels
      = Inr (rels(''schema_migrations'' \<mapsto> Table schema_migrations_def))"
    if "rels ''schema_migrations'' = None" for rels
    using that by (simp add: add_relation_def schema_migrations_def_def List.map_filter_simps)
  have "rels ''schema_migrations'' = None" if "ca_relations c s = Some rels" for rels
    using assms that by (simp add: vacant_def declared_def)
  then show ?thesis using assms
    by (cases "ca_relations c s")
      (auto simp: create_history_if_not_exists_def create_schema_if_not_exists_def in_schema_def sm
        history_ready_def vacant_def)
qed

lemma history_ready_columns: "history_ready c s \<Longrightarrow> history_columns s c = None"
  by (auto simp: history_ready_def history_columns_def table_columns_def schema_migrations_def_def required_def
    defaulted_def)

lemma history_ready_version: "history_ready c s \<Longrightarrow> current_version s c = Inr 0"
  by (simp add: current_version_def history_ready_columns) (auto simp: history_ready_def)

lemma history_columns_keep:
  assumes "history_columns s c = None" "ca_relations c s = Some rels" "rels \<subseteq>\<^sub>m rels'" "ca_relations c' s = Some rels'"
  shows "history_columns s c' = None"
proof -
  have "rels ''schema_migrations'' \<noteq> None"
    using assms(1,2) by (auto simp: history_columns_def table_columns_def split: option.splits)
  then have "rels' ''schema_migrations'' = rels ''schema_migrations''"
    using assms(3) by (auto simp: map_le_def dom_def)
  then show ?thesis using assms by (simp add: history_columns_def table_columns_def)
qed

lemma script_from_ready:
  assumes "history_ready c s"
  shows "\<exists>c1. exec_script s (concat migrations) c = Inr c1 \<and> history_columns s c1 = None \<and> ca_versions c1 s = []"
    and "exec_script s (concat migrations) c = Inr c1 \<Longrightarrow>
      ca_versions c1 s = [] \<and> (\<exists>rels. ca_relations c1 s = Some rels \<and> (\<forall>(n, r) \<in> set declared. rels n = Some r))"
proof -
  from assms obtain rels where rels: "\<forall>(n, r) \<in> set declared. rels n = None" "ca_versions c s = []"
    "ca_relations c s = Some (rels(''schema_migrations'' \<mapsto> Table schema_migrations_def))"
    by (auto simp: history_ready_def)
  from script_succeeds [OF rels(1)] obtain rels' where
    run: "run_cmds add_ddl (rels(''schema_migrations'' \<mapsto> Table schema_migrations_def)) (concat migrations) = Inr rels'" ..
  let ?c1 = "c\<lparr>ca_relations := (ca_relations c)(s \<mapsto> rels')\<rparr>"
  have ex: "exec_script s (concat migrations) c = Inr ?c1"
    by (simp add: exec_script_def in_schema_def rels run)
  note le = run_add_ddl [OF run]
  have "history_columns s ?c1 = None"
    by (rule history_columns_keep [OF history_ready_columns [OF assms] rels(3)]) (use le in simp_all)
  with ex rels(2) show "\<exists>c1. exec_script s (concat migrations) c = Inr c1 \<and> history_columns s c1 = None
    \<and> ca_versions c1 s = []" by simp
  have "rels' ''schema_migrations'' = Some (Table schema_migrations_def)"
    using le by (auto simp: map_le_def)
  moreover have "rels' n = Some r" if "(n, r) \<in> set (map ddl_relation (concat migrations))" for n r
    using le that by blast
  ultimately have all: "\<forall>(n, r) \<in> set declared. rels' n = Some r"
    by (auto simp: declared_def simp del: set_map set_concat)
  then show "ca_versions c1 s = [] \<and> (\<exists>rels. ca_relations c1 s = Some rels \<and> (\<forall>(n, r) \<in> set declared. rels n = Some r))"
    if "exec_script s (concat migrations) c = Inr c1"
    using that ex rels(2) by auto
qed

lemma vacant_installs:
  assumes "vacant c s" "calm_schema env"
  shows "\<exists>c'. migration_tx env migrations s c = Inr c'"
proof -
  from vacant_history [OF assms(1)] obtain c2 where
    c2: "create_history_if_not_exists s (create_schema_if_not_exists s c) = Inr c2" and ready: "history_ready c2 s"
    by blast
  from script_from_ready(1) [OF ready] obtain c1 where c1: "exec_script s (concat migrations) c2 = Inr c1"
    "history_columns s c1 = None" "ca_versions c1 s = []" by blast
  show ?thesis
    unfolding migration_tx_def
    by (subst (1 2 3 4) migrations_single) (simp add: assms(2) c2 history_ready_version [OF ready] c1 record_version_def)
qed

lemma vacant_completes:
  assumes "vacant c s" "migration_tx env migrations s c = Inr c'"
  shows "complete c' s"
proof -
  from vacant_history [OF assms(1)] obtain c2 where
    c2: "create_history_if_not_exists s (create_schema_if_not_exists s c) = Inr c2" and ready: "history_ready c2 s"
    by blast
  with migration_tx_Inr [OF assms(2)] history_ready_version [OF ready]
  have "migration_loop env s 0 migrations c2 = Inr c'"
    by (metis Inr_inject drop0 nat_0)
  then have "migration_loop env s 0 [concat migrations] c2 = Inr c'" by (subst (asm) migrations_single)
  then obtain c1 where "exec_script s (concat migrations) c2 = Inr c1" "record_version s 1 c1 = Inr c'"
    by (auto split: sum.splits)
  with script_from_ready(2) [OF ready] show ?thesis
    by (auto simp: complete_def dest!: record_version_Inr)
qed

lemma complete_unchanged:
  assumes "complete c s"
  shows "migration_tx env migrations s c = Inr c' \<Longrightarrow> c' = c"
    and "calm_schema env \<Longrightarrow> migration_tx env migrations s c = Inr c"
proof -
  from assms obtain rels where rels: "ca_relations c s = Some rels" "ca_versions c s = [1]"
    "rels ''schema_migrations'' = Some (Table schema_migrations_def)"
    by (auto simp: complete_def declared_def)
  have c2: "create_history_if_not_exists s (create_schema_if_not_exists s c) = Inr c"
    using rels by (simp add: create_history_if_not_exists_def create_schema_if_not_exists_def in_schema_def fun_upd_idem)
  have v: "current_version s c = Inr 1"
    using rels by (simp add: current_version_def history_columns_def table_columns_def schema_migrations_def_def
      required_def defaulted_def)
  have len: "length migrations = 1" by (subst migrations_single) simp
  then have none: "drop (Suc 0) migrations = []" by simp
  show "migration_tx env migrations s c = Inr c' \<Longrightarrow> c' = c"
    by (erule migration_tx_Inr) (use c2 v none in auto)
  show "migration_tx env migrations s c = Inr c" if "calm_schema env"
    by (simp add: migration_tx_def that c2 v len none)
qed

section \<open>Sequences of calls\<close>

text \<open>Calls by any engines on one database; those for one schema are serialized by the lock,
  those for different schemas commute, so a list of calls is the general case.\<close>

fun apply_calls :: "(schema_env \<times> Engine) list \<Rightarrow> catalog \<Rightarrow> schema_error option list \<times> catalog" where
  "apply_calls [] c = ([], c)"
| "apply_calls ((env, e) # calls) c =
     (let (r, c1) = ApplySchema env e c; (rs, c2) = apply_calls calls c1 in (r # rs, c2))"

lemma ApplySchema_cases:
  assumes "ApplySchema env e c = (r, c')"
  obtains (unchanged) "c' = c" "r \<noteq> None"
  | (done_ok) "migration_tx env migrations (e_schema e) c = Inr c'" "r = None"
  | (lost) "migration_tx env migrations (e_schema e) c = Inr c'" "r \<noteq> None" "se_lost env"
  using assms by (auto simp: ApplySchema_def split: sum.splits if_splits)

lemma ApplySchema_calm:
  "calm_schema env \<Longrightarrow> ApplySchema env e c =
     (case migration_tx env migrations (e_schema e) c of Inl err \<Rightarrow> (Some err, c) | Inr c' \<Rightarrow> (None, c'))"
  by (simp add: ApplySchema_def split: sum.splits)

lemma ApplySchema_call:
  assumes "ApplySchema env e c = (r, c')" "vacant c s \<or> complete c s"
  shows "vacant c' s \<or> complete c' s"
    and "complete c s \<Longrightarrow> complete c' s"
    and "e_schema e = s \<Longrightarrow> r = None \<Longrightarrow> complete c' s"
    and "e_schema e = s \<Longrightarrow> calm_schema env \<Longrightarrow> r = None"
proof -
  have tx: "complete c' s" if "migration_tx env migrations (e_schema e) c = Inr c'" "e_schema e = s"
    using assms(2) vacant_completes complete_unchanged(1) that by blast
  have other: "same_schema c c' s" if "e_schema e \<noteq> s"
    using assms(1) that by (cases rule: ApplySchema_cases) (auto intro: migration_tx_frame)
  have eff: "c' = c \<or> complete c' s" if "e_schema e = s"
    using assms(1) tx that by (cases rule: ApplySchema_cases) auto
  show "vacant c' s \<or> complete c' s"
    using assms(2) eff other same_schema_vacant same_schema_complete by blast
  show "complete c s \<Longrightarrow> complete c' s" using eff other same_schema_complete by blast
  show "complete c' s" if "e_schema e = s" "r = None"
    using assms(1) tx that by (cases rule: ApplySchema_cases) auto
  show "r = None" if "e_schema e = s" "calm_schema env"
    using assms that vacant_installs complete_unchanged(2)
    by (fastforce simp: ApplySchema_calm split: sum.splits)
qed

lemma apply_calls_state:
  assumes "apply_calls calls c = (rs, c')" "vacant c s \<or> complete c s"
  shows "(vacant c' s \<or> complete c' s) \<and> (complete c s \<longrightarrow> complete c' s) \<and> length rs = length calls
    \<and> (\<forall>i < length calls. e_schema (snd (calls ! i)) = s \<longrightarrow>
         (calm_schema (fst (calls ! i)) \<longrightarrow> rs ! i = None) \<and> (rs ! i = None \<longrightarrow> complete c' s))"
  using assms
proof (induction calls arbitrary: c rs)
  case (Cons call calls)
  obtain env e where call: "call = (env, e)" by fastforce
  obtain r c1 where one: "ApplySchema env e c = (r, c1)" by fastforce
  obtain rs1 where rest: "apply_calls calls c1 = (rs1, c')" "rs = r # rs1"
    using Cons.prems(1) by (auto simp: call one Let_def split: prod.splits)
  note step = ApplySchema_call [OF one Cons.prems(2)]
  note IH = Cons.IH [OF rest(1) step(1)]
  show ?case using IH step by (auto simp: call rest(2) less_Suc_eq_0_disj)
qed simp

text \<open>C23: Installing a schema is safe to repeat and to race.  Take a database in which the schema
  has none of the library's relations.  After any sequence of calls of ApplySchema, by any
  engines, with faults at any of their stages (a lost reply to the commit included), the
  schema is either still without them or complete, with every declared table and index and
  the history [1]; once complete it stays so.  Every call for the schema that meets no fault succeeds,
  and after one that succeeded the schema is complete.\<close>

theorem ApplySchema_converges:
  assumes "vacant c s" "apply_calls calls c = (rs, c')"
  shows "(vacant c' s \<or> complete c' s)
    \<and> (\<forall>i < length calls. e_schema (snd (calls ! i)) = s \<longrightarrow>
         (calm_schema (fst (calls ! i)) \<longrightarrow> rs ! i = None) \<and> (rs ! i = None \<longrightarrow> complete c' s))"
  using apply_calls_state [OF assms(2)] assms(1) by blast

definition empty_catalog :: catalog where
  "empty_catalog = \<lparr>ca_relations = Map.empty, ca_versions = (\<lambda>_. [])\<rparr>"

lemma vacant_empty: "vacant empty_catalog s"
  by (simp add: vacant_def empty_catalog_def)

definition calm_env :: schema_env where
  "calm_env = \<lparr>se_fault = (\<lambda>_. None), se_lost = False\<rparr>"

definition broken_commit :: schema_env where
  "broken_commit = \<lparr>se_fault = (\<lambda>st. if st = AtCommit then Some ''reset'' else None), se_lost = True\<rparr>"

lemma calm_calm_env [simp]: "calm_schema calm_env"
  by (simp add: calm_schema_def calm_env_def)

text \<open>A commit whose reply is lost, then a call without faults.\<close>

theorem ApplySchema_converges_witness:
  "vacant empty_catalog ''durable''
   \<and> complete (snd (apply_calls [(broken_commit, demo_engine), (calm_env, demo_engine)] empty_catalog)) ''durable''"
proof -
  obtain rs c' where run: "apply_calls [(broken_commit, demo_engine), (calm_env, demo_engine)] empty_catalog = (rs, c')"
    by fastforce
  from ApplySchema_converges [OF vacant_empty [of "''durable''"] run]
  have "complete c' ''durable''" by (auto simp: less_Suc_eq_0_disj demo_engine_def)
  then show ?thesis unfolding run by (simp add: vacant_empty)
qed

text \<open>C24: ApplySchema is all or nothing and never touches a schema it does not know.  A call that
  reports an error leaves the whole catalog as it was, unless the reply to an applied commit was
  lost; a schema recorded at a version above the last known migration is refused with
  ErrUnsupportedSchema; and whatever happens, other schemas keep their relations and history.\<close>

theorem ApplySchema_all_or_nothing:
  assumes "ApplySchema env e c = (r, c')"
  shows "(r \<noteq> None \<and> \<not> se_lost env \<longrightarrow> c' = c)
    \<and> (calm_schema env \<and> current_version (e_schema e) c = Inr v \<and> 1 < v \<longrightarrow>
         r = Some (UnsupportedSchema v 1) \<and> c' = c)
    \<and> (s \<noteq> e_schema e \<longrightarrow> ca_relations c' s = ca_relations c s \<and> ca_versions c' s = ca_versions c s)"
proof (intro conjI impI)
  show "c' = c" if "r \<noteq> None \<and> \<not> se_lost env"
    using assms that by (cases rule: ApplySchema_cases) auto
  show newer: "r = Some (UnsupportedSchema v 1)" "c' = c"
    if "calm_schema env \<and> current_version (e_schema e) c = Inr v \<and> 1 < v"
  proof -
    from that obtain rels where rels: "ca_relations c (e_schema e) = Some rels" "rels ''schema_migrations'' \<noteq> None"
      by (cases "ca_relations c (e_schema e)")
        (auto simp: current_version_def history_columns_def table_columns_def split: option.splits)
    then have "create_history_if_not_exists (e_schema e) (create_schema_if_not_exists (e_schema e) c) = Inr c"
      by (simp add: create_history_if_not_exists_def create_schema_if_not_exists_def in_schema_def fun_upd_idem)
    moreover have "length migrations = 1" by (subst migrations_single) simp
    ultimately have "migration_tx env migrations (e_schema e) c = Inl (UnsupportedSchema v 1)"
      using that by (simp add: migration_tx_def)
    then show "r = Some (UnsupportedSchema v 1)" "c' = c" using assms that by (simp_all add: ApplySchema_calm)
  qed
  have "same_schema c c' s" if "s \<noteq> e_schema e"
    using assms that by (cases rule: ApplySchema_cases) (auto intro: migration_tx_frame)
  then show "ca_relations c' s = ca_relations c s" "ca_versions c' s = ca_versions c s" if "s \<noteq> e_schema e"
    using that by (auto simp: same_schema_def)
qed

definition future_catalog :: catalog where
  "future_catalog = \<lparr>ca_relations = [''durable'' \<mapsto> [''schema_migrations'' \<mapsto> Table schema_migrations_def]],
     ca_versions = (\<lambda>_. [1, 2])\<rparr>"

theorem ApplySchema_all_or_nothing_witness:
  "ApplySchema calm_env demo_engine future_catalog = (Some (UnsupportedSchema 2 1), future_catalog)"
proof -
  obtain r c' where call: "ApplySchema calm_env demo_engine future_catalog = (r, c')" by fastforce
  have "current_version (e_schema demo_engine) future_catalog = Inr 2"
    by (simp add: demo_engine_def future_catalog_def current_version_def history_columns_def table_columns_def
      schema_migrations_def_def required_def defaulted_def)
  with ApplySchema_all_or_nothing [OF call, of 2] show ?thesis by (simp add: call)
qed

section \<open>SchemaSQL\<close>

text \<open>A schema created by running the script of \<open>SchemaSQL\<close> has no migration history, so
  \<open>ApplySchema\<close> takes it for a new one and fails on the first table, on every call.\<close>

theorem SchemaSQL_blocks_ApplySchema:
  assumes "vacant c (e_schema e)" "run_SchemaSQL e c = Inr c1" "calm_schema env"
  shows "ApplySchema env e c1 = (Some (StageFailed (AtApply 1) (DuplicateRelation ''workflow_runs'')), c1)"
proof -
  let ?s = "e_schema e"
  obtain rels rels' where rels: "ca_relations (create_schema_if_not_exists ?s c) ?s = Some rels"
    "run_cmds add_ddl rels (concat migrations) = Inr rels'"
    "c1 = (create_schema_if_not_exists ?s c)\<lparr>ca_relations :=
       (ca_relations (create_schema_if_not_exists ?s c))(?s \<mapsto> rels')\<rparr>"
    using assms(2) unfolding run_SchemaSQL_def exec_script_def by (rule in_schema_Inr)
  have free: "rels ''schema_migrations'' = None" and vs: "ca_versions c1 ?s = []"
    using assms(1) rels(1,3)
    by (auto simp: vacant_def declared_def create_schema_if_not_exists_def split: option.splits)
  have wr: "rels' ''workflow_runs'' = Some (Table workflow_runs_def)"
    using run_add_ddl [OF rels(2)] by (simp add: migrations_def)
  have "rels' ''schema_migrations'' = None"
    using run_add_ddl_other [OF rels(2), of "''schema_migrations''"] free by (simp add: migrations_def)
  then have c2: "create_history_if_not_exists ?s (create_schema_if_not_exists ?s c1)
      = Inr (c1\<lparr>ca_relations := (ca_relations c1)(?s \<mapsto>
          rels'(''schema_migrations'' \<mapsto> Table schema_migrations_def))\<rparr>)" (is "_ = Inr ?c2")
    by (simp add: rels(3) create_history_if_not_exists_def create_schema_if_not_exists_def in_schema_def
      add_relation_def schema_migrations_def_def List.map_filter_simps)
  have v: "current_version ?s ?c2 = Inr 0"
    using vs by (simp add: current_version_def history_columns_def table_columns_def schema_migrations_def_def
      required_def defaulted_def)
  have "exec_script ?s (concat migrations) ?c2 = Inl (DuplicateRelation ''workflow_runs'')"
    by (simp add: exec_script_def in_schema_def migrations_def add_relation_def workflow_runs_def_def
      List.map_filter_simps wr)
  then have "migration_tx env migrations ?s c1 = Inl (StageFailed (AtApply 1) (DuplicateRelation ''workflow_runs''))"
    unfolding migration_tx_def
    by (subst (1 2 3 4) migrations_single) (simp add: assms(3) c2 v)
  then show ?thesis by (simp add: ApplySchema_calm assms(3))
qed

lemma SchemaSQL_installs: "\<exists>c1. run_SchemaSQL e empty_catalog = Inr c1"
  by (simp add: run_SchemaSQL_def create_schema_if_not_exists_def empty_catalog_def exec_script_def in_schema_def
    migrations_def add_relation_def table_columns_def table_defs List.map_filter_simps)

section \<open>The declared constraints and the stored rows\<close>

datatype sql_value = UuidV uuid | TextV string | IntV int | TimeV timestamptz | JsonV json

fun has_type :: "sql_value \<Rightarrow> sql_type \<Rightarrow> bool" where
  "has_type (UuidV _) ty \<longleftrightarrow> ty = UUID"
| "has_type (TextV _) ty \<longleftrightarrow> ty = TEXT"
| "has_type (IntV _) ty \<longleftrightarrow> ty = INTEGER \<or> ty = BIGINT"
| "has_type (TimeV _) ty \<longleftrightarrow> ty = TIMESTAMPTZ"
| "has_type (JsonV _) ty \<longleftrightarrow> ty = JSONB"

text \<open>The stored text of a state.\<close>

primrec state_text :: "RunState \<Rightarrow> string" where
  "state_text RunReady = ''ready''"
| "state_text RunLeased = ''leased''"
| "state_text RunWaitingEvent = ''waiting_event''"
| "state_text RunCompleted = ''completed''"
| "state_text RunFailed = ''failed''"
| "state_text RunCancelled = ''cancelled''"

text \<open>The rows of \<open>Run_Store\<close> in the column order of the migrations; \<^term>\<open>None\<close> is \<open>NULL\<close>.\<close>

definition run_values :: "run_row \<Rightarrow> sql_value option list" where
  "run_values r =
     [Some (UuidV (rid r)), Some (TextV (workflow_name r)), Some (IntV (workflow_version r)),
      Some (TextV (queue r)), Some (TextV (state_text (state r))), Some (IntV (int (step_index r))),
      Some (IntV (attempt r)), Some (IntV (max_attempts r)), Some (IntV (lease_failures r)),
      Some (TimeV (next_run_at r)), map_option UuidV (lease_token r), map_option TimeV (lease_until r),
      map_option TextV (waiting_event_key r), map_option TimeV (waiting_deadline r),
      Some (JsonV (input_json r)), map_option JsonV (output_json r), map_option TextV (dedup_key r),
      map_option TextV (last_error r), Some (TimeV (created_at r)), Some (TimeV (updated_at r))]"

definition checkpoint_values :: "checkpoint_row \<Rightarrow> sql_value option list" where
  "checkpoint_values c =
     [Some (UuidV (cp_run c)), Some (IntV (int (cp_index c))), Some (JsonV (cp_value c)),
      Some (TimeV (cp_completed_at c))]"

definition event_values :: "event_row \<Rightarrow> sql_value option list" where
  "event_values e =
     [Some (IntV (int (ev_id e))), Some (TextV (ev_key e)), Some (JsonV (ev_payload e)),
      Some (TimeV (ev_created_at e)), Some (TimeV (ev_expires_at e))]"

definition cell :: "table_def \<Rightarrow> sql_value option list \<Rightarrow> string \<Rightarrow> sql_value option" where
  "cell td vs c = (case map_of (zip (map co_name (td_columns td)) vs) c of Some v \<Rightarrow> v | None \<Rightarrow> None)"

definition value_fits :: "column \<Rightarrow> sql_value option \<Rightarrow> bool" where
  "value_fits col v = (case v of None \<Rightarrow> \<not> co_not_null col | Some x \<Rightarrow> has_type x (co_type col))"

text \<open>The tables by name: their definitions and their rows.\<close>

type_synonym tables = "(string \<times> table_def \<times> sql_value option list list) list"

definition stored_tables :: "db \<Rightarrow> tables" where
  "stored_tables d =
     [(''workflow_runs'', workflow_runs_def, map run_values (runs d)),
      (''step_checkpoints'', step_checkpoints_def, map checkpoint_values (checkpoints d)),
      (''event_log'', event_log_def, map event_values (events d))]"

definition column_of :: "tables \<Rightarrow> string \<Rightarrow> string \<Rightarrow> sql_value option list" where
  "column_of ts t c = (case map_of ts t of Some (td, rows) \<Rightarrow> map (\<lambda>vs. cell td vs c) rows | None \<Rightarrow> [])"

text \<open>A check is violated by a value that makes it false, not by \<open>NULL\<close>.\<close>

fun constraint_holds :: "tables \<Rightarrow> table_def \<Rightarrow> sql_value option list list \<Rightarrow> table_constraint \<Rightarrow> bool" where
  "constraint_holds ts td rows (PrimaryKey cols) \<longleftrightarrow>
     distinct (map (\<lambda>vs. map (cell td vs) cols) rows)
     \<and> list_all (\<lambda>vs. list_all (\<lambda>c. cell td vs c \<noteq> None) cols) rows"
| "constraint_holds ts td rows (CheckPositive col) \<longleftrightarrow>
     list_all (\<lambda>vs. case cell td vs col of Some (IntV i) \<Rightarrow> 0 < i | _ \<Rightarrow> True) rows"
| "constraint_holds ts td rows (CheckIn col texts) \<longleftrightarrow>
     list_all (\<lambda>vs. case cell td vs col of Some (TextV t) \<Rightarrow> t \<in> set texts | _ \<Rightarrow> True) rows"
| "constraint_holds ts td rows (References col t tcol) \<longleftrightarrow>
     list_all (\<lambda>vs. cell td vs col = None \<or> cell td vs col \<in> set (column_of ts t tcol)) rows"

fun filter_holds :: "table_def \<Rightarrow> row_filter \<Rightarrow> sql_value option list \<Rightarrow> bool" where
  "filter_holds td Everywhere vs \<longleftrightarrow> True"
| "filter_holds td (WhereEq col t) vs \<longleftrightarrow> cell td vs col = Some (TextV t)"
| "filter_holds td (WhereNotNull col) vs \<longleftrightarrow> cell td vs col \<noteq> None"

definition index_values :: "table_def \<Rightarrow> index_def \<Rightarrow> sql_value option list \<Rightarrow> sql_value option list" where
  "index_values td ix vs = map (\<lambda>k. cell td vs (key_column k)) (ix_keys ix)"

text \<open>A unique index compares the rows of its filter that have no \<open>NULL\<close> among their keys.\<close>

definition unique_holds :: "table_def \<Rightarrow> sql_value option list list \<Rightarrow> index_def \<Rightarrow> bool" where
  "unique_holds td rows ix \<longleftrightarrow>
     distinct (filter (\<lambda>ks. None \<notin> set ks)
       (map (index_values td ix) (filter (filter_holds td (ix_where ix)) rows)))"

fun relation_holds :: "tables \<Rightarrow> string \<times> relation \<Rightarrow> bool" where
  "relation_holds ts (name, Table td) \<longleftrightarrow>
     (case map_of ts name of
        None \<Rightarrow> True
      | Some (td', rows) \<Rightarrow>
          td' = td \<and> list_all (list_all2 value_fits (td_columns td)) rows
          \<and> list_all (constraint_holds ts td rows) (td_constraints td))"
| "relation_holds ts (name, Index ix) \<longleftrightarrow>
     (ix_unique ix \<longrightarrow> (case map_of ts (ix_table ix) of None \<Rightarrow> False | Some (td, rows) \<Rightarrow> unique_holds td rows ix))"

lemma run_cells:
  "cell workflow_runs_def (run_values r) ''id'' = Some (UuidV (rid r))"
  "cell workflow_runs_def (run_values r) ''workflow_name'' = Some (TextV (workflow_name r))"
  "cell workflow_runs_def (run_values r) ''workflow_version'' = Some (IntV (workflow_version r))"
  "cell workflow_runs_def (run_values r) ''state'' = Some (TextV (state_text (state r)))"
  "cell workflow_runs_def (run_values r) ''max_attempts'' = Some (IntV (max_attempts r))"
  "cell workflow_runs_def (run_values r) ''dedup_key'' = map_option TextV (dedup_key r)"
  by (simp_all add: cell_def run_values_def workflow_runs_def_def required_def nullable_def defaulted_def)

lemma checkpoint_cells:
  "cell step_checkpoints_def (checkpoint_values c) ''run_id'' = Some (UuidV (cp_run c))"
  "cell step_checkpoints_def (checkpoint_values c) ''step_index'' = Some (IntV (int (cp_index c)))"
  by (simp_all add: cell_def checkpoint_values_def step_checkpoints_def_def required_def defaulted_def)

lemma event_cells: "cell event_log_def (event_values e) ''id'' = Some (IntV (int (ev_id e)))"
  by (simp add: cell_def event_values_def event_log_def_def required_def defaulted_def)

lemma run_fits: "list_all2 value_fits (td_columns workflow_runs_def) (run_values r)"
  by (simp add: workflow_runs_def_def run_values_def value_fits_def required_def nullable_def defaulted_def
    option.case_eq_if map_option_case)

lemma checkpoint_fits: "list_all2 value_fits (td_columns step_checkpoints_def) (checkpoint_values c)"
  by (simp add: step_checkpoints_def_def checkpoint_values_def value_fits_def required_def defaulted_def)

lemma event_fits: "list_all2 value_fits (td_columns event_log_def) (event_values e)"
  by (simp add: event_log_def_def event_values_def value_fits_def required_def defaulted_def)

lemma state_text_listed: "state_text st \<in> set run_states"
  by (cases st) (simp_all add: run_states_def)

lemma runs_table_holds:
  assumes "runs_ok (runs d)"
  shows "relation_holds (stored_tables d) (''workflow_runs'', Table workflow_runs_def)"
proof -
  have ids: "distinct (map (\<lambda>r. [Some (UuidV (rid r))]) (runs d))"
    using assms by (auto simp: runs_ok_def distinct_map inj_on_def)
  have rows: "r \<in> set (runs d) \<Longrightarrow> 0 < workflow_version r \<and> 0 < max_attempts r" for r
    using assms by (auto simp: runs_ok_def row_ok_def)
  have "td_constraints workflow_runs_def =
    [PrimaryKey [''id''], CheckPositive ''workflow_version'', CheckIn ''state'' run_states, CheckPositive ''max_attempts'']"
    by (simp add: workflow_runs_def_def)
  then show ?thesis
    using ids rows
    by (auto simp: stored_tables_def list_all_iff run_fits run_cells state_text_listed comp_def)
qed

lemma checkpoints_table_holds:
  assumes "checkpoints_ok (runs d) (checkpoints d)"
  shows "relation_holds (stored_tables d) (''step_checkpoints'', Table step_checkpoints_def)"
proof -
  have keys: "distinct (map (\<lambda>c. [Some (UuidV (cp_run c)), Some (IntV (int (cp_index c)))]) (checkpoints d))"
    using assms by (auto simp: checkpoints_ok_def distinct_map inj_on_def)
  have refs: "Some (UuidV (cp_run c)) \<in> (\<lambda>r. Some (UuidV (rid r))) ` set (runs d)" if "c \<in> set (checkpoints d)" for c
    using assms that by (auto simp: checkpoints_ok_def image_iff)
  have "td_constraints step_checkpoints_def =
    [References ''run_id'' ''workflow_runs'' ''id'', PrimaryKey [''run_id'', ''step_index'']]"
    by (simp add: step_checkpoints_def_def)
  then show ?thesis
    using keys refs
    by (auto simp: stored_tables_def list_all_iff checkpoint_fits checkpoint_cells comp_def column_of_def run_cells)
qed

lemma events_table_holds:
  assumes "events_ok d"
  shows "relation_holds (stored_tables d) (''event_log'', Table event_log_def)"
proof -
  have "distinct (map (\<lambda>e. [Some (IntV (int (ev_id e)))]) (events d))"
    using assms by (auto simp: events_ok_def distinct_map inj_on_def)
  moreover have "td_constraints event_log_def = [PrimaryKey [''id'']]" by (simp add: event_log_def_def)
  ultimately show ?thesis
    by (auto simp: stored_tables_def list_all_iff event_fits event_cells comp_def)
qed

lemma dedup_index_holds:
  assumes "runs_ok (runs d)"
  shows "relation_holds (stored_tables d) (''workflow_runs_dedup_uidx'', Index dedup_index)"
proof -
  let ?keyed = "filter (\<lambda>r. dedup_key r \<noteq> None) (runs d)"
  have d: "distinct ?keyed" using assms by (auto simp: runs_ok_def distinct_map)
  have inj: "inj_on rid (set (runs d))" using assms by (simp add: runs_ok_def distinct_map)
  have "r = s" if "r \<in> set ?keyed" "s \<in> set ?keyed" "workflow_name r = workflow_name s" "dedup_key r = dedup_key s"
    for r s
  proof -
    from assms have "\<forall>r \<in> set (runs d). \<forall>s \<in> set (runs d).
        dedup_key r \<noteq> None \<and> dedup_key r = dedup_key s \<and> workflow_name r = workflow_name s \<longrightarrow> rid r = rid s"
      unfolding runs_ok_def by (elim conjE)
    moreover have "r \<in> set (runs d)" "s \<in> set (runs d)" "dedup_key r \<noteq> None" using that by simp_all
    ultimately have "rid r = rid s" using that(3,4) by blast
    then show "r = s" by (rule inj_onD [OF inj]) (use that in simp_all)
  qed
  then have "inj_on (\<lambda>r. [Some (TextV (workflow_name r)), map_option TextV (dedup_key r)]) (set ?keyed)"
    by (intro inj_onI) (auto simp: map_option_case split: option.splits)
  then have "distinct (map (\<lambda>r. [Some (TextV (workflow_name r)), map_option TextV (dedup_key r)]) ?keyed)"
    using d by (simp add: distinct_map)
  then show ?thesis
    by (simp add: stored_tables_def unique_holds_def index_values_def dedup_index_def filter_map comp_def run_cells
      distinct_filter)
qed



end
