(* ===== verification/Growth_Bench.thy ===== *)
theory Growth_Bench
  imports Schema_Migration "HOL-Library.Word"
begin

text \<open>
  The model of \<open>cmd/growthbench/main.go\<close>, the program that measures the library on a growing
  database: the parsing of its milestones, the tracer of claim statements and its percentiles,
  the polling loop \<open>await\<close>, the seeding of finished runs, the measurements, the producer, and the
  loop over the milestones.  Statistics of PostgreSQL, the MD5 function
  and query plans come from outside.  The lemmas show that the milestones are parsed exactly,
  that the percentiles are nearest ranks, that the history is seeded exactly once per number,
  and that the final check succeeds only when every enqueued run has completed.
\<close>

section \<open>Milestones\<close>

text \<open>\<open>strings.Split\<close> with a separator of one byte.\<close>

fun split_on :: "char \<Rightarrow> string \<Rightarrow> string list" where
  "split_on sep [] = [[]]"
| "split_on sep (c # s) =
     (if c = sep then [] # split_on sep s
      else (case split_on sep s of p # ps \<Rightarrow> (c # p) # ps | [] \<Rightarrow> [[c]]))"

text \<open>\<open>strconv.Atoi\<close> where \<open>int\<close> has 64 bits.\<close>

definition digit_value :: "char \<Rightarrow> nat option" where
  "digit_value c = (if in_range 48 57 c then Some (byte c - 48) else None)"

fun digits_value :: "nat \<Rightarrow> string \<Rightarrow> nat option" where
  "digits_value acc [] = Some acc"
| "digits_value acc (c # s) =
     (case digit_value c of None \<Rightarrow> None | Some v \<Rightarrow> digits_value (10 * acc + v) s)"

definition unsigned :: "string \<Rightarrow> nat option" where
  "unsigned s = (if s = [] then None else digits_value 0 s)"

definition in_int64 :: "int \<Rightarrow> int option" where
  "in_int64 n = (if - (2 ^ 63) \<le> n \<and> n < 2 ^ 63 then Some n else None)"

definition Atoi :: "string \<Rightarrow> int option" where
  "Atoi s =
     (if s \<noteq> [] \<and> hd s = CHR ''-'' then Option.bind (unsigned (tl s)) (\<lambda>n. in_int64 (- int n))
      else if s \<noteq> [] \<and> hd s = CHR ''+'' then Option.bind (unsigned (tl s)) (\<lambda>n. in_int64 (int n))
      else Option.bind (unsigned s) (\<lambda>n. in_int64 (int n)))"

datatype bench_error =
    NotIncreasing string
  | TooFewMilestones
  | BadFlags
  | OldServer int
  | SchemaExists
  | NewFailed new_error
  | SchemaFailed schema_error
  | RegisterPanicked register_panic
  | QueryFailed pg_error
  | EnqueueFailed api_error
  | ProbeFailed string
  | PlanCount nat
  | StateChanged int
  | FailedRuns nat
  | WaitExpired string
  | WorkerFailed string

fun parse_parts :: "string list \<Rightarrow> int list \<Rightarrow> int list option" where
  "parse_parts [] targets = Some targets"
| "parse_parts (part # parts) targets =
     (case Atoi (TrimSpace part) of
        None \<Rightarrow> None
      | Some n \<Rightarrow>
          if n < 0 \<or> (targets \<noteq> [] \<and> n \<le> last targets) then None
          else parse_parts parts (targets @ [n]))"

definition parseHistory :: "string \<Rightarrow> bench_error + int list" where
  "parseHistory s =
     (case parse_parts (split_on (CHR '','') s) [] of
        None \<Rightarrow> Inl (NotIncreasing s)
      | Some targets \<Rightarrow>
          if length targets < 2 \<or> hd targets \<noteq> 0 then Inl TooFewMilestones else Inr targets)"

section \<open>The claim tracer\<close>

record queryStart =
  qs_at :: gotime
  qs_stage :: int

record claimTrace =
  ct_stage :: int
  ct_byStage :: "int \<rightharpoonup> duration list"

datatype query_arg = TextArg string | OtherArg

text \<open>The value under \<open>traceKey\<close> in the context is the state of the two functions.\<close>

definition TraceQueryStart ::
  "claimTrace \<Rightarrow> string \<Rightarrow> query_arg list \<Rightarrow> gotime \<Rightarrow> queryStart option \<Rightarrow> queryStart option" where
  "TraceQueryStart t sql args now ctx =
     (if \<not> sublist ''WITH picked AS'' sql \<or> \<not> sublist ''RETURNING wr.id'' sql \<or> args = [] \<or> hd args \<noteq> TextArg ''short''
      then ctx
      else Some \<lparr>qs_at = now, qs_stage = ct_stage t\<rparr>)"

definition TraceQueryEnd :: "claimTrace \<Rightarrow> bool \<Rightarrow> int \<Rightarrow> gotime \<Rightarrow> queryStart option \<Rightarrow> claimTrace" where
  "TraceQueryEnd t failed rows now ctx =
     (case ctx of
        None \<Rightarrow> t
      | Some start \<Rightarrow>
          if qs_stage start < 0 \<or> failed \<or> rows = 0 then t
          else t\<lparr>ct_byStage := (ct_byStage t)(qs_stage start \<mapsto>
                   (case ct_byStage t (qs_stage start) of None \<Rightarrow> [] | Some ds \<Rightarrow> ds) @ [now - qs_at start])\<rparr>)"

definition samples :: "claimTrace \<Rightarrow> int \<Rightarrow> duration list" where
  "samples t stage = (case ct_byStage t stage of None \<Rightarrow> [] | Some ds \<Rightarrow> ds)"

definition percentiles :: "claimTrace \<Rightarrow> int \<Rightarrow> nat \<times> duration \<times> duration \<times> duration" where
  "percentiles t stage =
     (let durations = sort (samples t stage); n = length durations in
      if n = 0 then (0, 0, 0, 0)
      else (n, durations ! (n div 2), durations ! ((95 * n + 99) div 100 - 1),
            durations ! ((99 * n + 99) div 100 - 1)))"

section \<open>Waiting\<close>

text \<open>
  \<open>await\<close>: \<open>check i\<close> is what the \<open>i\<close>-th call of the condition returns and \<open>expired i\<close> says
  whether the following \<open>select\<close> takes the branch of the context.  The value \<^term>\<open>None\<close> stands for a loop
  that never returns.
\<close>

partial_function (option) await :: "string \<Rightarrow> (nat \<Rightarrow> bench_error + bool) \<Rightarrow> (nat \<Rightarrow> bool) \<Rightarrow> nat \<Rightarrow> bench_error option option" where
  "await label check expired i =
     (case check i of
        Inl err \<Rightarrow> Some (Some err)
      | Inr ok \<Rightarrow>
          if ok then Some None
          else if expired i then Some (Some (WaitExpired label))
          else await label check expired (Suc i))"

section \<open>Measurements\<close>

text \<open>Floating-point statistics are only passed on: a \<open>float64\<close> is its 64 bits.\<close>

type_synonym float64 = "64 word"

record plan =
  pl_SharedHit :: int
  pl_SharedRead :: int
  pl_ExecutionMS :: float64

definition zero_plan :: plan where
  "zero_plan = \<lparr>pl_SharedHit = 0, pl_SharedRead = 0, pl_ExecutionMS = 0\<rparr>"

text \<open>\<open>unmarshal\<close> is \<open>json.Unmarshal\<close> of the plans of one \<open>EXPLAIN\<close>.\<close>

definition explain :: "('raw \<Rightarrow> string + plan list) \<Rightarrow> pg_error + 'raw \<Rightarrow> plan \<times> bench_error option" where
  "explain unmarshal q =
     (case q of
        Inl err \<Rightarrow> (zero_plan, Some (QueryFailed err))
      | Inr raw \<Rightarrow>
          (case unmarshal raw of
             Inl m \<Rightarrow> (zero_plan, Some (ProbeFailed m))
           | Inr plans \<Rightarrow>
               if length plans \<noteq> 1 then (zero_plan, Some (PlanCount (length plans))) else (hd plans, None)))"

record measurement =
  m_Live :: int
  m_DeadEstimate :: int
  m_Updates :: int
  m_HOT :: int
  m_AutoCount :: int
  m_HeapBytes :: int
  m_IndexBytes :: int
  m_HeapDead :: int
  m_LeaseDead :: int
  m_LeaseBytes :: int
  m_AutoMS :: float64
  m_WALBytes :: float64
  m_AutoReadBytes :: float64
  m_AutoWriteBytes :: float64
  m_ShortCompleted :: nat
  m_ShortFailed :: nat
  m_LongLeased :: nat
  m_LongCompleted :: nat
  m_Claim :: plan
  m_Recovery :: plan

definition zero_measurement :: measurement where
  "zero_measurement =
     \<lparr>m_Live = 0, m_DeadEstimate = 0, m_Updates = 0, m_HOT = 0, m_AutoCount = 0, m_HeapBytes = 0, m_IndexBytes = 0,
      m_HeapDead = 0, m_LeaseDead = 0, m_LeaseBytes = 0, m_AutoMS = 0, m_WALBytes = 0, m_AutoReadBytes = 0,
      m_AutoWriteBytes = 0, m_ShortCompleted = 0, m_ShortFailed = 0, m_LongLeased = 0, m_LongCompleted = 0,
      m_Claim = zero_plan, m_Recovery = zero_plan\<rparr>"

definition count_runs :: "string \<Rightarrow> RunState \<Rightarrow> db \<Rightarrow> nat" where
  "count_runs name st d = count_where (\<lambda>r. workflow_name r = name \<and> state r = st) (runs d)"

text \<open>What the queries on the statistics of PostgreSQL return.\<close>

record 'raw measure_env =
  me_stats :: "pg_error + int \<times> int \<times> int \<times> int \<times> int \<times> float64 \<times> int \<times> int"
  me_heap :: "pg_error + int"
  me_lease :: "pg_error + int \<times> int"
  me_wal :: "pg_error + float64"
  me_io :: "pg_error + float64 \<times> float64"
  me_counts :: fault
  me_claim :: "pg_error + 'raw"
  me_recovery :: "pg_error + 'raw"

definition measure_plans ::
  "('raw \<Rightarrow> string + plan list) \<Rightarrow> 'raw measure_env \<Rightarrow> measurement \<Rightarrow> measurement \<times> bench_error option" where
  "measure_plans unmarshal env m =
     (case explain unmarshal (me_claim env) of
        (p, Some err) \<Rightarrow> (m\<lparr>m_Claim := p\<rparr>, Some err)
      | (p, None) \<Rightarrow>
          (case explain unmarshal (me_recovery env) of
             (q, err) \<Rightarrow> (m\<lparr>m_Claim := p, m_Recovery := q\<rparr>, err)))"

definition measure_counts :: "'raw measure_env \<Rightarrow> db \<Rightarrow> measurement \<Rightarrow> measurement \<times> bench_error option" where
  "measure_counts env d m =
     (case exec (me_counts env)
        (\<lambda>d. Inr ((count_runs ''short'' RunCompleted d, count_runs ''short'' RunFailed d,
                  count_runs ''long'' RunLeased d, count_runs ''long'' RunCompleted d), d)) d of
        (Inl err, _) \<Rightarrow> (m, Some (QueryFailed err))
      | (Inr (sc, sf, ll, lc), _) \<Rightarrow>
          (m\<lparr>m_ShortCompleted := sc, m_ShortFailed := sf, m_LongLeased := ll, m_LongCompleted := lc\<rparr>, None))"

definition measure_stats :: "'raw measure_env \<Rightarrow> measurement \<Rightarrow> measurement \<times> bench_error option" where
  "measure_stats env m0 =
     (case me_stats env of
        Inl err \<Rightarrow> (m0, Some (QueryFailed err))
      | Inr (live, dead, updates, hot, autocount, automs, heap, index) \<Rightarrow>
     (let m1 = m0\<lparr>m_Live := live, m_DeadEstimate := dead, m_Updates := updates, m_HOT := hot, m_AutoCount := autocount,
                 m_AutoMS := automs, m_HeapBytes := heap, m_IndexBytes := index\<rparr> in
      case me_heap env of
        Inl err \<Rightarrow> (m1, Some (QueryFailed err))
      | Inr heapdead \<Rightarrow>
     (let m2 = m1\<lparr>m_HeapDead := heapdead\<rparr> in
      case me_lease env of
        Inl err \<Rightarrow> (m2, Some (QueryFailed err))
      | Inr (leasedead, leasebytes) \<Rightarrow>
     (let m3 = m2\<lparr>m_LeaseDead := leasedead, m_LeaseBytes := leasebytes\<rparr> in
      case me_wal env of
        Inl err \<Rightarrow> (m3, Some (QueryFailed err))
      | Inr wal \<Rightarrow>
     (let m4 = m3\<lparr>m_WALBytes := wal\<rparr> in
      case me_io env of
        Inl err \<Rightarrow> (m4, Some (QueryFailed err))
      | Inr (rd, wr) \<Rightarrow> (m4\<lparr>m_AutoReadBytes := rd, m_AutoWriteBytes := wr\<rparr>, None))))))"

definition measure_db ::
  "('raw \<Rightarrow> string + plan list) \<Rightarrow> 'raw measure_env \<Rightarrow> db \<Rightarrow> measurement \<times> bench_error option" where
  "measure_db unmarshal env d =
     (case measure_stats env zero_measurement of
        (m, Some err) \<Rightarrow> (m, Some err)
      | (m, None) \<Rightarrow>
          (case measure_counts env d m of
             (m', Some err) \<Rightarrow> (m', Some err)
           | (m', None) \<Rightarrow> measure_plans unmarshal env m'))"

section \<open>Seeding\<close>

definition int_text :: "int \<Rightarrow> string" where
  "int_text g = (if g < 0 then CHR ''-'' # itoa (nat (- g)) else itoa (nat g))"

definition history_id :: "(string \<Rightarrow> uuid) \<Rightarrow> int \<Rightarrow> uuid" where
  "history_id md5 g = md5 (''history-'' @ int_text g)"

definition history_row :: "(string \<Rightarrow> uuid) \<Rightarrow> timestamptz \<Rightarrow> int \<Rightarrow> run_row" where
  "history_row md5 now g =
     \<lparr>rid = history_id md5 g, workflow_name = ''history'', workflow_version = 1, queue = ''short'',
      state = RunCompleted, step_index = 1, attempt = 0, max_attempts = 25, lease_failures = 0, next_run_at = now,
      lease_token = None, lease_until = None, waiting_event_key = None, waiting_deadline = None,
      input_json = JObj [], output_json = Some (JBool True), dedup_key = Some (''dedup-'' @ int_text g),
      last_error = None, created_at = now, updated_at = now\<rparr>"

definition probe_row :: "(string \<Rightarrow> uuid) \<Rightarrow> timestamptz \<Rightarrow> int \<Rightarrow> run_row" where
  "probe_row md5 now g =
     \<lparr>rid = md5 (''probe-'' @ int_text g), workflow_name = ''probe'', workflow_version = 1, queue = ''probe'',
      state = RunReady, step_index = 0, attempt = 0, max_attempts = 25, lease_failures = 0,
      next_run_at = now - 60000000, lease_token = None, lease_until = None, waiting_event_key = None,
      waiting_deadline = None, input_json = JObj [], output_json = None, dedup_key = None, last_error = None,
      created_at = now, updated_at = now\<rparr>"

text \<open>An \<open>INSERT\<close> of several runs, all or none.\<close>

definition dedup_keys :: "run_row list \<Rightarrow> (string \<times> string) list" where
  "dedup_keys rs = List.map_filter (\<lambda>r. map_option (\<lambda>k. (workflow_name r, k)) (dedup_key r)) rs"

definition insert_runs :: "run_row list \<Rightarrow> unit stmt" where
  "insert_runs rows d =
     (if distinct (map rid (runs d @ rows)) \<and> distinct (dedup_keys (runs d @ rows))
      then Inr ((), d\<lparr>runs := runs d @ rows\<rparr>)
      else Inl UniqueViolation)"

definition insert_checkpoints :: "checkpoint_row list \<Rightarrow> unit stmt" where
  "insert_checkpoints cps d =
     (if \<not> distinct (map cp_key (checkpoints d @ cps)) then Inl UniqueViolation
      else if \<not> cp_run ` set cps \<subseteq> rid ` set (runs d) then Inl ForeignKeyViolation
      else Inr ((), d\<lparr>checkpoints := checkpoints d @ cps\<rparr>))"

definition insert_history :: "(string \<Rightarrow> uuid) \<Rightarrow> timestamptz \<Rightarrow> int \<Rightarrow> int \<Rightarrow> unit stmt" where
  "insert_history md5 now first to d =
     (if \<not> int4_ok first \<or> \<not> int4_ok to then Inl NumericOutOfRange
      else insert_runs (map (history_row md5 now) [first..to]) d)"

definition history_checkpoint :: "(string \<Rightarrow> uuid) \<Rightarrow> timestamptz \<Rightarrow> int \<Rightarrow> checkpoint_row" where
  "history_checkpoint md5 now g =
     \<lparr>cp_run = history_id md5 g, cp_index = 0, cp_value = JBool True, cp_completed_at = now\<rparr>"

definition insert_history_checkpoints :: "(string \<Rightarrow> uuid) \<Rightarrow> timestamptz \<Rightarrow> int \<Rightarrow> int \<Rightarrow> unit stmt" where
  "insert_history_checkpoints md5 now first to d =
     (if \<not> int4_ok first \<or> \<not> int4_ok to then Inl NumericOutOfRange
      else insert_checkpoints (map (history_checkpoint md5 now) [first..to]) d)"

definition insert_probes :: "(string \<Rightarrow> uuid) \<Rightarrow> timestamptz \<Rightarrow> unit stmt" where
  "insert_probes md5 now = insert_runs (map (probe_row md5 now) [1..16])"

text \<open>The surroundings of one statement: what others do before it, its clock and its fault.\<close>

record seed_env =
  sd_others :: "db \<Rightarrow> db"
  sd_now :: timestamptz
  sd_fault :: fault

definition seed_exec :: "seed_env \<Rightarrow> (timestamptz \<Rightarrow> unit stmt) \<Rightarrow> db \<Rightarrow> bench_error option \<times> db" where
  "seed_exec env stmt d =
     (case exec (sd_fault env) (stmt (sd_now env)) (sd_others env d) of
        (Inl err, d') \<Rightarrow> (Some (QueryFailed err), d')
      | (Inr _, d') \<Rightarrow> (None, d'))"

text \<open>One round of the loop; the statements are numbered from \<open>k\<close>.\<close>

definition seed_batch ::
  "(string \<Rightarrow> uuid) \<Rightarrow> (nat \<Rightarrow> seed_env) \<Rightarrow> nat \<Rightarrow> int \<Rightarrow> int \<Rightarrow> db \<Rightarrow> bench_error option \<times> db" where
  "seed_batch md5 env k first to d =
     (case seed_exec (env k) (\<lambda>now. insert_history md5 now first to) d of
        (Some err, d1) \<Rightarrow> (Some err, d1)
      | (None, d1) \<Rightarrow> seed_exec (env (k + 1)) (\<lambda>now. insert_history_checkpoints md5 now first to) d1)"

text \<open>\<open>ANALYZE\<close> changes no row.\<close>

function seedHistory ::
  "(string \<Rightarrow> uuid) \<Rightarrow> (nat \<Rightarrow> seed_env) \<Rightarrow> nat \<Rightarrow> int \<Rightarrow> int \<Rightarrow> db \<Rightarrow> bench_error option \<times> db" where
  "seedHistory md5 env k first to d =
     (if to < first then seed_exec (env k) (\<lambda>now d. Inr ((), d)) d
      else
        (case seed_batch md5 env k first (min (first + 99999) to) d of
           (Some err, d1) \<Rightarrow> (Some err, d1)
         | (None, d1) \<Rightarrow> seedHistory md5 env (k + 2) (first + 100000) to d1))"
  by pat_completeness auto
termination by (relation "measure (\<lambda>(md5, env, k, first, to, d). nat (to + 1 - first))") auto

declare seedHistory.simps [simp del]

section \<open>The benchmark\<close>

text \<open>One call of \<open>Run\<close> per element: the loop over the long runs, and the ticks of the producer
  until it is stopped.  The counter is the number of calls that returned without error.\<close>

record bench_tick =
  bt_others :: "db \<Rightarrow> db"
  bt_fault :: fault
  bt_now :: timestamptz
  bt_order :: "workflowKey list"
  bt_fresh :: string

fun producer :: "pg \<Rightarrow> Engine \<Rightarrow> string \<Rightarrow> bench_tick list \<Rightarrow> nat \<Rightarrow> db \<Rightarrow> bench_error option \<times> nat \<times> db" where
  "producer pg e name [] enqueued d = (None, enqueued, d)"
| "producer pg e name (t # ts) enqueued d =
     (case Run pg (bt_fault t) (bt_now t) (bt_order t) (bt_fresh t) e name (Marshalled JNull) [] (bt_others t d) of
        (Inl err, d') \<Rightarrow> (Some (EnqueueFailed err), enqueued, d')
      | (Inr _, d') \<Rightarrow> producer pg e name ts (enqueued + 1) d')"

record 'raw stage_env =
  sv_seed :: "nat \<Rightarrow> seed_env"
  sv_others :: "db \<Rightarrow> db"
  sv_measure :: "'raw measure_env"

text \<open>The loop over the milestones, with the measurements it prints.\<close>

fun stage_loop ::
  "int \<Rightarrow> (string \<Rightarrow> uuid) \<Rightarrow> ('raw \<Rightarrow> string + plan list) \<Rightarrow> (nat \<Rightarrow> 'raw stage_env) \<Rightarrow> nat \<Rightarrow> int list \<Rightarrow> int \<Rightarrow> db
   \<Rightarrow> bench_error option \<times> measurement list \<times> db" where
  "stage_loop active md5 unmarshal env stage [] previous d = (None, [], d)"
| "stage_loop active md5 unmarshal env stage (target # targets) previous d =
     (case (if previous < target then seedHistory md5 (sv_seed (env stage)) 0 (previous + 1) target d else (None, d)) of
        (Some err, d1) \<Rightarrow> (Some err, [], d1)
      | (None, d1) \<Rightarrow>
          (let d2 = sv_others (env stage) d1 in
           case measure_db unmarshal (sv_measure (env stage)) d2 of
             (m, Some err) \<Rightarrow> (Some err, [], d2)
           | (m, None) \<Rightarrow>
               if m_ShortFailed m \<noteq> 0 \<or> int (m_LongLeased m) \<noteq> active \<or> m_LongCompleted m \<noteq> 0
               then (Some (StateChanged target), [m], d2)
               else (case stage_loop active md5 unmarshal env (stage + 1) targets target d2 of
                       (r, ms, d3) \<Rightarrow> (r, m # ms, d3))))"

text \<open>The condition of the last \<open>await\<close>.\<close>

definition finish_check :: "fault \<Rightarrow> int \<Rightarrow> nat \<Rightarrow> db \<Rightarrow> bench_error + bool" where
  "finish_check f active enqueued d =
     (case exec f (\<lambda>d. Inr ((count_runs ''short'' RunCompleted d, count_runs ''long'' RunCompleted d,
                            count_runs ''short'' RunFailed d + count_runs ''long'' RunFailed d), d)) d of
        (Inl err, _) \<Rightarrow> Inl (QueryFailed err)
      | (Inr (shortDone, longDone, failed), _) \<Rightarrow>
          if 0 < failed then Inl (FailedRuns failed)
          else Inr (shortDone = enqueued \<and> int longDone = active))"

section \<open>Facts about the milestones\<close>

definition latest :: "int list \<Rightarrow> int list" where
  "latest targets = (if targets = [] then [] else [last targets])"

lemma parse_parts_exact:
  "parse_parts parts targets = Some result \<longleftrightarrow>
   (\<exists>ns. map (\<lambda>p. Atoi (TrimSpace p)) parts = map Some ns \<and> result = targets @ ns
      \<and> sorted_wrt (<) (latest targets @ ns) \<and> (\<forall>n \<in> set ns. 0 \<le> n))"
proof (induction parts arbitrary: targets)
  case Nil
  show ?case by (auto simp: latest_def)
next
  case (Cons p parts)
  show ?case
  proof (cases "Atoi (TrimSpace p)")
    case None
    then show ?thesis by auto
  next
    case (Some n)
    show ?thesis
    proof (cases "n < 0 \<or> (targets \<noteq> [] \<and> n \<le> last targets)")
      case True
      then have "parse_parts (p # parts) targets = None" using Some by simp
      moreover have False
        if "map (\<lambda>p. Atoi (TrimSpace p)) (p # parts) = map Some ns" "\<forall>n \<in> set ns. 0 \<le> n"
          "sorted_wrt (<) (latest targets @ ns)" for ns
        using that True Some by (cases ns) (auto simp: latest_def split: if_splits)
      ultimately show ?thesis by (metis option.distinct(1))
    next
      case False
      have "parse_parts (p # parts) targets = Some result \<longleftrightarrow>
        (\<exists>ns. map (\<lambda>p. Atoi (TrimSpace p)) parts = map Some ns \<and> result = (targets @ [n]) @ ns
          \<and> sorted_wrt (<) ([n] @ ns) \<and> (\<forall>n \<in> set ns. 0 \<le> n))"
        proof -
        have "parse_parts (p # parts) targets = parse_parts parts (targets @ [n])"
          using Some False by (simp only: parse_parts.simps option.simps if_False)
        moreover have "latest (targets @ [n]) = [n]" by (simp add: latest_def)
        ultimately show ?thesis by (simp only: Cons.IH [of "targets @ [n]"])
      qed
      also have "\<dots> \<longleftrightarrow> (\<exists>ns. map (\<lambda>p. Atoi (TrimSpace p)) (p # parts) = map Some ns \<and> result = targets @ ns
          \<and> sorted_wrt (<) (latest targets @ ns) \<and> (\<forall>n \<in> set ns. 0 \<le> n))" (is "?L \<longleftrightarrow> ?R")
      proof
        assume ?L
        then obtain ns where "map (\<lambda>p. Atoi (TrimSpace p)) parts = map Some ns" "result = (targets @ [n]) @ ns"
          "sorted_wrt (<) ([n] @ ns)" "\<forall>n \<in> set ns. 0 \<le> n" by blast
        then show ?R using Some False by (intro exI [of _ "n # ns"]) (auto simp: latest_def)
      next
        assume ?R
        then obtain ms where ms: "map (\<lambda>p. Atoi (TrimSpace p)) (p # parts) = map Some ms" "result = targets @ ms"
          "sorted_wrt (<) (latest targets @ ms)" "\<forall>n \<in> set ms. 0 \<le> n" by blast
        then obtain ns where "ms = n # ns" using Some by (cases ms) auto
        with ms show ?L by (intro exI [of _ ns]) (auto simp: sorted_wrt_append)
      qed
      finally show ?thesis .
    qed
  qed
qed

text \<open>The accepted inputs and their values, exactly.\<close>

lemma parseHistory_exact:
  "parseHistory s = Inr targets \<longleftrightarrow>
     map (\<lambda>p. Atoi (TrimSpace p)) (split_on (CHR '','') s) = map Some targets
   \<and> sorted_wrt (<) targets \<and> 2 \<le> length targets \<and> hd targets = 0"
proof -
  have nonneg: "\<forall>n \<in> set targets. 0 \<le> n" if "sorted_wrt (<) targets" "2 \<le> length targets" "hd targets = (0::int)"
    using that by (cases targets) auto
  have "parseHistory s = Inr targets \<longleftrightarrow>
      parse_parts (split_on (CHR '','') s) [] = Some targets \<and> 2 \<le> length targets \<and> hd targets = 0"
    by (auto simp: parseHistory_def split: option.splits)
  then show ?thesis using nonneg by (auto simp: parse_parts_exact latest_def)
qed

lemma digit_value_digit: "n < 10 \<Longrightarrow> digit_value (digit n) = Some n"
  by (simp add: less_eq_Suc_le eval_nat_numeral le_Suc_eq)
    (elim disjE; simp add: digit_value_def digit_def in_range_def)

lemma digits_value_append:
  "digits_value acc (s @ t) = Option.bind (digits_value acc s) (\<lambda>v. digits_value v t)"
  by (induction s arbitrary: acc) (auto split: option.splits)

lemma digits_value_itoa: "digits_value 0 (itoa n) = Some n"
proof (induction n rule: itoa.induct)
  case (1 n)
  then show ?case
    by (subst itoa.simps) (auto simp: digits_value_append digit_value_digit)
qed

lemma itoa_no: "c \<notin> set ''0123456789'' \<Longrightarrow> c \<notin> set (itoa n)"
  using itoa_digits by blast

lemma Atoi_itoa: "int n < 2 ^ 63 \<Longrightarrow> Atoi (itoa n) = Some (int n)"
proof -
  assume "int n < 2 ^ 63"
  moreover have "hd (itoa n) \<in> set (itoa n)" by simp
  then have "hd (itoa n) \<noteq> CHR ''-''" "hd (itoa n) \<noteq> CHR ''+''"
    using itoa_no [of "CHR ''-''" n] itoa_no [of "CHR ''+''" n] by force+
  ultimately show ?thesis
    by (simp add: Atoi_def unsigned_def digits_value_itoa in_int64_def)
qed

lemma TrimSpace_itoa: "TrimSpace (itoa n) = itoa n"
proof -
  have sp: "e \<noteq> [] \<and> hd e \<notin> set ''0123456789'' \<and> last e \<notin> set ''0123456789''" if "e \<in> set space_runes" for e
    using that by (auto simp: space_runes_def)
  have "\<not> prefix e (itoa n)" if "e \<in> set space_runes" for e
  proof
    assume "prefix e (itoa n)"
    then have "hd e \<in> set (itoa n)" using sp [OF that] by (auto simp: prefix_def)
    then show False using sp [OF that] itoa_digits by blast
  qed
  moreover have "\<not> suffix e (itoa n)" if "e \<in> set space_runes" for e
  proof
    assume "suffix e (itoa n)"
    then have "last e \<in> set (itoa n)" using sp [OF that] by (auto simp: suffix_def)
    then show False using sp [OF that] itoa_digits by blast
  qed
  ultimately show ?thesis by (simp add: TrimSpace_def trim_left_stop trim_right_stop)
qed

fun join_commas :: "string list \<Rightarrow> string" where
  "join_commas [] = []"
| "join_commas [p] = p"
| "join_commas (p # q # ps) = p @ '','' @ join_commas (q # ps)"

lemma split_on_not_Nil [simp]: "split_on sep s \<noteq> []"
  by (induction s) (auto split: list.splits)

lemma split_on_plain: "sep \<notin> set p \<Longrightarrow> split_on sep p = [p]"
  by (induction p) auto

lemma split_on_append: "sep \<notin> set p \<Longrightarrow> split_on sep (p @ sep # s) = p # split_on sep s"
  by (induction p) (auto split: list.splits)

lemma split_join:
  "ps \<noteq> [] \<Longrightarrow> (\<And>p. p \<in> set ps \<Longrightarrow> CHR '','' \<notin> set p) \<Longrightarrow> split_on (CHR '','') (join_commas ps) = ps"
  by (induction ps rule: join_commas.induct) (auto simp: split_on_plain split_on_append)

text \<open>The milestones of the benchmark are parsed exactly: the decimal numbers, separated by
  commas, come back as the list of targets when they increase strictly, start at zero and are
  at least two; every other list of numbers is refused.\<close>

theorem parseHistory_roundtrip:
  assumes "\<forall>n \<in> set ns. int n < 2 ^ 63"
  shows "parseHistory (join_commas (map itoa ns)) =
    (if sorted_wrt (<) ns \<and> 2 \<le> length ns \<and> hd ns = 0 then Inr (map int ns)
     else if sorted_wrt (<) ns \<and> ns \<noteq> [] then Inl TooFewMilestones
     else Inl (NotIncreasing (join_commas (map itoa ns))))"
proof (cases "ns = []")
  case True
  then show ?thesis by (simp add: parseHistory_def Atoi_def unsigned_def TrimSpace_def trim_left_stop trim_right_stop
    space_runes_def)
next
  case False
  let ?parts = "split_on (CHR '','') (join_commas (map itoa ns))"
  have parts: "?parts = map itoa ns"
    using False itoa_no [of "CHR '',''"] by (intro split_join) auto
  have vals: "map (\<lambda>p. Atoi (TrimSpace p)) ?parts = map Some (map int ns)"
    using assms by (auto simp: parts TrimSpace_itoa Atoi_itoa)
  have same: "map Some (map int ns) = map Some ms \<longleftrightarrow> ms = map int ns" for ms
    by (metis (no_types, lifting) inj_Some map_injective)
  have "parse_parts ?parts [] = Some result \<longleftrightarrow> result = map int ns \<and> sorted_wrt (<) ns" for result
    unfolding parse_parts_exact vals same by (auto simp: sorted_wrt_map latest_def)
  then have "parse_parts ?parts [] = (if sorted_wrt (<) ns then Some (map int ns) else None)"
    by (metis (mono_tags, lifting) not_None_eq)
  then show ?thesis using False by (auto simp: parseHistory_def hd_map)
qed

theorem parseHistory_roundtrip_witness:
  "parseHistory ''0,100000,300000'' = Inr [0, 100000, 300000]"
proof -
  have "join_commas (map itoa [0, 100000, 300000]) = ''0,100000,300000''"
    by (simp add: itoa.simps digit_def)
  with parseHistory_roundtrip [of "[0, 100000, 300000]"] show ?thesis by simp
qed

section \<open>Facts about the percentiles\<close>

lemma sorted_rank:
  fixes xs :: "'a::linorder list"
  assumes "sorted xs" "i < length xs"
  shows "Suc i \<le> length (filter (\<lambda>x. x \<le> xs ! i) xs)" "length (filter (\<lambda>x. x < xs ! i) xs) \<le> i"
proof -
  have "x \<le> xs ! i" if "x \<in> set (take (Suc i) xs)" for x
    using that assms sorted_nth_mono [OF assms(1) _ assms(2)] by (auto simp: in_set_conv_nth less_Suc_eq_le)
  then have "length (filter (\<lambda>x. x \<le> xs ! i) (take (Suc i) xs)) = Suc i"
    using assms(2) by (simp add: filter_True)
  then show "Suc i \<le> length (filter (\<lambda>x. x \<le> xs ! i) xs)"
    by (metis append_take_drop_id filter_append length_append le_add1)
  have "xs ! i \<le> x" if x: "x \<in> set (drop i xs)" for x
  proof -
    from x obtain k where "k < length xs - i" "x = xs ! (i + k)" by (auto simp: in_set_conv_nth)
    then show ?thesis using sorted_nth_mono [OF assms(1), of i "i + k"] by simp
  qed
  then have "filter (\<lambda>x. x < xs ! i) (drop i xs) = []" by (auto simp: filter_empty_conv not_less)
  then have "filter (\<lambda>x. x < xs ! i) xs = filter (\<lambda>x. x < xs ! i) (take i xs)"
    by (metis append_Nil2 append_take_drop_id filter_append)
  also have "length \<dots> \<le> length (take i xs)" by (rule length_filter_le)
  finally show "length (filter (\<lambda>x. x < xs ! i) xs) \<le> i" by simp
qed

lemma sort_eq_Nil [simp]: "sort xs = [] \<longleftrightarrow> xs = []"
  by (metis length_0_conv length_sort)

lemma length_filter_sort: "length (filter p (sort xs)) = length (filter p xs)"
  by (simp add: filter_sort)

text \<open>The nearest rank of a percentage: the value at \<open>\<lceil>p n / 100\<rceil>\<close> from below.\<close>

lemma nearest_rank:
  fixes xs :: "'a::linorder list"
  assumes "xs \<noteq> []" "0 < p" "p \<le> 100" "i = (p * length xs + 99) div 100 - 1"
  shows "i < length xs" "p * length xs \<le> 100 * length (filter (\<lambda>x. x \<le> sort xs ! i) xs)"
    "100 * length (filter (\<lambda>x. x < sort xs ! i) xs) < p * length xs"
proof -
  obtain q where q: "q = p * length xs" by blast
  have "0 < length xs" using assms(1) by simp
  then have pn: "0 < q" "q \<le> 100 * length xs" using assms(2,3) by (auto simp: q)
  have iq: "i = (q + 99) div 100 - 1" using assms(4) by (simp add: q)
  have dm: "100 * ((q + 99) div 100) + (q + 99) mod 100 = q + 99" "(q + 99) mod 100 < 100" by simp_all
  have si: "(q + 99) div 100 = Suc i" using dm pn iq by linarith
  obtain m where m: "100 * Suc i + m = q + 99" "m < 100" using dm unfolding si by blast
  then have hi: "q \<le> 100 * Suc i" by linarith
  from m have lo: "100 * i < q" by simp
  show i: "i < length xs" using lo pn by linarith
  from hi lo show "p * length xs \<le> 100 * length (filter (\<lambda>x. x \<le> sort xs ! i) xs)"
    "100 * length (filter (\<lambda>x. x < sort xs ! i) xs) < p * length xs"
    using sorted_rank [of "sort xs" i] i unfolding q [symmetric] by (auto simp: length_filter_sort)
qed

text \<open>The reported percentiles are nearest ranks of the recorded samples.  With any sample,
  no index is out of range; the three values are samples in increasing order; at least 95 and
  99 percent of the samples are not above p95 and p99, and strictly fewer are below them; at most half
  of the samples are below p50 and more than half are not above it.\<close>

theorem percentiles_nearest_rank:
  assumes "samples t stage \<noteq> []" "percentiles t stage = (n, p50, p95, p99)"
  shows "n = length (samples t stage) \<and> {p50, p95, p99} \<subseteq> set (samples t stage) \<and> p50 \<le> p95 \<and> p95 \<le> p99
    \<and> 95 * n \<le> 100 * length (filter (\<lambda>d. d \<le> p95) (samples t stage))
    \<and> 100 * length (filter (\<lambda>d. d < p95) (samples t stage)) < 95 * n
    \<and> 99 * n \<le> 100 * length (filter (\<lambda>d. d \<le> p99) (samples t stage))
    \<and> 100 * length (filter (\<lambda>d. d < p99) (samples t stage)) < 99 * n
    \<and> n < 2 * length (filter (\<lambda>d. d \<le> p50) (samples t stage))
    \<and> 2 * length (filter (\<lambda>d. d < p50) (samples t stage)) \<le> n"
proof -
  let ?xs = "samples t stage" and ?ys = "sort (samples t stage)"
  define i where "i = (95 * length ?xs + 99) div 100 - 1"
  define j where "j = (99 * length ?xs + 99) div 100 - 1"
  have v: "n = length ?xs" "p50 = ?ys ! (n div 2)" "p95 = ?ys ! i" "p99 = ?ys ! j"
    using assms by (auto simp: percentiles_def Let_def i_def j_def)
  have n: "0 < n" using assms(1) v(1) by simp
  note r95 = nearest_rank [OF assms(1) _ _ i_def, simplified] and r99 = nearest_rank [OF assms(1) _ _ j_def, simplified]
  have bounds: "i < length ?ys" "j < length ?ys" using r95(1) r99(1) by simp_all
  have h: "n div 2 < length ?ys" using n v(1) by simp
  have mem: "{p50, p95, p99} \<subseteq> set ?xs"
    using nth_mem [of "n div 2" ?ys] nth_mem [of i ?ys] nth_mem [of j ?ys] h bounds v by auto
  have "n div 2 \<le> i" using n unfolding i_def v(1) [symmetric] by linarith
  moreover have "i \<le> j" unfolding i_def j_def by (intro diff_le_mono div_le_mono) simp
  ultimately have order: "p50 \<le> p95" "p95 \<le> p99"
    using sorted_nth_mono [OF sorted_sort, of "n div 2" i ?xs] sorted_nth_mono [OF sorted_sort, of i j ?xs] bounds v
    by simp_all
  have half: "n < 2 * length (filter (\<lambda>d. d \<le> p50) ?xs)" "2 * length (filter (\<lambda>d. d < p50) ?xs) \<le> n"
    using sorted_rank [OF sorted_sort h] v(2) by (auto simp: length_filter_sort)
  show ?thesis using mem order half r95(2,3) r99(2,3) v by (intro conjI) simp_all
qed

definition demo_trace :: claimTrace where
  "demo_trace = TraceQueryEnd (TraceQueryEnd (TraceQueryEnd \<lparr>ct_stage = 0, ct_byStage = Map.empty\<rparr>
     False 1 30 (Some \<lparr>qs_at = 0, qs_stage = 0\<rparr>)) False 2 50 (Some \<lparr>qs_at = 40, qs_stage = 0\<rparr>))
     False 0 90 (Some \<lparr>qs_at = 40, qs_stage = 0\<rparr>)"

theorem percentiles_nearest_rank_witness:
  "samples demo_trace 0 = [30, 10] \<and> percentiles demo_trace 0 = (2, 30, 30, 30)
   \<and> 95 * 2 \<le> 100 * length (filter (\<lambda>d. d \<le> 30) (samples demo_trace 0))"
proof -
  have s: "samples demo_trace 0 = [30, 10]" by (simp add: demo_trace_def TraceQueryEnd_def samples_def)
  then have p: "percentiles demo_trace 0 = (2, 30, 30, 30)" by (simp add: percentiles_def)
  from percentiles_nearest_rank [OF _ p] s p show ?thesis by simp
qed

section \<open>Facts about waiting\<close>

text \<open>The first event that ends the loop decides its result, and the loop returns when there is one.\<close>

lemma await_skip:
  "(\<And>k. i \<le> k \<Longrightarrow> k < i + n \<Longrightarrow> check k = Inr False \<and> \<not> expired k)
   \<Longrightarrow> await label check expired i = await label check expired (i + n)"
proof (induction n arbitrary: i)
  case (Suc n)
  have "await label check expired i = await label check expired (Suc i)"
    using Suc.prems [of i] by (subst await.simps) simp
  also have "\<dots> = await label check expired (Suc i + n)"
    by (rule Suc.IH) (use Suc.prems in auto)
  finally show ?case by simp
qed simp

lemma await_first:
  assumes "\<And>k. k < n \<Longrightarrow> check k = Inr False \<and> \<not> expired k" "check n \<noteq> Inr False \<or> expired n"
  shows "await label check expired 0 =
    Some (case check n of Inl err \<Rightarrow> Some err | Inr ok \<Rightarrow> if ok then None else Some (WaitExpired label))"
proof -
  have "await label check expired 0 = await label check expired n"
    using await_skip [of 0 n check expired label] assms(1) by simp
  also have "\<dots> = Some (case check n of Inl err \<Rightarrow> Some err | Inr ok \<Rightarrow> if ok then None else Some (WaitExpired label))"
    using assms(2) by (subst await.simps) (auto split: sum.splits)
  finally show ?thesis .
qed

lemma await_returns:
  assumes "expired n"
  shows "\<exists>r. await label check expired 0 = Some r
    \<and> (r = None \<longleftrightarrow> (\<exists>k \<le> n. check k = Inr True \<and> (\<forall>j < k. check j = Inr False \<and> \<not> expired j)))"
proof -
  let ?stop = "\<lambda>k. check k \<noteq> Inr False \<or> expired k"
  define m where "m = (LEAST k. ?stop k)"
  have m: "?stop m" "m \<le> n" unfolding m_def using LeastI [of ?stop n] Least_le [of ?stop n] assms by auto
  have before: "check k = Inr False \<and> \<not> expired k" if "k < m" for k
    using not_less_Least [of k ?stop] that unfolding m_def by blast
  have uniq: "k = m" if "check k = Inr True" "\<forall>j < k. check j = Inr False \<and> \<not> expired j" for k
    using that m(1) before [of k] by (cases k m rule: linorder_cases) auto
  have res: "await label check expired 0 =
      Some (case check m of Inl err \<Rightarrow> Some err | Inr ok \<Rightarrow> if ok then None else Some (WaitExpired label))"
    (is "_ = Some ?r") by (rule await_first) (use before m(1) in blast)+
  have "?r = None \<longleftrightarrow> check m = Inr True" by (auto split: sum.splits)
  also have "\<dots> \<longleftrightarrow> (\<exists>k \<le> n. check k = Inr True \<and> (\<forall>j < k. check j = Inr False \<and> \<not> expired j))"
  proof
    assume "check m = Inr True"
    then show "\<exists>k \<le> n. check k = Inr True \<and> (\<forall>j < k. check j = Inr False \<and> \<not> expired j)"
      using before m(2) by (intro exI [of _ m]) simp
  next
    assume "\<exists>k \<le> n. check k = Inr True \<and> (\<forall>j < k. check j = Inr False \<and> \<not> expired j)"
    then obtain k where k: "check k = Inr True" "\<forall>j < k. check j = Inr False \<and> \<not> expired j" by (elim exE conjE)
    show "check m = Inr True" using uniq [OF k] k(1) by simp
  qed
  finally show ?thesis using res by (intro exI [of _ ?r] conjI)
qed

section \<open>Facts about seeding\<close>

text \<open>The seeded part of the tables, without the times: the rows of the workflow
  \<open>history\<close> or with one of its identifiers.\<close>

definition untimed :: "run_row \<Rightarrow> run_row" where
  "untimed r = r\<lparr>next_run_at := 0, created_at := 0, updated_at := 0\<rparr>"

definition history_run :: "(string \<Rightarrow> uuid) \<Rightarrow> run_row \<Rightarrow> bool" where
  "history_run md5 r \<longleftrightarrow> workflow_name r = ''history'' \<or> rid r \<in> range (history_id md5)"

definition history_part :: "(string \<Rightarrow> uuid) \<Rightarrow> db \<Rightarrow> run_row list \<times> checkpoint_row list" where
  "history_part md5 d =
     (map untimed (filter (history_run md5) (runs d)),
      map (\<lambda>c. c\<lparr>cp_completed_at := 0\<rparr>) (filter (\<lambda>c. cp_run c \<in> range (history_id md5)) (checkpoints d)))"

definition seeded :: "(string \<Rightarrow> uuid) \<Rightarrow> int \<Rightarrow> int \<Rightarrow> db \<Rightarrow> bool" where
  "seeded md5 n m d \<longleftrightarrow>
     history_part md5 d = (map (history_row md5 0) [1..n], map (history_checkpoint md5 0) [1..m])"

text \<open>What the engines and workers do beside: they keep the tables consistent and leave the
  seeded rows alone.\<close>

definition quiet :: "(string \<Rightarrow> uuid) \<Rightarrow> (db \<Rightarrow> db) \<Rightarrow> bool" where
  "quiet md5 f \<longleftrightarrow> (\<forall>d. db_ok d \<longrightarrow> db_ok (f d) \<and> history_part md5 (f d) = history_part md5 d)"

lemma untimed_simps [simp]:
  "rid (untimed r) = rid r" "dedup_key (untimed r) = dedup_key r" "workflow_name (untimed r) = workflow_name r"
  "untimed (history_row md5 now g) = history_row md5 0 g"
  by (simp_all add: untimed_def history_row_def)

lemma history_row_simps [simp]:
  "rid (history_row md5 now g) = history_id md5 g" "workflow_name (history_row md5 now g) = ''history''"
  "dedup_key (history_row md5 now g) = Some (''dedup-'' @ int_text g)" "lease_token (history_row md5 now g) = None"
  "cp_run (history_checkpoint md5 now g) = history_id md5 g" "cp_index (history_checkpoint md5 now g) = 0"
  "(history_checkpoint md5 now g)\<lparr>cp_completed_at := 0\<rparr> = history_checkpoint md5 0 g"
  by (simp_all add: history_row_def history_checkpoint_def)

lemma int_text_inj: "0 \<le> g \<Longrightarrow> 0 \<le> h \<Longrightarrow> int_text g = int_text h \<Longrightarrow> g = h"
  by (auto simp: int_text_def dest: itoa_inj)

lemma text_ok_int_text: "text_ok (''dedup-'' @ int_text g)"
proof -
  have ascii: "text_ok s" if "\<And>c. c \<in> set s \<Longrightarrow> c \<in> set ''dedup-0123456789''" for s
    using that
  proof (induction s)
    case (Cons c s)
    then have "c \<in> set ''dedup-0123456789''" by simp
    then have c: "byte c < 128" "c \<noteq> CHR 0x00" by auto
    have "valid_utf8 [c]"
      using valid_utf8_rune [of "c # s"] c(1) rune_len_of [of "c # s"] by (simp add: rune_len_def)
    with Cons c(2) valid_utf8_append [of "[c]" s] show ?case by (auto simp: text_ok_def)
  qed (simp add: text_ok_def)
  have "set ''0123456789'' \<subseteq> set ''dedup-0123456789''" by simp
  then have digits: "set (itoa n) \<subseteq> set ''dedup-0123456789''" for n
    using itoa_digits by (rule subset_trans [rotated])
  have "set (int_text g) \<subseteq> insert (CHR ''-'') (\<Union>n. set (itoa n))" by (auto simp: int_text_def)
  also have "\<dots> \<subseteq> set ''dedup-0123456789''" using digits by (intro insert_subsetI UN_least) simp_all
  finally have "set (''dedup-'' @ int_text g) \<subseteq> set ''dedup-0123456789''"
    unfolding set_append by (intro Un_least) simp_all
  then show ?thesis by (rule ascii [OF subsetD])
qed

lemma history_row_ok: "row_ok (history_row md5 now g)"
proof -
  have "text_ok ''history''" "text_ok ''short''" by code_simp+
  then show ?thesis using text_ok_int_text [of g]
    by (simp add: row_ok_def history_row_def opt_text_ok_def int4_ok_def)
qed

lemma seeded_runs:
  assumes "seeded md5 n m d" "r \<in> set (runs d)" "history_run md5 r"
  shows "\<exists>g. 1 \<le> g \<and> g \<le> n \<and> rid r = history_id md5 g \<and> dedup_key r = Some (''dedup-'' @ int_text g)"
proof -
  have "untimed r \<in> set (map untimed (filter (history_run md5) (runs d)))" using assms(2,3) by auto
  also have "\<dots> = history_row md5 0 ` {1..n}" using assms(1) by (simp add: seeded_def history_part_def)
  finally obtain g where g: "g \<in> {1..n}" "untimed r = history_row md5 0 g" by blast
  have "rid (untimed r) = history_id md5 g" "dedup_key (untimed r) = Some (''dedup-'' @ int_text g)"
    unfolding g(2) by simp_all
  then have "rid r = history_id md5 g" "dedup_key r = Some (''dedup-'' @ int_text g)" by simp_all
  then show ?thesis using g(1) by auto
qed

lemma seeded_checkpoints:
  assumes "seeded md5 n m d" "c \<in> set (checkpoints d)" "cp_run c = history_id md5 h"
  shows "\<exists>g. 1 \<le> g \<and> g \<le> m \<and> cp_run c = history_id md5 g"
proof -
  let ?u = "\<lambda>c. c\<lparr>cp_completed_at := 0\<rparr>"
  have "?u c \<in> set (map ?u (filter (\<lambda>c. cp_run c \<in> range (history_id md5)) (checkpoints d)))" using assms(2,3) by auto
  also have "\<dots> = history_checkpoint md5 0 ` {1..m}" using assms(1) by (simp add: seeded_def history_part_def)
  finally obtain g where g: "g \<in> {1..m}" "?u c = history_checkpoint md5 0 g" by blast
  have "cp_run (?u c) = history_id md5 g" unfolding g(2) by simp
  then show ?thesis using g(1) by auto
qed

lemma insert_runs_Inr:
  "insert_runs rows d = Inr (u, d') \<Longrightarrow>
   d' = d\<lparr>runs := runs d @ rows\<rparr> \<and> distinct (map rid (runs d @ rows)) \<and> distinct (dedup_keys (runs d @ rows))"
  by (auto simp: insert_runs_def split: if_splits)

lemma insert_checkpoints_Inr:
  "insert_checkpoints cps d = Inr (u, d') \<Longrightarrow>
   d' = d\<lparr>checkpoints := checkpoints d @ cps\<rparr> \<and> distinct (map cp_key (checkpoints d @ cps))
   \<and> cp_run ` set cps \<subseteq> rid ` set (runs d)"
  by (auto simp: insert_checkpoints_def split: if_splits)

lemma dedup_keys_map:
  "dedup_keys rs = map (\<lambda>r. (workflow_name r, the (dedup_key r))) (filter (\<lambda>r. dedup_key r \<noteq> None) rs)"
  by (induction rs) (auto simp: dedup_keys_def List.map_filter_simps)

lemma dedup_keys_unique:
  assumes "distinct (dedup_keys rs)" "r \<in> set rs" "s \<in> set rs" "dedup_key r = Some k" "dedup_key s = Some k"
    "workflow_name r = workflow_name s"
  shows "r = s"
proof -
  have "inj_on (\<lambda>r. (workflow_name r, the (dedup_key r))) (set (filter (\<lambda>r. dedup_key r \<noteq> None) rs))"
    using assms(1) by (simp only: dedup_keys_map distinct_map)
  then show ?thesis by (rule inj_onD) (use assms in simp_all)
qed

lemma dedup_keys_distinct:
  assumes "runs_ok rs"
  shows "distinct (dedup_keys rs)"
proof -
  have ids: "distinct (map rid rs)" by (rule runs_okD(1) [OF assms])
  have "r = s" if rs: "r \<in> set rs" "s \<in> set rs" and k: "dedup_key r \<noteq> None" "dedup_key s \<noteq> None"
    "workflow_name r = workflow_name s" "the (dedup_key r) = the (dedup_key s)" for r s
  proof -
    obtain key where "dedup_key r = Some key" "dedup_key s = Some key" using k by force
    then have "rid r = rid s" by (rule runs_okD(4) [OF assms rs]) (rule k(3))
    then show ?thesis using ids rs by (auto simp: distinct_map dest: inj_onD)
  qed
  then have "inj_on (\<lambda>r. (workflow_name r, the (dedup_key r))) (set (filter (\<lambda>r. dedup_key r \<noteq> None) rs))"
    by (intro inj_onI) simp
  moreover have "distinct (filter (\<lambda>r. dedup_key r \<noteq> None) rs)" using ids by (simp add: distinct_map)
  ultimately show ?thesis unfolding dedup_keys_map by (simp only: distinct_map)
qed

lemma insert_runs_ok:
  assumes "db_ok d" "insert_runs rows d = Inr (u, d')"
    and "\<And>r. r \<in> set rows \<Longrightarrow> row_ok r \<and> lease_token r = None"
  shows "db_ok d'"
proof -
  note ins = insert_runs_Inr [OF assms(2)]
  have old: "runs_ok (runs d)" using assms(1) by (simp add: db_ok_def)
  have "runs_ok (runs d @ rows)"
  proof (rule runs_okI)
    show "distinct (map rid (runs d @ rows))" using ins by simp
    show "row_ok r" if "r \<in> set (runs d @ rows)" for r
      using that assms(3) runs_okD(2) [OF old] by auto
    show "rid r = rid s" if "r \<in> set (runs d @ rows)" "s \<in> set (runs d @ rows)" "lease_token r = Some t"
      "lease_token s = Some t" for r s t
      using that assms(3) runs_okD(3) [OF old, of r s t] by fastforce
    show "rid r = rid s" if "r \<in> set (runs d @ rows)" "s \<in> set (runs d @ rows)" "dedup_key r = Some k"
      "dedup_key s = Some k" "workflow_name r = workflow_name s" for r s k
      using dedup_keys_unique [OF _ that] ins by simp
  qed
  then show ?thesis using assms(1) ins by (auto simp: db_ok_def checkpoints_ok_def events_ok_def)
qed

lemma insert_checkpoints_ok:
  assumes "db_ok d" "insert_checkpoints cps d = Inr (u, d')"
  shows "db_ok d'"
  using assms(1) insert_checkpoints_Inr [OF assms(2)] by (auto simp: db_ok_def checkpoints_ok_def events_ok_def)

lemma insert_history_seeds:
  assumes "db_ok d" "seeded md5 n m d" "0 \<le> n" "n < to" "insert_history md5 now (n + 1) to d = Inr (u, d')"
  shows "db_ok d' \<and> seeded md5 to m d'"
proof -
  let ?rows = "map (history_row md5 now) [n + 1..to]"
  have ins: "insert_runs ?rows d = Inr (u, d')"
    using assms(5) by (auto simp: insert_history_def split: if_splits)
  have "filter (history_run md5) ?rows = ?rows" by (auto simp: filter_id_conv history_run_def)
  then have "map untimed (filter (history_run md5) (runs d @ ?rows))
      = map (history_row md5 0) ([1..n] @ [n + 1..to])"
    using assms(2) by (simp add: seeded_def history_part_def)
  also have "[1..n] @ [n + 1..to] = [1..to]" using upto_split1 [of 1 "n + 1" to] assms(3,4) by simp
  finally have "seeded md5 to m d'"
    using assms(2) insert_runs_Inr [OF ins] by (simp add: seeded_def history_part_def)
  moreover have "db_ok d'" by (rule insert_runs_ok [OF assms(1) ins]) (auto simp: history_row_ok)
  ultimately show ?thesis by blast
qed


lemma insert_history_succeeds:
  assumes "db_ok d" "seeded md5 n m d" "0 \<le> n" "n < to" "to < 2 ^ 31" "inj_on (history_id md5) {1..to}"
  shows "\<exists>d'. insert_history md5 now (n + 1) to d = Inr ((), d')"
proof -
  let ?rows = "map (history_row md5 now) [n + 1..to]"
  have rok: "runs_ok (runs d)" using assms(1) by (simp add: db_ok_def)
  have new: "g \<in> {n + 1..to} \<Longrightarrow> r \<in> set (runs d) \<Longrightarrow> rid r \<noteq> history_id md5 g
      \<and> \<not> (workflow_name r = ''history'' \<and> dedup_key r = Some (''dedup-'' @ int_text g))" for g r
  proof (intro conjI notI)
    assume g: "g \<in> {n + 1..to}" and r: "r \<in> set (runs d)"
    {
      assume eq: "rid r = history_id md5 g"
      then obtain h where h: "1 \<le> h" "h \<le> n" "rid r = history_id md5 h"
        using seeded_runs [OF assms(2) r] by (auto simp: history_run_def)
      then have "h = g" by (intro inj_onD [OF assms(6)]) (use eq g assms(3) in auto)
      then show False using g h by simp
    next
      assume eq: "workflow_name r = ''history'' \<and> dedup_key r = Some (''dedup-'' @ int_text g)"
      then obtain h where h: "1 \<le> h" "h \<le> n" "dedup_key r = Some (''dedup-'' @ int_text h)"
        using seeded_runs [OF assms(2) r] by (auto simp: history_run_def)
      then have "h = g" using eq g assms(3) by (intro int_text_inj) auto
      then show False using g h by simp
    }
  qed
  have inj: "inj_on (history_id md5) {n + 1..to}"
    by (rule inj_on_subset [OF assms(6)]) (use assms(3) in auto)
  have "distinct (map rid ?rows)" using inj by (simp add: comp_def distinct_map)
  then have ids: "distinct (map rid (runs d @ ?rows))"
    using runs_okD(1) [OF rok] new by (auto simp: image_iff)
  have keys: "dedup_keys ?rows = map (\<lambda>g. (''history'', ''dedup-'' @ int_text g)) [n + 1..to]"
    unfolding dedup_keys_map by (simp add: filter_id_conv comp_def filter_map)
  have "distinct (dedup_keys ?rows)"
    unfolding keys distinct_map using int_text_inj assms(3) by (intro conjI inj_onI) auto
  moreover have "set (dedup_keys (runs d)) \<inter> set (dedup_keys ?rows) = {}"
    unfolding keys dedup_keys_map using new by fastforce
  moreover have "dedup_keys (runs d @ ?rows) = dedup_keys (runs d) @ dedup_keys ?rows"
    by (simp add: dedup_keys_map)
  ultimately have "distinct (dedup_keys (runs d @ ?rows))" using dedup_keys_distinct [OF rok] by simp
  then show ?thesis using ids assms(3-5) by (simp add: insert_history_def insert_runs_def int4_ok_def)
qed

lemma insert_history_checkpoints_seeds:
  assumes "db_ok d" "seeded md5 to n d" "0 \<le> n" "n < to"
    "insert_history_checkpoints md5 now (n + 1) to d = Inr (u, d')"
  shows "db_ok d' \<and> seeded md5 to to d'"
proof -
  let ?cps = "map (history_checkpoint md5 now) [n + 1..to]"
  let ?mine = "\<lambda>c. cp_run c \<in> range (history_id md5)" and ?u = "\<lambda>c. c\<lparr>cp_completed_at := 0\<rparr>"
  have ins: "insert_checkpoints ?cps d = Inr (u, d')"
    using assms(5) by (auto simp: insert_history_checkpoints_def split: if_splits)
  have "filter ?mine ?cps = ?cps" by (auto simp: filter_id_conv)
  then have "map ?u (filter ?mine (checkpoints d @ ?cps)) = map (history_checkpoint md5 0) ([1..n] @ [n + 1..to])"
    using assms(2) by (simp add: seeded_def history_part_def)
  also have "[1..n] @ [n + 1..to] = [1..to]" using upto_split1 [of 1 "n + 1" to] assms(3,4) by simp
  finally have "seeded md5 to to d'"
    using assms(2) insert_checkpoints_Inr [OF ins] by (simp add: seeded_def history_part_def)
  then show ?thesis using insert_checkpoints_ok [OF assms(1) ins] by blast
qed

lemma insert_history_checkpoints_succeeds:
  assumes "db_ok d" "seeded md5 to n d" "0 \<le> n" "n < to" "to < 2 ^ 31" "inj_on (history_id md5) {1..to}"
  shows "\<exists>d'. insert_history_checkpoints md5 now (n + 1) to d = Inr ((), d')"
proof -
  let ?cps = "map (history_checkpoint md5 now) [n + 1..to]"
  have new: "cp_run c \<noteq> history_id md5 g" if c: "c \<in> set (checkpoints d)" and g: "g \<in> {n + 1..to}" for c g
  proof
    assume eq: "cp_run c = history_id md5 g"
    then obtain h where h: "1 \<le> h" "h \<le> n" "cp_run c = history_id md5 h"
      using seeded_checkpoints [OF assms(2) c] by blast
    then have "h = g" by (intro inj_onD [OF assms(6)]) (use eq g assms(3) in auto)
    then show False using g h by simp
  qed
  have "inj_on (history_id md5) {n + 1..to}"
    by (rule inj_on_subset [OF assms(6)]) (use assms(3) in auto)
  then have "distinct (map cp_key ?cps)" by (auto simp: comp_def distinct_map inj_on_def)
  then have keys: "distinct (map cp_key (checkpoints d @ ?cps))"
    using assms(1) new by (auto simp: db_ok_def checkpoints_ok_def image_iff)
  have "history_row md5 0 ` {1..to} = untimed ` {r \<in> set (runs d). history_run md5 r}"
    using arg_cong [OF assms(2) [unfolded seeded_def history_part_def], of "\<lambda>p. set (fst p)"] by simp
  then have "rid ` history_row md5 0 ` {1..to} \<subseteq> rid ` set (runs d)" by (auto simp: image_image)
  then have "cp_run ` set ?cps \<subseteq> rid ` set (runs d)" using assms(3) by (auto simp: image_image)
  then show ?thesis using keys assms(3-5)
    by (simp add: insert_history_checkpoints_def insert_checkpoints_def int4_ok_def)
qed

lemma seed_exec_result:
  assumes "seed_exec env stmt d = (r, d')"
  shows "d' = sd_others env d \<and> r \<noteq> None \<or> stmt (sd_now env) (sd_others env d) = Inr ((), d')"
    and "r = None \<Longrightarrow> stmt (sd_now env) (sd_others env d) = Inr ((), d')"
    and "sd_fault env = NoFault \<Longrightarrow> stmt (sd_now env) (sd_others env d) = Inr ((), d1) \<Longrightarrow> r = None"
  using assms by (auto simp: seed_exec_def exec_def split: fault.splits sum.splits)

lemma quietD: "quiet md5 f \<Longrightarrow> db_ok d \<Longrightarrow> db_ok (f d)" "quiet md5 f \<Longrightarrow> db_ok d \<Longrightarrow> seeded md5 n m (f d) = seeded md5 n m d"
  by (simp_all add: quiet_def seeded_def)

lemma seed_batch_seeds:
  assumes "seed_batch md5 env k (n + 1) to d = (r, d')" "inj_on (history_id md5) {1..to}"
    and "\<And>i. quiet md5 (sd_others (env i))" "db_ok d" "0 \<le> n" "n < to" "seeded md5 n n d"
  shows "db_ok d'" "r = None \<Longrightarrow> seeded md5 to to d'"
    and "sd_fault (env k) = NoFault \<Longrightarrow> sd_fault (env (k + 1)) = NoFault \<Longrightarrow> to < 2 ^ 31 \<Longrightarrow> r = None"
proof -
  let ?o = "sd_others (env k) d"
  have o: "db_ok ?o" "seeded md5 n n ?o" using quietD [OF assms(3,4)] assms(7) by auto
  obtain r1 d1 where run1: "seed_exec (env k) (\<lambda>now. insert_history md5 now (n + 1) to) d = (r1, d1)" by fastforce
  have ok1: "db_ok d1" "r1 = None \<Longrightarrow> seeded md5 to n d1"
    using seed_exec_result(1,2) [OF run1] o insert_history_seeds [OF o assms(5,6)] by blast+
  have go1: "r1 = None" if "sd_fault (env k) = NoFault" "to < 2 ^ 31"
    using insert_history_succeeds [OF o assms(5,6) that(2) assms(2)] seed_exec_result(3) [OF run1 that(1)] by auto
  let ?p = "sd_others (env (k + 1)) d1"
  obtain r2 d2 where run2:
    "seed_exec (env (k + 1)) (\<lambda>now. insert_history_checkpoints md5 now (n + 1) to) d1 = (r2, d2)" by fastforce
  have p: "db_ok ?p" "r1 = None \<Longrightarrow> seeded md5 to n ?p" using quietD [OF assms(3) ok1(1)] ok1(2) by auto
  have ok2: "r1 = None \<Longrightarrow> db_ok d2" "r1 = None \<Longrightarrow> r2 = None \<Longrightarrow> seeded md5 to to d2"
    using seed_exec_result(1,2) [OF run2] p insert_history_checkpoints_seeds [OF p(1) _ assms(5,6)] by blast+
  have go2: "r2 = None" if "r1 = None" "sd_fault (env (k + 1)) = NoFault" "to < 2 ^ 31"
    using insert_history_checkpoints_succeeds [OF p(1) p(2) [OF that(1)] assms(5,6) that(3) assms(2)]
      seed_exec_result(3) [OF run2 that(2)] by auto
  have res: "(r, d') = (if r1 = None then (r2, d2) else (r1, d1))"
    using assms(1) run1 run2 by (auto simp: seed_batch_def)
  show "db_ok d'" "r = None \<Longrightarrow> seeded md5 to to d'"
    using res ok1(1) ok2 by (auto split: if_splits)
  show "r = None" if "sd_fault (env k) = NoFault" "sd_fault (env (k + 1)) = NoFault" "to < 2 ^ 31"
    using res go1 [OF that(1,3)] go2 [OF _ that(2,3)] by simp
qed

lemma seedHistory_seeds:
  assumes "seedHistory md5 env k first to d = (r, d')" "inj_on (history_id md5) {1..to}" "\<And>i. quiet md5 (sd_others (env i))"
    and "db_ok d" "1 \<le> first" "0 \<le> to" "seeded md5 (min (first - 1) to) (min (first - 1) to) d"
  shows "db_ok d' \<and> (r = None \<longrightarrow> seeded md5 to to d')
    \<and> ((\<forall>i. sd_fault (env i) = NoFault) \<and> to < 2 ^ 31 \<longrightarrow> r = None)"
  using assms
proof (induction md5 env k first to d rule: seedHistory.induct)
  case (1 md5 env k first to d)
  show ?case
  proof (cases "to < first")
    case True
    then have run: "seed_exec (env k) (\<lambda>now d. Inr ((), d)) d = (r, d')" "min (first - 1) to = to"
      using "1.prems"(1) by (subst (asm) seedHistory.simps, simp)+
    have "d' = sd_others (env k) d" using seed_exec_result(1) [OF run(1)] by auto
    then show ?thesis
      using "1.prems"(7) quietD [OF "1.prems"(3,4)] seed_exec_result(3) [OF run(1)] unfolding run(2) by auto
  next
    case False
    let ?last = "min (first + 99999) to" and ?n = "first - 1"
    obtain r1 d1 where run: "seed_batch md5 env k (?n + 1) ?last d = (r1, d1)" by fastforce
    have "inj_on (history_id md5) {1..?last}" by (rule inj_on_subset [OF "1.prems"(2)]) auto
    note batch = seed_batch_seeds [OF run this "1.prems"(3,4)]
    have seeds: "db_ok d1" "r1 = None \<Longrightarrow> seeded md5 ?last ?last d1"
      "sd_fault (env k) = NoFault \<and> sd_fault (env (k + 1)) = NoFault \<and> to < 2 ^ 31 \<Longrightarrow> r1 = None"
      using batch False "1.prems"(5,7) by auto
    show ?thesis
    proof (cases r1)
      case (Some err)
      then have "r = Some err" "d' = d1" using "1.prems"(1) False run by (subst (asm) seedHistory.simps, simp)+
      then show ?thesis using seeds Some by auto
    next
      case None
      then have rest: "seedHistory md5 env (k + 2) (first + 100000) to d1 = (r, d')"
        using "1.prems"(1) False run by (subst (asm) seedHistory.simps) simp
      have "min (first + 100000 - 1) to = ?last" by simp
      then show ?thesis
        using "1.IH" [OF False _ None rest "1.prems"(2,3) seeds(1)] run None seeds(2) "1.prems"(5,6) by simp
    qed
  qed
qed

text \<open>Seeding adds every number of the history exactly once.  From a consistent database whose
  history is \<open>1..first-1\<close>, and beside engines and workers that leave it alone, \<open>seedHistory\<close>
  keeps the database consistent; when it returns without error the history is exactly
  \<open>1..to\<close>, one completed run with its checkpoint per number; and it does return without error
  when no statement meets a fault and the numbers fit the parameters of the statements.\<close>

theorem seedHistory_exact:
  assumes "seedHistory md5 env k first to d = (r, d')" "inj_on (history_id md5) {1..to}" "\<And>i. quiet md5 (sd_others (env i))"
    and "db_ok d" "1 \<le> first" "first \<le> to + 1" "seeded md5 (first - 1) (first - 1) d"
  shows "db_ok d' \<and> (r = None \<longrightarrow> seeded md5 to to d')
    \<and> ((\<forall>i. sd_fault (env i) = NoFault) \<and> to < 2 ^ 31 \<longrightarrow> r = None)"
proof -
  have "min (first - 1) to = first - 1" using assms(6) by simp
  then show ?thesis using seedHistory_seeds [OF assms(1-5)] assms(5-7) by simp
qed

lemma history_id_plain: "inj_on (history_id (\<lambda>s. s)) {1..to}"
  by (rule inj_onI, rule int_text_inj) (simp_all add: history_id_def)

definition demo_seed_env :: seed_env where
  "demo_seed_env = \<lparr>sd_others = (\<lambda>d. d), sd_now = 7, sd_fault = NoFault\<rparr>"

theorem seedHistory_exact_witness:
  "\<exists>d'. seedHistory (\<lambda>s. s) (\<lambda>_. demo_seed_env) 0 1 250000 empty_db = (None, d') \<and> seeded (\<lambda>s. s) 250000 250000 d'"
proof -
  obtain r d' where run: "seedHistory (\<lambda>s. s) (\<lambda>_. demo_seed_env) 0 1 250000 empty_db = (r, d')" by fastforce
  have "seeded (\<lambda>s. s) 0 0 empty_db" by (simp add: seeded_def history_part_def empty_db_def)
  moreover have "quiet (\<lambda>s. s) (sd_others demo_seed_env)" by (simp add: quiet_def demo_seed_env_def)
  ultimately have "r = None \<and> seeded (\<lambda>s. s) 250000 250000 d'"
    using seedHistory_exact [OF run history_id_plain _ db_ok_empty] by (simp add: demo_seed_env_def)
  then show ?thesis using run by simp
qed

text \<open>The loop over parsed milestones seeds exactly the numbers up to the last of them, measures once per
  milestone, and every measurement it accepts shows no failed short run, no finished long
  run and every long run leased.\<close>

lemma stage_loop_seeds:
  assumes "stage_loop active md5 unmarshal env stage targets previous d = (r, ms, d')"
    and "sorted_wrt (<) targets" "\<And>t. t \<in> set targets \<Longrightarrow> previous \<le> t \<and> t \<le> maximum" "0 \<le> previous"
    and "inj_on (history_id md5) {1..maximum}" "\<And>j i. quiet md5 (sd_others (sv_seed (env j) i))" "\<And>j. quiet md5 (sv_others (env j))"
    and "db_ok d" "seeded md5 previous previous d"
  shows "db_ok d' \<and> (r = None \<longrightarrow>
    (let n = (if targets = [] then previous else last targets) in seeded md5 n n d') \<and> length ms = length targets
    \<and> (\<forall>m \<in> set ms. m_ShortFailed m = 0 \<and> int (m_LongLeased m) = active \<and> m_LongCompleted m = 0))"
  using assms
proof (induction targets arbitrary: stage previous d r ms d')
  case (Cons target targets)
  let ?seed = "if previous < target then seedHistory md5 (sv_seed (env stage)) 0 (previous + 1) target d else (None, d)"
  obtain r1 d1 where seed: "?seed = (r1, d1)" by fastforce
  have t: "previous \<le> target" "target \<le> maximum" using Cons.prems(3) [of target] by simp_all
  have inj: "inj_on (history_id md5) {1..target}" by (rule inj_on_subset [OF Cons.prems(5)]) (use t in auto)
  have one: "db_ok d1" "r1 = None \<Longrightarrow> seeded md5 target target d1"
    using seed seedHistory_seeds [OF _ inj Cons.prems(6,8)] Cons.prems(4,8,9) t
    by (auto split: if_splits simp: min_def)
  let ?d2 = "sv_others (env stage) d1"
  have two: "db_ok ?d2" "r1 = None \<Longrightarrow> seeded md5 target target ?d2" using quietD [OF Cons.prems(7) one(1)] one(2) by auto
  obtain m merr where meas: "measure_db unmarshal (sv_measure (env stage)) ?d2 = (m, merr)" by fastforce
  show ?case
  proof (cases "r1 = None \<and> merr = None \<and> m_ShortFailed m = 0 \<and> int (m_LongLeased m) = active \<and> m_LongCompleted m = 0")
    case False
    then show ?thesis using Cons.prems(1) seed one(1) two(1) meas by (auto simp: Let_def split: option.splits if_splits)
  next
    case True
    then have seeds: "r1 = None" by (rule conjunct1)
    obtain r3 ms3 d3 where rest: "stage_loop active md5 unmarshal env (stage + 1) targets target ?d2 = (r3, ms3, d3)"
      by (metis prod_cases3)
    have tail: "sorted_wrt (<) targets" "\<And>u. u \<in> set targets \<Longrightarrow> target \<le> u \<and> u \<le> maximum"
      using Cons.prems(2) Cons.prems(3) by auto
    have pos: "0 \<le> target" using Cons.prems(4) t(1) by (rule order_trans)
    have "db_ok d3 \<and> (r3 = None \<longrightarrow>
        (let n = (if targets = [] then target else last targets) in seeded md5 n n d3) \<and> length ms3 = length targets
        \<and> (\<forall>m \<in> set ms3. m_ShortFailed m = 0 \<and> int (m_LongLeased m) = active \<and> m_LongCompleted m = 0))"
      by (rule Cons.IH [OF rest tail pos Cons.prems(5-7) two(1) two(2)]) (simp_all add: seeds)
    moreover have "r = r3" "ms = m # ms3" "d' = d3"
      using Cons.prems(1) seed meas rest True by (auto simp: Let_def)
    ultimately show ?thesis using True by (auto simp: Let_def)
  qed
qed simp

section \<open>Facts about the counts\<close>

abbreviation runs_named :: "string \<Rightarrow> db \<Rightarrow> nat" where
  "runs_named name d \<equiv> count_where (\<lambda>r. workflow_name r = name) (runs d)"

lemma count_where_append [simp]: "count_where p (rs @ ss) = count_where p rs + count_where p ss"
  by (simp add: count_where_def)

lemma count_where_all:
  assumes "count_where (\<lambda>r. p r \<and> q r) rs = count_where p rs" "r \<in> set rs" "p r"
  shows "q r"
  using assms
proof (induction rs)
  case (Cons s rs)
  have le: "length (filter (\<lambda>r. p r \<and> q r) rs) \<le> length (filter p rs)" for rs
    by (induction rs) auto
  show ?case using Cons le [of rs] by (auto simp: count_where_def split: if_splits)
qed simp

lemma insertRun_named:
  assumes "insertRun pg now i name version q maxA sched input None channel d = Inr (res, d')"
  shows "runs_named n d' = runs_named n d + (if n = name then 1 else 0)"
  using assms by (cases rule: insertRun_cases) (simp_all add: count_where_def)

lemma Run_named:
  assumes "Run pg f now order fresh e name (Marshalled JNull) [] d = (r, d')"
    and "latestWorkflow order e name = Some cw" "cw_name cw = name"
  shows "case r of Inr _ \<Rightarrow> runs_named name d' = runs_named name d + 1
    | Inl _ \<Rightarrow> runs_named name d' = runs_named name d \<or> runs_named name d' = runs_named name d + 1"
proof (cases "enqueue_request order fresh e name (Marshalled JNull) []")
  case (Inl err)
  then show ?thesis using assms(1) by (auto simp: Run_def Enqueue_def)
next
  case (Inr rq)
  have rq: "rq_name rq = name" "rq_dedup rq = None"
    using Inr assms(2,3)
    by (auto simp: enqueue_request_def Let_def request_of_def default_options_def split: if_splits)
  have ins: "runs_named name d1 = runs_named name d + 1"
    if "insert_request pg now (e_channel e) rq d = Inr (res, d1)" for res d1
    using insertRun_named [of pg now "rq_id rq" "rq_name rq" _ _ _ _ _ _ d res d1 name] that rq by (simp add: insert_request_def)
  then show ?thesis
    using assms(1) Inr by (auto simp: Run_def Enqueue_def exec_def split: fault.splits sum.splits prod.splits)
qed

text \<open>The producer counts exactly the runs it created; only the call that failed may have
  created one more.\<close>

lemma producer_counts:
  assumes "producer pg e name ts enqueued d = (r, n, d')" "runs_named name d = enqueued"
    and "\<And>t. t \<in> set ts \<Longrightarrow> latestWorkflow (bt_order t) e name = Some cw" "cw_name cw = name"
    and "\<And>t d. t \<in> set ts \<Longrightarrow> runs_named name (bt_others t d) = runs_named name d"
  shows "(r = None \<longrightarrow> runs_named name d' = n \<and> n = enqueued + length ts) \<and> runs_named name d' \<in> {n, n + 1}"
  using assms
proof (induction ts arbitrary: enqueued d)
  case (Cons t ts)
  obtain r1 d1 where run: "Run pg (bt_fault t) (bt_now t) (bt_order t) (bt_fresh t) e name (Marshalled JNull) []
      (bt_others t d) = (r1, d1)" by fastforce
  have "latestWorkflow (bt_order t) e name = Some cw" by (rule Cons.prems(3)) simp
  note one = Run_named [OF run this Cons.prems(4)]
  have base: "runs_named name (bt_others t d) = enqueued" using Cons.prems(2) Cons.prems(5) [of t d] by simp
  show ?case
  proof (cases r1)
    case (Inl err)
    then show ?thesis using Cons.prems(1) run one base by auto
  next
    case (Inr i)
    then have "runs_named name d1 = enqueued + 1" using one base by simp
    moreover have "producer pg e name ts (enqueued + 1) d1 = (r, n, d')" using Cons.prems(1) run Inr by simp
    ultimately show ?thesis using Cons.IH [of "enqueued + 1" d1] Cons.prems(3-5) by force
  qed
qed simp

text \<open>The last wait of the benchmark ends well only when everything it enqueued has completed.\<close>

lemma finish_check_complete:
  assumes "finish_check f active enqueued d = Inr True" "runs_named ''short'' d = enqueued" "int (runs_named ''long'' d) = active"
    and "r \<in> set (runs d)" "workflow_name r = ''short'' \<or> workflow_name r = ''long''"
  shows "state r = RunCompleted"
proof -
  have "count_runs ''short'' RunCompleted d = enqueued" "int (count_runs ''long'' RunCompleted d) = active"
    using assms(1) by (auto simp: finish_check_def exec_def split: fault.splits if_splits)
  then have "count_runs n RunCompleted d = runs_named n d" if "n = ''short'' \<or> n = ''long''" for n
    using that assms(2,3) by auto
  then have "count_runs (workflow_name r) RunCompleted d = runs_named (workflow_name r) d" using assms(5) by blast
  then show ?thesis
    unfolding count_runs_def by (rule count_where_all [where p = "\<lambda>s. workflow_name s = workflow_name r"]) (use assms(4) in simp_all)
qed

end
