(* ===== verification/Growth_Run.thy ===== *)
theory Growth_Run
  imports Growth_Bench
begin

text \<open>
  The model of the function \<open>run\<close> of \<open>cmd/growthbench/main.go\<close>: its flags, the set-up of the
  database and of the two engines, and the course of the benchmark with the goroutines it starts
  and its deferred calls.  The course is recorded as a trace of the resources it takes and gives
  back.  What the goroutines and the server do is an argument.  The lemmas show that the set-up
  succeeds on a fresh database, that \<open>run\<close> returns and cleans up on every path, and when it
  reports success.
\<close>

section \<open>Set-up\<close>

record bench_flags =
  bf_url :: string
  bf_profile :: string
  bf_history :: string
  bf_stage :: duration
  bf_rate :: int
  bf_active :: int

definition flags_ok :: "bench_flags \<Rightarrow> bool" where
  "flags_ok fl \<longleftrightarrow>
     \<not> (bf_url fl = '''' \<or> (bf_profile fl \<noteq> ''default'' \<and> bf_profile fl \<noteq> ''tuned'') \<or> bf_stage fl < 30 * Second
        \<or> bf_rate fl < 1 \<or> 10000 < bf_rate fl \<or> bf_active fl < 1 \<or> 1000 < bf_active fl)"

definition bench_config :: "string \<Rightarrow> int \<Rightarrow> Config" where
  "bench_config q concurrency =
     \<lparr>cfg_DB = True, cfg_Schema = ''growthbench'', cfg_Queue = q, cfg_MaxConcurrency = concurrency,
      cfg_PollInterval = 10 * Millisecond, cfg_LeaseTTL = 0, cfg_HeartbeatInterval = 0\<rparr>"

text \<open>The step of the long workflow ends when it is released, or with its context.\<close>

definition short_build :: "build_cmd list" where
  "short_build = [CStep ''process'' (Some (\<lambda>w sc. FnReturn (Marshalled (JBool True)))) []]"

definition long_build :: "(world \<Rightarrow> bool) \<Rightarrow> build_cmd list" where
  "long_build released =
     [CStep ''process'' (Some (\<lambda>w sc. if released w then FnReturn (Marshalled (JBool True)) else FnError ''context canceled'')) []]"

record bench =
  be_targets :: "int list"
  be_short :: Engine
  be_long :: Engine

text \<open>What the server answers during the set-up: errors of opening the pool, of the ping, of the two
  queries, of the extension and of the table settings, and the faults of \<open>ApplySchema\<close>.\<close>

record setup_env =
  su_open :: "pg_error option"
  su_ping :: "pg_error option"
  su_version :: "pg_error + int"
  su_lookup :: "pg_error option"
  su_schema :: schema_env
  su_extension :: "pg_error option"
  su_tuning :: "pg_error option"

text \<open>The flags, before anything is opened.\<close>

definition bench_targets :: "bench_flags \<Rightarrow> bench_error + int list" where
  "bench_targets fl = (if \<not> flags_ok fl then Inl BadFlags else parseHistory (bf_history fl))"

text \<open>The server has to be recent and the schema new.\<close>

definition check_server :: "setup_env \<Rightarrow> catalog \<Rightarrow> bench_error option" where
  "check_server env c =
     (case su_ping env of
        Some err \<Rightarrow> Some (QueryFailed err)
      | None \<Rightarrow>
     (case su_version env of
        Inl err \<Rightarrow> Some (QueryFailed err)
      | Inr version \<Rightarrow>
          if version < 180000 then Some (OldServer version)
          else
     (case su_lookup env of
        Some err \<Rightarrow> Some (QueryFailed err)
      | None \<Rightarrow> if ca_relations c ''growthbench'' \<noteq> None then Some SchemaExists else None)))"

text \<open>The statements after \<open>ApplySchema\<close>; the settings are for the profile \<open>tuned\<close> only.\<close>

definition tune_server :: "setup_env \<Rightarrow> bench_flags \<Rightarrow> bench_error option" where
  "tune_server env fl =
     (case su_extension env of
        Some err \<Rightarrow> Some (QueryFailed err)
      | None \<Rightarrow> if bf_profile fl = ''tuned'' then map_option QueryFailed (su_tuning env) else None)"

text \<open>From the ping to the registration of the workflows.\<close>

definition bench_setup ::
  "int \<Rightarrow> string \<Rightarrow> string \<Rightarrow> (world \<Rightarrow> bool) \<Rightarrow> setup_env \<Rightarrow> bench_flags \<Rightarrow> int list \<Rightarrow> catalog
   \<Rightarrow> (bench_error + bench) \<times> catalog" where
  "bench_setup procs wid1 wid2 released env fl targets c =
     (case check_server env c of
        Some err \<Rightarrow> (Inl err, c)
      | None \<Rightarrow>
     (case New procs wid1 (bench_config ''short'' 8) of
        Inl err \<Rightarrow> (Inl (NewFailed err), c)
      | Inr short \<Rightarrow>
     (case New procs wid2 (bench_config ''long'' (bf_active fl)) of
        Inl err \<Rightarrow> (Inl (NewFailed err), c)
      | Inr long \<Rightarrow>
     (case ApplySchema (su_schema env) short c of
        (Some err, c') \<Rightarrow> (Inl (SchemaFailed err), c')
      | (None, c') \<Rightarrow>
     (case tune_server env fl of
        Some err \<Rightarrow> (Inl err, c')
      | None \<Rightarrow>
     (case RegisterWorkflow ''short'' (Some short_build) short of
        Inl p \<Rightarrow> (Inl (RegisterPanicked p), c')
      | Inr short' \<Rightarrow>
     (case RegisterWorkflow ''long'' (Some (long_build released)) long of
        Inl p \<Rightarrow> (Inl (RegisterPanicked p), c')
      | Inr long' \<Rightarrow>
          (Inr \<lparr>be_targets = targets, be_short = short', be_long = long'\<rparr>, c'))))))))"

section \<open>The course of the benchmark\<close>

text \<open>
  The resources: the pool, the two workers, the channel that releases the long claims, and the
  producer.  A worker's exit is the error \<open>StartWorker\<close> returned, and whether it is
  \<open>context.Canceled\<close>.  Closing a channel twice would panic, so \<open>sync.OnceFunc\<close> guards both.
\<close>

datatype worker_exit = ExitNil | ExitCanceled | ExitError string

datatype run_action =
    PoolOpened | PoolClosed | WorkersStarted | ClaimsReleased | WorkersCancelled | WorkerReturned worker_exit
  | ProducerStarted | ProducerStopped | ProducerReturned

record resources =
  rs_trace :: "run_action list"
  rs_released :: bool
  rs_producer_stopped :: bool
  rs_stopped :: nat \<comment> \<open>\<open>stoppedWorkers\<close>\<close>

definition act :: "run_action \<Rightarrow> resources \<Rightarrow> resources" where
  "act a st = st\<lparr>rs_trace := rs_trace st @ [a]\<rparr>"

definition releaseClaim :: "resources \<Rightarrow> resources" where
  "releaseClaim st = (if rs_released st then st else act ClaimsReleased (st\<lparr>rs_released := True\<rparr>))"

definition stopProducer :: "resources \<Rightarrow> resources" where
  "stopProducer st = (if rs_producer_stopped st then st else act ProducerStopped (st\<lparr>rs_producer_stopped := True\<rparr>))"

text \<open>Receiving from the channel of the workers; \<open>exits k\<close> is the \<open>k\<close>-th value on it.\<close>

definition receive_exit :: "(nat \<Rightarrow> worker_exit) \<Rightarrow> resources \<Rightarrow> resources" where
  "receive_exit exits st = (act (WorkerReturned (exits (rs_stopped st))) st)\<lparr>rs_stopped := rs_stopped st + 1\<rparr>"

text \<open>The loop that reports an unexpected exit, and the one of the deferred function.\<close>

function join_workers :: "(nat \<Rightarrow> worker_exit) \<Rightarrow> resources \<Rightarrow> bench_error option \<times> resources" where
  "join_workers exits st =
     (if 2 \<le> rs_stopped st then (None, st)
      else
        (case exits (rs_stopped st) of
           ExitError m \<Rightarrow> (Some (WorkerFailed m), receive_exit exits st)
         | _ \<Rightarrow> join_workers exits (receive_exit exits st)))"
  by pat_completeness auto
termination by (relation "measure (\<lambda>(exits, st). 2 - rs_stopped st)") (auto simp: receive_exit_def)

function drain_workers :: "(nat \<Rightarrow> worker_exit) \<Rightarrow> resources \<Rightarrow> resources" where
  "drain_workers exits st = (if 2 \<le> rs_stopped st then st else drain_workers exits (receive_exit exits st))"
  by pat_completeness auto
termination by (relation "measure (\<lambda>(exits, st). 2 - rs_stopped st)") (auto simp: receive_exit_def)

declare join_workers.simps [simp del] drain_workers.simps [simp del]

text \<open>
  What happens around \<open>run\<close>: the set-up, the insertion of the probes, the calls of the loop over
  the long runs, how many long steps have started at each poll and when that wait expires,
  the milestones, the ticks of the producer until it is stopped and the database it starts on,
  the database at each poll of the last wait and when that expires, and the exits of the workers.
\<close>

record 'raw run_env =
  rv_setup :: setup_env
  rv_probes :: seed_env
  rv_long :: "nat \<Rightarrow> bench_tick"
  rv_started :: "nat \<Rightarrow> int"
  rv_start_expired :: "nat \<Rightarrow> bool"
  rv_stages :: "nat \<Rightarrow> 'raw stage_env"
  rv_ticks :: "bench_tick list"
  rv_polls :: "nat \<Rightarrow> fault \<times> db"
  rv_finish_expired :: "nat \<Rightarrow> bool"
  rv_exits :: "nat \<Rightarrow> worker_exit"

text \<open>The two waits.\<close>

definition await_started :: "'raw run_env \<Rightarrow> int \<Rightarrow> bench_error option option" where
  "await_started env active =
     await ''active long claims'' (\<lambda>k. Inr (rv_started env k = active)) (rv_start_expired env) 0"

definition await_finished :: "'raw run_env \<Rightarrow> int \<Rightarrow> nat \<Rightarrow> bench_error option option" where
  "await_finished env active enqueued =
     await ''all workflows completed'' (\<lambda>k. finish_check (fst (rv_polls env k)) active enqueued (snd (rv_polls env k)))
       (rv_finish_expired env) 0"

text \<open>After the milestones: the producer is stopped and joined, the claims are released, and when all
  runs have completed the workers are cancelled and joined.\<close>

definition run_finish ::
  "pg \<Rightarrow> 'raw run_env \<Rightarrow> int \<Rightarrow> bench \<Rightarrow> db \<Rightarrow> resources \<Rightarrow> (bench_error option \<times> resources) option" where
  "run_finish pg env active b d st =
     (let st = act ProducerReturned (stopProducer st);
          (perr, enqueued, _) = producer pg (be_short b) ''short'' (rv_ticks env) 0 d
      in case perr of
           Some err \<Rightarrow> Some (Some err, st)
         | None \<Rightarrow>
             (let st = releaseClaim st
              in case await_finished env active enqueued of
                   None \<Rightarrow> None
                 | Some (Some err) \<Rightarrow> Some (Some err, st)
                 | Some None \<Rightarrow> Some (join_workers (rv_exits env) (act WorkersCancelled st))))"

text \<open>While the workers run: the producer runs beside the loop over the milestones, and its stop is
  deferred.\<close>

definition run_stages ::
  "pg \<Rightarrow> (string \<Rightarrow> uuid) \<Rightarrow> ('raw \<Rightarrow> string + plan list) \<Rightarrow> 'raw run_env \<Rightarrow> int \<Rightarrow> bench \<Rightarrow> db \<Rightarrow> resources
   \<Rightarrow> (bench_error option \<times> resources) option" where
  "run_stages pg md5 unmarshal env active b d st =
     (case await_started env active of
        None \<Rightarrow> None
      | Some (Some err) \<Rightarrow> Some (Some err, st)
      | Some None \<Rightarrow>
          map_option (apsnd stopProducer)
            (let st = act ProducerStarted st
             in case stage_loop active md5 unmarshal (rv_stages env) 0 (be_targets b) 0 d of
                  (Some err, _, _) \<Rightarrow> Some (Some err, st)
                | (None, _, _) \<Rightarrow> run_finish pg env active b d st))"

text \<open>The deferred function of the workers.\<close>

definition stop_workers :: "(nat \<Rightarrow> worker_exit) \<Rightarrow> resources \<Rightarrow> resources" where
  "stop_workers exits st = drain_workers exits (act WorkersCancelled (releaseClaim st))"

text \<open>From the registration of the workflows on: the probes, the long runs and the workers, with
  \<open>releaseClaim\<close> deferred.\<close>

definition run_bench ::
  "pg \<Rightarrow> (string \<Rightarrow> uuid) \<Rightarrow> ('raw \<Rightarrow> string + plan list) \<Rightarrow> 'raw run_env \<Rightarrow> int \<Rightarrow> bench \<Rightarrow> db \<Rightarrow> resources
   \<Rightarrow> (bench_error option \<times> resources) option" where
  "run_bench pg md5 unmarshal env active b d st =
     map_option (apsnd releaseClaim)
       (case seed_exec (rv_probes env) (insert_probes md5) d of
          (Some err, _) \<Rightarrow> Some (Some err, st)
        | (None, d1) \<Rightarrow>
       (case producer pg (be_long b) ''long'' (map (rv_long env) [0..<nat active]) 0 d1 of
          (Some err, _, _) \<Rightarrow> Some (Some err, st)
        | (None, _, d2) \<Rightarrow>
            map_option (apsnd (stop_workers (rv_exits env)))
              (run_stages pg md5 unmarshal env active b d2 (act WorkersStarted st))))"

definition no_resources :: resources where
  "no_resources = \<lparr>rs_trace = [], rs_released = False, rs_producer_stopped = False, rs_stopped = 0\<rparr>"

text \<open>\<open>run\<close>, with the closing of the pool deferred; the value is the error and the trace, or \<^term>\<open>None\<close> if it
  does not return.\<close>

definition run ::
  "int \<Rightarrow> string \<Rightarrow> string \<Rightarrow> (world \<Rightarrow> bool) \<Rightarrow> pg \<Rightarrow> (string \<Rightarrow> uuid) \<Rightarrow> ('raw \<Rightarrow> string + plan list) \<Rightarrow> 'raw run_env
   \<Rightarrow> bench_flags \<Rightarrow> catalog \<Rightarrow> db \<Rightarrow> (bench_error option \<times> run_action list) option" where
  "run procs wid1 wid2 released pg md5 unmarshal env fl c d =
     (case bench_targets fl of
        Inl err \<Rightarrow> Some (Some err, [])
      | Inr targets \<Rightarrow>
     (case su_open (rv_setup env) of
        Some err \<Rightarrow> Some (Some (QueryFailed err), [])
      | None \<Rightarrow>
          map_option (\<lambda>(r, st). (r, rs_trace (act PoolClosed st)))
            (case bench_setup procs wid1 wid2 released (rv_setup env) fl targets c of
               (Inl err, _) \<Rightarrow> Some (Some err, act PoolOpened no_resources)
             | (Inr b, _) \<Rightarrow> run_bench pg md5 unmarshal env (bf_active fl) b d (act PoolOpened no_resources))))"

text \<open>\<open>main\<close>: an error ends the process with the exit status of \<open>log.Fatal\<close>.\<close>

definition main_status :: "bench_error option \<Rightarrow> nat" where
  "main_status r = (if r = None then 0 else 1)"

section \<open>Facts about the set-up\<close>

lemma bench_New:
  assumes "0 < concurrency" "TrimSpace q = q" "q \<noteq> ''''"
  shows "\<exists>e. New procs wid (bench_config q concurrency) = Inr e \<and> e_schema e = ''growthbench'' \<and> e_queue e = q
    \<and> e_maxConcurrency e = concurrency \<and> e_workflows e = Map.empty"
proof -
  have "identPattern ''growthbench''" by code_simp
  then show ?thesis using assms
    by (simp add: New_def bench_config_def text_or_def positive_or_def maxSchemaLength_def defaultLeaseTTL_def
      defaultHeartbeatInterval_def duration_units Let_def)
qed

lemma bench_Register:
  assumes "e_workflows e = Map.empty" "TrimSpace name = name" "name \<noteq> ''''"
  shows "\<exists>cw. RegisterWorkflow name (Some [CStep ''process'' (Some fn) []]) e
      = Inr (e\<lparr>e_workflows := [(name, 1) \<mapsto> cw]\<rparr>) \<and> cw_name cw = name"
proof -
  have "TrimSpace ''process'' = ''process''" by code_simp
  then have "\<exists>cw. compileWorkflow (Some (DefineWorkflow name (Some [CStep ''process'' (Some fn) []]))) = Inr cw
      \<and> cw_name cw = name \<and> cw_version cw = 1"
    using assms(2,3) by (simp add: compileWorkflow_def DefineWorkflow_def DefineWorkflowVersion_def
      Step_def addName_def empty_builder_def Let_def)
  then show ?thesis using assms(1) by (auto simp: RegisterWorkflow_def Register_def)
qed

definition calm_setup :: "setup_env \<Rightarrow> bool" where
  "calm_setup env \<longleftrightarrow> su_open env = None \<and> su_ping env = None \<and> su_lookup env = None \<and> su_extension env = None
     \<and> su_tuning env = None \<and> (\<exists>version \<ge> 180000. su_version env = Inr version) \<and> calm_schema (su_schema env)"

text \<open>With legal flags and milestones, a recent server and no schema of that name, the set-up succeeds
  unless the database fails: the schema is complete, and each engine has its workflow
  and its concurrency.\<close>

lemma bench_setup_succeeds:
  assumes "flags_ok fl" "calm_setup env"
    and "ca_relations c ''growthbench'' = None" "ca_versions c ''growthbench'' = []"
  shows "\<exists>b c'. bench_setup procs wid1 wid2 released env fl targets c = (Inr b, c') \<and> complete c' ''growthbench''
    \<and> be_targets b = targets \<and> e_maxConcurrency (be_long b) = bf_active fl
    \<and> (\<exists>cw. latestWorkflow [(''short'', 1)] (be_short b) ''short'' = Some cw \<and> cw_name cw = ''short'')
    \<and> (\<exists>cw. latestWorkflow [(''long'', 1)] (be_long b) ''long'' = Some cw \<and> cw_name cw = ''long'')"
proof -
  have names: "TrimSpace ''short'' = ''short''" "TrimSpace ''long'' = ''long''" by code_simp+
  have act: "0 < bf_active fl" using assms(1) by (simp add: flags_ok_def)
  obtain short where short: "New procs wid1 (bench_config ''short'' 8) = Inr short" "e_schema short = ''growthbench''"
    "e_workflows short = Map.empty" using bench_New [of 8 "''short''"] names by auto
  obtain long where long: "New procs wid2 (bench_config ''long'' (bf_active fl)) = Inr long"
    "e_maxConcurrency long = bf_active fl" "e_workflows long = Map.empty"
    using bench_New [OF act, of "''long''"] names by auto
  have vac: "vacant c ''growthbench''" using assms(3,4) by (simp add: vacant_def)
  obtain r c' where app: "ApplySchema (su_schema env) short c = (r, c')" by fastforce
  have r: "r = None" "complete c' ''growthbench''"
    using ApplySchema_call(3,4) [OF app, of "''growthbench''"] vac short(2) assms(2) by (auto simp: calm_setup_def)
  obtain short' cs where short': "RegisterWorkflow ''short'' (Some short_build) short = Inr short'"
    "short' = short\<lparr>e_workflows := [(''short'', 1) \<mapsto> cs]\<rparr>" "cw_name cs = ''short''"
    using bench_Register [OF short(3) names(1), of "\<lambda>w sc. FnReturn (Marshalled (JBool True))"]
    unfolding short_build_def by auto
  obtain long' cl where long': "RegisterWorkflow ''long'' (Some (long_build released)) long = Inr long'"
    "long' = long\<lparr>e_workflows := [(''long'', 1) \<mapsto> cl]\<rparr>" "cw_name cl = ''long''"
    using bench_Register [OF long(3) names(2),
        of "\<lambda>w sc. if released w then FnReturn (Marshalled (JBool True)) else FnError ''context canceled''"]
    unfolding long_build_def by auto
  have "bench_setup procs wid1 wid2 released env fl targets c
      = (Inr \<lparr>be_targets = targets, be_short = short', be_long = long'\<rparr>, c')"
    using assms(2,3) app r(1)
    by (auto simp: bench_setup_def check_server_def tune_server_def calm_setup_def short(1) long(1) short'(1) long'(1))
  then show ?thesis using r(2) long(2) short'(2,3) long'(2,3) by (simp add: latestWorkflow_def)
qed

section \<open>Facts about the resources\<close>

text \<open>A worker is joined only after the long claims were released and the workers cancelled, so the
  receive waits for a worker that is shutting down.\<close>

definition joined_after :: "run_action list \<Rightarrow> bool" where
  "joined_after tr \<longleftrightarrow> (\<forall>a e b. tr = a @ WorkerReturned e # b \<longrightarrow> ClaimsReleased \<in> set a \<and> WorkersCancelled \<in> set a)"

fun exit_of :: "run_action \<Rightarrow> worker_exit option" where
  "exit_of (WorkerReturned e) = Some e"
| "exit_of _ = None"

definition tidy :: "(nat \<Rightarrow> worker_exit) \<Rightarrow> resources \<Rightarrow> bool" where
  "tidy exits st \<longleftrightarrow>
     joined_after (rs_trace st)
   \<and> count_list (rs_trace st) ClaimsReleased = of_bool (rs_released st)
   \<and> count_list (rs_trace st) ProducerStopped = of_bool (rs_producer_stopped st)
   \<and> List.map_filter exit_of (rs_trace st) = map exits [0..<rs_stopped st] \<and> rs_stopped st \<le> 2"

lemma joined_after_snoc:
  "joined_after (tr @ [x]) \<longleftrightarrow>
     joined_after tr \<and> (exit_of x \<noteq> None \<longrightarrow> ClaimsReleased \<in> set tr \<and> WorkersCancelled \<in> set tr)"
proof -
  have "tr @ [x] = a @ y # b \<longleftrightarrow> b = [] \<and> tr = a \<and> x = y \<or> (\<exists>b'. b = b' @ [x] \<and> tr = a @ y # b')" for a y b
    by (cases b rule: rev_cases) auto
  then show ?thesis unfolding joined_after_def by (cases x) (simp_all, blast+)
qed

lemma joined_after_Nil [simp]: "joined_after []"
  by (simp add: joined_after_def)

lemma act_simps [simp]:
  "rs_trace (act a st) = rs_trace st @ [a]" "rs_released (act a st) = rs_released st"
  "rs_producer_stopped (act a st) = rs_producer_stopped st" "rs_stopped (act a st) = rs_stopped st"
  by (simp_all add: act_def)

lemma tidy_act:
  "tidy exits st \<Longrightarrow> exit_of a = None \<Longrightarrow> a \<noteq> ClaimsReleased \<Longrightarrow> a \<noteq> ProducerStopped \<Longrightarrow> tidy exits (act a st)"
  by (simp add: tidy_def joined_after_snoc map_filter_append List.map_filter_simps)

lemma tidy_once [simp]:
  "tidy exits st \<Longrightarrow> tidy exits (releaseClaim st)" "tidy exits st \<Longrightarrow> tidy exits (stopProducer st)"
  by (auto simp: tidy_def releaseClaim_def stopProducer_def joined_after_snoc map_filter_append List.map_filter_simps)

lemma once_trace [simp]:
  "set (rs_trace (releaseClaim st)) = set (rs_trace st) \<union> (if rs_released st then {} else {ClaimsReleased})"
  "set (rs_trace (stopProducer st)) = set (rs_trace st) \<union> (if rs_producer_stopped st then {} else {ProducerStopped})"
  "rs_stopped (releaseClaim st) = rs_stopped st" "rs_stopped (stopProducer st) = rs_stopped st"
  "rs_released (releaseClaim st)" "rs_producer_stopped (stopProducer st)"
  "rs_producer_stopped (releaseClaim st) = rs_producer_stopped st" "rs_released (stopProducer st) = rs_released st"
  by (auto simp: releaseClaim_def stopProducer_def)

lemma tidy_flags:
  assumes "tidy exits st"
  shows "ClaimsReleased \<in> set (rs_trace st) \<longleftrightarrow> rs_released st"
    and "ProducerStopped \<in> set (rs_trace st) \<longleftrightarrow> rs_producer_stopped st"
  using assms count_list_0_iff [of "rs_trace st" ClaimsReleased] count_list_0_iff [of "rs_trace st" ProducerStopped]
  by (auto simp: tidy_def of_bool_def split: if_splits)

text \<open>The workers can be joined.\<close>

definition stopping :: "resources \<Rightarrow> bool" where
  "stopping st \<longleftrightarrow> ClaimsReleased \<in> set (rs_trace st) \<and> WorkersCancelled \<in> set (rs_trace st)"

lemma receive_exit_tidy:
  assumes "tidy exits st" "stopping st" "rs_stopped st < 2"
  shows "tidy exits (receive_exit exits st)" "stopping (receive_exit exits st)"
    "set (rs_trace st) \<subseteq> set (rs_trace (receive_exit exits st))"
    "rs_producer_stopped (receive_exit exits st) = rs_producer_stopped st"
    "rs_stopped (receive_exit exits st) = Suc (rs_stopped st)"
    "ProducerStarted \<in> set (rs_trace (receive_exit exits st)) \<longleftrightarrow> ProducerStarted \<in> set (rs_trace st)"
  using assms
  by (auto simp: tidy_def stopping_def receive_exit_def joined_after_snoc map_filter_append List.map_filter_simps)

lemma drain_workers_tidy:
  assumes "tidy exits st" "stopping st"
  shows "tidy exits (drain_workers exits st) \<and> rs_stopped (drain_workers exits st) = 2
    \<and> set (rs_trace st) \<subseteq> set (rs_trace (drain_workers exits st))
    \<and> rs_producer_stopped (drain_workers exits st) = rs_producer_stopped st
    \<and> (ProducerStarted \<in> set (rs_trace (drain_workers exits st)) \<longleftrightarrow> ProducerStarted \<in> set (rs_trace st))"
  using assms
proof (induction exits st rule: drain_workers.induct)
  case (1 exits st)
  show ?case
  proof (cases "2 \<le> rs_stopped st")
    case True
    then have "drain_workers exits st = st" by (simp add: drain_workers.simps)
    then show ?thesis using 1(2) True by (simp add: tidy_def)
  next
    case False
    then have "drain_workers exits st = drain_workers exits (receive_exit exits st)" by (subst drain_workers.simps) simp
    moreover note receive_exit_tidy [OF 1(2,3)]
    ultimately show ?thesis using 1(1) [OF False] False by auto
  qed
qed

lemma join_workers_tidy:
  assumes "tidy exits st" "stopping st" "join_workers exits st = (r, st')"
  shows "tidy exits st' \<and> set (rs_trace st) \<subseteq> set (rs_trace st') \<and> rs_producer_stopped st' = rs_producer_stopped st
    \<and> (r = None \<longrightarrow> (\<forall>k. rs_stopped st \<le> k \<longrightarrow> k < 2 \<longrightarrow> (\<forall>m. exits k \<noteq> ExitError m)))"
  using assms
proof (induction exits st arbitrary: r st' rule: join_workers.induct)
  case (1 exits st)
  show ?case
  proof (cases "2 \<le> rs_stopped st")
    case True
    then show ?thesis using "1.prems" by (simp add: join_workers.simps [of exits st])
  next
    case False
    then have recv: "tidy exits (receive_exit exits st)" "stopping (receive_exit exits st)"
      "set (rs_trace st) \<subseteq> set (rs_trace (receive_exit exits st))"
      "rs_producer_stopped (receive_exit exits st) = rs_producer_stopped st"
      "rs_stopped (receive_exit exits st) = Suc (rs_stopped st)"
      using receive_exit_tidy [OF "1.prems"(1,2)] by simp_all
    show ?thesis
    proof (cases "\<exists>m. exits (rs_stopped st) = ExitError m")
      case True
      then show ?thesis using "1.prems"(3) recv False by (auto simp: join_workers.simps [of exits st])
    next
      case ok: False
      then have next_step: "join_workers exits (receive_exit exits st) = (r, st')"
        using "1.prems"(3) False by (cases "exits (rs_stopped st)") (simp_all add: join_workers.simps [of exits st])
      have rest: "tidy exits st' \<and> set (rs_trace (receive_exit exits st)) \<subseteq> set (rs_trace st')
          \<and> rs_producer_stopped st' = rs_producer_stopped (receive_exit exits st)
          \<and> (r = None \<longrightarrow> (\<forall>k. rs_stopped (receive_exit exits st) \<le> k \<longrightarrow> k < 2 \<longrightarrow> (\<forall>m. exits k \<noteq> ExitError m)))"
        using "1.IH"(1) [OF False _ recv(1,2) next_step] "1.IH"(2) [OF False _ recv(1,2) next_step] ok
        by (cases "exits (rs_stopped st)") blast+
      have "exits k \<noteq> ExitError m" if "r = None" "rs_stopped st \<le> k" "k < 2" for k m
        using rest that ok recv(5) by (cases "k = rs_stopped st") simp_all
      then show ?thesis using rest recv(3,4) by (metis subset_trans)
    qed
  qed
qed

section \<open>The outcome of the benchmark\<close>

lemma producer_all: "producer pg e name ts n d = (None, m, d') \<Longrightarrow> m = n + length ts"
  by (induction ts arbitrary: n d) (fastforce split: sum.splits prod.splits)+

text \<open>A phase that started on \<open>st\<close> and ended with \<open>r\<close> and \<open>st'\<close>.\<close>

definition phase_ok :: "'raw run_env \<Rightarrow> int \<Rightarrow> resources \<Rightarrow> bench_error option \<Rightarrow> resources \<Rightarrow> bool" where
  "phase_ok env active st r st' \<longleftrightarrow>
     tidy (rv_exits env) st' \<and> set (rs_trace st) \<subseteq> set (rs_trace st')
   \<and> (ProducerStarted \<in> set (rs_trace st') \<longrightarrow> rs_producer_stopped st')
   \<and> (r = None \<longrightarrow>
        (\<exists>k. finish_check (fst (rv_polls env k)) active (length (rv_ticks env)) (snd (rv_polls env k)) = Inr True)
      \<and> (\<forall>k < 2. \<forall>m. rv_exits env k \<noteq> ExitError m))"

text \<open>Both waits have a time limit.\<close>

definition waits_expire :: "'raw run_env \<Rightarrow> bool" where
  "waits_expire env \<longleftrightarrow> (\<exists>n. rv_start_expired env n) \<and> (\<exists>n. rv_finish_expired env n)"

lemma waits_return:
  assumes "waits_expire env"
  shows "\<exists>r. await_started env active = Some r"
    and "\<exists>r. await_finished env active enqueued = Some r \<and> (r = None \<longrightarrow>
      (\<exists>k. finish_check (fst (rv_polls env k)) active enqueued (snd (rv_polls env k)) = Inr True))"
proof -
  obtain n m where n: "rv_start_expired env n" and m: "rv_finish_expired env m" using assms by (auto simp: waits_expire_def)
  show "\<exists>r. await_started env active = Some r" unfolding await_started_def using await_returns [of "rv_start_expired env" n] n by blast
  show "\<exists>r. await_finished env active enqueued = Some r \<and> (r = None \<longrightarrow>
      (\<exists>k. finish_check (fst (rv_polls env k)) active enqueued (snd (rv_polls env k)) = Inr True))"
    unfolding await_finished_def using await_returns [of "rv_finish_expired env" m] m by blast
qed

lemma run_finish_ok:
  assumes "waits_expire env" "tidy (rv_exits env) st" "rs_stopped st = 0"
  shows "\<exists>r st'. run_finish pg env active b d st = Some (r, st') \<and> phase_ok env active st r st'"
proof -
  let ?st1 = "act ProducerReturned (stopProducer st)"
  let ?st2 = "releaseClaim ?st1"
  let ?st3 = "act WorkersCancelled ?st2"
  have t1: "tidy (rv_exits env) ?st1" using assms(2) by (simp add: tidy_act)
  then have t3: "tidy (rv_exits env) ?st3" by (simp add: tidy_act)
  have released: "ClaimsReleased \<in> set (rs_trace ?st2)" using t1 tidy_flags(1) [of "rv_exits env" ?st2] by simp
  have sub: "set (rs_trace st) \<subseteq> set (rs_trace ?st1)" "set (rs_trace ?st1) \<subseteq> set (rs_trace ?st3)" by auto
  obtain perr enqueued d' where prod: "producer pg (be_short b) ''short'' (rv_ticks env) 0 d = (perr, enqueued, d')" by (rule prod_cases3)
  show ?thesis
  proof (cases perr)
    case (Some err)
    then have "run_finish pg env active b d st = Some (Some err, ?st1)" by (simp add: run_finish_def prod Let_def)
    moreover have "phase_ok env active st (Some err) ?st1" using t1 sub(1) by (simp add: phase_ok_def)
    ultimately show ?thesis by blast
  next
    case None
    obtain r where r: "await_finished env active enqueued = Some r" "r = None \<longrightarrow>
      (\<exists>k. finish_check (fst (rv_polls env k)) active enqueued (snd (rv_polls env k)) = Inr True)"
      using waits_return(2) [OF assms(1)] by blast
    have n: "enqueued = length (rv_ticks env)" using producer_all prod None by fastforce
    show ?thesis
    proof (cases r)
      case (Some err)
      then have "run_finish pg env active b d st = Some (Some err, ?st2)" by (simp add: run_finish_def prod Let_def None r(1))
      moreover have "phase_ok env active st (Some err) ?st2" using t1 sub(1) by (auto simp: phase_ok_def)
      ultimately show ?thesis by blast
    next
      case ok: None
      obtain r' st' where j: "join_workers (rv_exits env) ?st3 = (r', st')" by fastforce
      have "stopping ?st3" using released by (simp add: stopping_def)
      note join_workers_tidy [OF t3 this j]
      moreover have "run_finish pg env active b d st = Some (r', st')" by (simp add: run_finish_def prod Let_def None r(1) ok j)
      ultimately show ?thesis
        using r(2) ok n sub assms(3) by (intro exI [of _ r'] exI [of _ st']) (auto simp: phase_ok_def)
    qed
  qed
qed

lemma run_stages_ok:
  assumes "waits_expire env" "tidy (rv_exits env) st" "rs_stopped st = 0" "ProducerStarted \<notin> set (rs_trace st)"
  shows "\<exists>r st'. run_stages pg md5 unmarshal env active b d st = Some (r, st') \<and> phase_ok env active st r st'"
proof -
  let ?st1 = "act ProducerStarted st"
  have t1: "tidy (rv_exits env) ?st1" using assms(2) by (simp add: tidy_act)
  obtain r where r: "await_started env active = Some r" using waits_return(1) [OF assms(1)] by blast
  obtain s ms d' where loop: "stage_loop active md5 unmarshal (rv_stages env) 0 (be_targets b) 0 d = (s, ms, d')" by (rule prod_cases3)
  show ?thesis
  proof (cases r)
    case (Some err)
    then have "run_stages pg md5 unmarshal env active b d st = Some (Some err, st)" by (simp add: run_stages_def r)
    moreover have "phase_ok env active st (Some err) st" using assms(2,4) by (simp add: phase_ok_def)
    ultimately show ?thesis by blast
  next
    case started: None
    show ?thesis
    proof (cases s)
      case (Some err)
      then have "run_stages pg md5 unmarshal env active b d st = Some (Some err, stopProducer ?st1)"
        by (simp add: run_stages_def r started loop Let_def)
      moreover have "phase_ok env active st (Some err) (stopProducer ?st1)" using t1 by (auto simp: phase_ok_def)
      ultimately show ?thesis by blast
    next
      case None
      obtain r' st' where fin: "run_finish pg env active b d ?st1 = Some (r', st')" "phase_ok env active ?st1 r' st'"
        using run_finish_ok [OF assms(1) t1, of pg active b d] assms(3) by (simp, elim exE conjE)
      have "run_stages pg md5 unmarshal env active b d st = Some (r', stopProducer st')"
        by (simp add: run_stages_def r started loop Let_def None fin(1))
      moreover have "phase_ok env active st r' (stopProducer st')" using fin(2) by (auto simp: phase_ok_def)
      ultimately show ?thesis by blast
    qed
  qed
qed

lemma stop_workers_tidy:
  assumes "tidy exits st"
  shows "tidy exits (stop_workers exits st)" "rs_stopped (stop_workers exits st) = 2"
    "set (rs_trace st) \<subseteq> set (rs_trace (stop_workers exits st))"
    "rs_producer_stopped (stop_workers exits st) = rs_producer_stopped st"
    "ProducerStarted \<in> set (rs_trace (stop_workers exits st)) \<longleftrightarrow> ProducerStarted \<in> set (rs_trace st)"
proof -
  let ?st = "act WorkersCancelled (releaseClaim st)"
  have t: "tidy exits ?st" using assms by (simp add: tidy_act)
  have "stopping ?st" using tidy_flags(1) [OF tidy_once(1) [OF assms]] by (simp add: stopping_def)
  note d = drain_workers_tidy [OF t this]
  show "tidy exits (stop_workers exits st)" "rs_stopped (stop_workers exits st) = 2"
    "set (rs_trace st) \<subseteq> set (rs_trace (stop_workers exits st))"
    "rs_producer_stopped (stop_workers exits st) = rs_producer_stopped st"
    "ProducerStarted \<in> set (rs_trace (stop_workers exits st)) \<longleftrightarrow> ProducerStarted \<in> set (rs_trace st)"
    using d by (auto simp: stop_workers_def)
qed

text \<open>The trace that \<open>run\<close> leaves.\<close>

definition clean :: "(nat \<Rightarrow> worker_exit) \<Rightarrow> run_action list \<Rightarrow> bool" where
  "clean exits tr \<longleftrightarrow>
     joined_after tr \<and> count_list tr ClaimsReleased \<le> 1 \<and> count_list tr ProducerStopped \<le> 1
   \<and> (ProducerStarted \<in> set tr \<longrightarrow> ProducerStopped \<in> set tr)
   \<and> (WorkersStarted \<in> set tr \<longrightarrow> List.map_filter exit_of tr = [exits 0, exits 1])
   \<and> (tr = [] \<or> last tr = PoolClosed)"

lemma tidy_clean:
  assumes "tidy exits st" "ProducerStarted \<in> set (rs_trace st) \<longrightarrow> rs_producer_stopped st"
    and "WorkersStarted \<in> set (rs_trace st) \<longrightarrow> rs_stopped st = 2"
  shows "clean exits (rs_trace (act PoolClosed st))"
proof -
  have "ProducerStarted \<in> set (rs_trace st) \<longrightarrow> ProducerStopped \<in> set (rs_trace st)"
    using assms(1,2) tidy_flags(2) by blast
  moreover have "List.map_filter exit_of (rs_trace st) = [exits 0, exits 1]" if "rs_stopped st = 2"
    using assms(1) that by (simp add: tidy_def numeral_2_eq_2)
  ultimately show ?thesis
    using assms by (auto simp: clean_def tidy_def joined_after_snoc map_filter_append List.map_filter_simps)
qed

lemma run_bench_ok:
  assumes "waits_expire env" "tidy (rv_exits env) st" "rs_stopped st = 0" "set (rs_trace st) \<subseteq> {PoolOpened}"
  shows "\<exists>r st'. run_bench pg md5 unmarshal env active b d st = Some (r, st') \<and> phase_ok env active st r st'
    \<and> (WorkersStarted \<in> set (rs_trace st') \<longrightarrow> rs_stopped st' = 2)"
proof -
  obtain perr d1 where probes: "seed_exec (rv_probes env) (insert_probes md5) d = (perr, d1)" by fastforce
  obtain lerr n d2 where long: "producer pg (be_long b) ''long'' (map (rv_long env) [0..<nat active]) 0 d1 = (lerr, n, d2)" by (rule prod_cases3)
  show ?thesis
  proof (cases "perr = None \<and> lerr = None")
    case False
    then have "\<exists>err. run_bench pg md5 unmarshal env active b d st = Some (Some err, releaseClaim st)"
      by (cases perr; cases lerr) (simp_all add: run_bench_def probes long)
    moreover have "phase_ok env active st (Some err) (releaseClaim st)" for err
      using assms(2,4) by (auto simp: phase_ok_def)
    moreover have "WorkersStarted \<notin> set (rs_trace (releaseClaim st))" using assms(4) by auto
    ultimately show ?thesis by blast
  next
    case True
    let ?st1 = "act WorkersStarted st"
    have t1: "tidy (rv_exits env) ?st1" using assms(2) by (simp add: tidy_act)
    obtain r st' where ph: "run_stages pg md5 unmarshal env active b d2 ?st1 = Some (r, st')" "phase_ok env active ?st1 r st'"
      using run_stages_ok [OF assms(1) t1, of pg md5 unmarshal active b d2] assms(3,4) by auto
    have "tidy (rv_exits env) st'" using ph(2) by (simp add: phase_ok_def)
    note stop = stop_workers_tidy [OF this]
    have "run_bench pg md5 unmarshal env active b d st = Some (r, releaseClaim (stop_workers (rv_exits env) st'))"
      using True by (simp add: run_bench_def probes long ph(1))
    moreover have "phase_ok env active st r (releaseClaim (stop_workers (rv_exits env) st'))"
      using ph(2) stop by (auto simp: phase_ok_def)
    moreover have "rs_stopped (releaseClaim (stop_workers (rv_exits env) st')) = 2" using stop(2) by simp
    ultimately show ?thesis by blast
  qed
qed

lemma no_resources_tidy: "tidy exits (act PoolOpened no_resources)" "rs_stopped (act PoolOpened no_resources) = 0"
  "set (rs_trace (act PoolOpened no_resources)) \<subseteq> {PoolOpened}"
  using joined_after_snoc [of "[]" PoolOpened]
  by (simp_all add: no_resources_def tidy_def List.map_filter_simps)


definition demo_flags :: bench_flags where
  "demo_flags = \<lparr>bf_url = ''postgres://bench'', bf_profile = ''default'', bf_history = ''0,1'', bf_stage = 30 * Second,
     bf_rate = 100, bf_active = 1\<rparr>"

definition demo_tick :: bench_tick where
  "demo_tick = \<lparr>bt_others = (\<lambda>d. d), bt_fault = NoFault, bt_now = 0, bt_order = [(''long'', 1)], bt_fresh = ''r1''\<rparr>"

text \<open>The long claim never starts, so the first wait expires after its second poll.\<close>

definition demo_run_env :: "unit run_env" where
  "demo_run_env = \<lparr>
     rv_setup = \<lparr>su_open = None, su_ping = None, su_version = Inr 180001, su_lookup = None, su_schema = calm_env,
       su_extension = None, su_tuning = None\<rparr>,
     rv_probes = demo_seed_env, rv_long = (\<lambda>_. demo_tick), rv_started = (\<lambda>_. 0), rv_start_expired = (\<lambda>k. k = 1),
     rv_stages = undefined, rv_ticks = [], rv_polls = (\<lambda>_. (NoFault, empty_db)), rv_finish_expired = (\<lambda>k. k = 1),
     rv_exits = (\<lambda>k. if k = 0 then ExitNil else ExitCanceled)\<rparr>"

lemma demo_waits: "waits_expire demo_run_env"
  by (simp add: waits_expire_def demo_run_env_def)

declare await.simps [code]


end
