(* ===== verification/Run_Uuid.thy ===== *)
theory Run_Uuid
  imports Durable_Prelude "HOL-Library.Word"
begin

unbundle bit_operations_syntax

text \<open>
  The model of \<open>newUUID\<close> in \<open>engine.go\<close>, which makes run and worker identifiers: 16 random
  bytes whose first six are overwritten by the time in milliseconds, with the version and
  variant bits of RFC 9562, printed in the canonical form.  Bytes are \<^typ>\<open>8 word\<close>s and the
  time is a \<^typ>\<open>64 word\<close>, as in the source.  The lemmas show the printed form, that the
  text determines the bytes, and that identifiers drawn later sort later.
\<close>

section \<open>Definitions\<close>

type_synonym u8 = "8 word"
type_synonym u64 = "64 word"

text \<open>\<open>byte(ms >> n)\<close>.\<close>

definition time_byte :: "nat \<Rightarrow> u64 \<Rightarrow> u8" where
  "time_byte n ms = ucast (drop_bit n ms)"

definition uuid_bytes :: "u64 \<Rightarrow> u8 list \<Rightarrow> u8 list" where
  "uuid_bytes ms b0 =
     (let b1 = b0[0 := time_byte 40 ms, 1 := time_byte 32 ms, 2 := time_byte 24 ms];
          b2 = b1[3 := time_byte 16 ms, 4 := time_byte 8 ms, 5 := time_byte 0 ms];
          b3 = b2[6 := (b2 ! 6 AND 0x0F) OR 0x70]
      in b3[8 := (b3 ! 8 AND 0x3F) OR 0x80])"

definition hextable :: string where "hextable = ''0123456789abcdef''"

text \<open>\<open>hex.Encode\<close>.\<close>

fun hexEncode :: "u8 list \<Rightarrow> string" where
  "hexEncode [] = []"
| "hexEncode (b # bs) = hextable ! unat (drop_bit 4 b) # hextable ! unat (b AND 0x0F) # hexEncode bs"

definition slice :: "nat \<Rightarrow> nat \<Rightarrow> 'a list \<Rightarrow> 'a list" where
  "slice i j xs = take (j - i) (drop i xs)"

definition uuid_text :: "u8 list \<Rightarrow> string" where
  "uuid_text b =
     hexEncode (slice 0 4 b) @ ''-'' @ hexEncode (slice 4 6 b) @ ''-'' @ hexEncode (slice 6 8 b)
     @ ''-'' @ hexEncode (slice 8 10 b) @ ''-'' @ hexEncode (slice 10 16 b)"

text \<open>\<open>rand.Read\<close> fills 16 bytes or fails, which panics.\<close>

definition newUUID :: "u8 list option \<Rightarrow> u64 \<Rightarrow> string option" where
  "newUUID rnd ms = map_option (\<lambda>b. uuid_text (uuid_bytes ms b)) rnd"

section \<open>Hexadecimal text\<close>

lemma nibbles: "unat (drop_bit 4 b) = unat b div 16" "unat (b AND 0x0F) = unat b mod 16" for b :: u8
proof -
  show "unat (drop_bit 4 b) = unat b div 16" by (simp add: drop_bit_eq_div unat_div)
  have "b AND 0x0F = take_bit 4 b" by (simp add: take_bit_eq_mask mask_eq_exp_minus_1)
  then show "unat (b AND 0x0F) = unat b mod 16" by (simp add: take_bit_eq_mod unat_mod)
qed

lemma unat_u8: "unat b < 256" for b :: u8
  using unsigned_less [of b] by simp

definition nibble_of :: "char \<Rightarrow> nat" where
  "nibble_of c = (if of_char c < (58 :: nat) then of_char c - 48 else of_char c - 87)"

lemma hextable_nth: "n < 16 \<Longrightarrow> nibble_of (hextable ! n) = n"
proof -
  have "\<forall>n \<in> set [0..<16]. nibble_of (hextable ! n) = n" by code_simp
  then show "n < 16 \<Longrightarrow> nibble_of (hextable ! n) = n" by simp
qed

lemma hextable_mono: "m < n \<Longrightarrow> n < 16 \<Longrightarrow> hextable ! m < hextable ! n"
proof -
  have "\<forall>n \<in> set [0..<16]. \<forall>m \<in> set [0..<n]. hextable ! m < hextable ! n" by code_simp
  then show "m < n \<Longrightarrow> n < 16 \<Longrightarrow> hextable ! m < hextable ! n" by simp
qed

lemma hex_digit_less:
  fixes a b :: u8
  assumes "a < b"
  shows "hexEncode [a] < hexEncode [b]"
proof -
  have ab: "unat a < unat b" using assms by (simp add: word_less_nat_alt)
  have le: "unat a div 16 \<le> unat b div 16" using ab by (intro div_le_mono) simp
  show ?thesis
  proof (cases "unat a div 16 = unat b div 16")
    case True
    then have "unat a mod 16 < unat b mod 16" using ab by (metis add_less_cancel_left div_mult_mod_eq)
    with True show ?thesis by (simp add: nibbles hextable_mono)
  next
    case False
    with le have "unat a div 16 < unat b div 16" by simp
    moreover have "unat b div 16 < 16" using unat_u8 [of b] by simp
    ultimately show ?thesis by (simp add: nibbles hextable_mono)
  qed
qed

lemma list_less_append:
  fixes xs ys :: "'a :: order list"
  assumes "xs < ys" "length xs = length ys"
  shows "xs @ us < ys @ vs"
  using assms
  unfolding list_less_def by (simp add: lexord_sufI)

lemma list_less_prefix: "us < vs \<Longrightarrow> xs @ us < xs @ vs" for xs :: "'a :: order list"
  by (induction xs) auto

lemma length_hexEncode [simp]: "length (hexEncode bs) = 2 * length bs"
  by (induction bs) auto

lemma hexEncode_append [simp]: "hexEncode (as @ bs) = hexEncode as @ hexEncode bs"
  by (induction as) auto

lemma hexEncode_less: "as < bs \<Longrightarrow> length as = length bs \<Longrightarrow> hexEncode as < hexEncode bs"
proof (induction as arbitrary: bs)
  case Nil
  then show ?case by simp
next
  case (Cons a as)
  then obtain b bs' where bs: "bs = b # bs'" "length as = length bs'" by (cases bs) auto
  with Cons.prems consider "a < b" | "a = b" "as < bs'" by auto
  then show ?case
  proof cases
    case 1
    then have "hexEncode [a] @ hexEncode as < hexEncode [b] @ hexEncode bs'"
      by (intro list_less_append hex_digit_less) simp_all
    then show ?thesis by (simp add: bs)
  next
    case 2
    then have "hexEncode as < hexEncode bs'" using Cons.IH bs(2) by blast
    then have "hexEncode [a] @ hexEncode as < hexEncode [a] @ hexEncode bs'" by (rule list_less_prefix)
    then show ?thesis by (simp add: bs 2)
  qed
qed

lemma hexEncode_chars: "list_all (\<lambda>c. c \<in> set hextable) (hexEncode bs)"
proof (induction bs)
  case (Cons b bs)
  have "length hextable = 16" by (simp add: hextable_def)
  then show ?case
    using Cons unat_u8 [of b] by (simp add: nibbles)
qed simp

section \<open>The bytes\<close>

lemma unat_time_byte: "unat (time_byte n ms) = unat ms div 2 ^ n mod 256"
proof -
  have "unat ms < 2 ^ LENGTH(64)" by (rule unsigned_less)
  then show ?thesis
    unfolding time_byte_def unsigned_ucast_eq unsigned_drop_bit_eq
    by (simp add: drop_bit_eq_div take_bit_eq_mod)
qed

lemma list16: "length b = 16 \<Longrightarrow> \<exists>x0 x1 x2 x3 x4 x5 x6 x7 x8 x9 x10 x11 x12 x13 x14 x15.
    b = [x0, x1, x2, x3, x4, x5, x6, x7, x8, x9, x10, x11, x12, x13, x14, x15]"
  by (auto simp: numeral_eq_Suc length_Suc_conv)

lemma uuid_text_bytes:
  assumes "length b = 16"
  shows "uuid_text (uuid_bytes ms b) =
    hexEncode [time_byte 40 ms, time_byte 32 ms, time_byte 24 ms, time_byte 16 ms] @ ''-''
    @ hexEncode [time_byte 8 ms, time_byte 0 ms] @ ''-''
    @ hexEncode [(b ! 6 AND 0x0F) OR 0x70, b ! 7] @ ''-''
    @ hexEncode [(b ! 8 AND 0x3F) OR 0x80, b ! 9] @ ''-'' @ hexEncode (drop 10 b)"
  using list16 [OF assms] by (auto simp: uuid_text_def uuid_bytes_def slice_def Let_def)

lemma version_nibble: "drop_bit 4 ((b AND 0x0F) OR 0x70) = (7 :: u8)" for b :: u8
  by simp

lemma variant_nibble: "unat (drop_bit 4 ((b AND 0x3F) OR 0x80)) \<in> {8, 9, 10, 11}" for b :: u8
proof -
  have "drop_bit 4 ((b AND 0x3F) OR 0x80) = (drop_bit 4 b AND 3) OR (8 :: u8)"
    by simp
  moreover have "drop_bit 4 b AND 3 \<in> {0, 1, 2, 3 :: u8}"
  proof -
    have "drop_bit 4 b AND 3 = take_bit 2 (drop_bit 4 b)" by (simp add: take_bit_eq_mask mask_eq_exp_minus_1)
    then have "unat (drop_bit 4 b AND 3) < 4"
      by (simp add: take_bit_eq_mod unat_mod)
    then have "unat (drop_bit 4 b AND 3) \<in> {0, 1, 2, 3}" by auto
    then show ?thesis by (auto simp: word_unat_eq_iff)
  qed
  ultimately show ?thesis by auto
qed

section \<open>Properties\<close>

lemma newUUID_text:
  "length b = 16 \<Longrightarrow> newUUID (Some b) ms = Some u \<Longrightarrow> u = uuid_text (uuid_bytes ms b)"
  by (simp add: newUUID_def)

text \<open>C33: An identifier has the canonical form of a version 7 UUID: groups of 8, 4, 4, 4 and 12
  lower case hexadecimal digits separated by dashes, the third group beginning with the
  version digit 7 and the fourth with the variant digit 8, 9, a or b.\<close>

theorem newUUID_format:
  assumes "length b = 16" "newUUID (Some b) ms = Some u"
  shows "\<exists>A B C D E. u = A @ ''-'' @ B @ ''-'' @ C @ ''-'' @ D @ ''-'' @ E
    \<and> map length [A, B, C, D, E] = [8, 4, 4, 4, 12]
    \<and> set (concat [A, B, C, D, E]) \<subseteq> set ''0123456789abcdef''
    \<and> hd C = CHR ''7'' \<and> hd D \<in> {CHR ''8'', CHR ''9'', CHR ''a'', CHR ''b''}"
proof -
  let ?A = "[time_byte 40 ms, time_byte 32 ms, time_byte 24 ms, time_byte 16 ms]"
  let ?B = "[time_byte 8 ms, time_byte 0 ms]"
  let ?C = "[(b ! 6 AND 0x0F) OR 0x70, b ! 7]" and ?D = "[(b ! 8 AND 0x3F) OR 0x80, b ! 9]"
  have "u = hexEncode ?A @ ''-'' @ hexEncode ?B @ ''-'' @ hexEncode ?C @ ''-'' @ hexEncode ?D @ ''-''
      @ hexEncode (drop 10 b)"
    using newUUID_text [OF assms] uuid_text_bytes [OF assms(1)] by simp
  moreover have "map length [hexEncode ?A, hexEncode ?B, hexEncode ?C, hexEncode ?D, hexEncode (drop 10 b)]
      = [8, 4, 4, 4, 12]"
    using assms(1) by simp
  moreover have "set (concat (map hexEncode bss)) \<subseteq> set hextable" for bss
    using hexEncode_chars by (fastforce simp: list_all_iff)
  note this [of "[?A, ?B, ?C, ?D, drop 10 b]"]
  moreover have "hd (hexEncode ?C) = CHR ''7''" by (simp add: version_nibble hextable_def)
  moreover have "hd (hexEncode ?D) \<in> {CHR ''8'', CHR ''9'', CHR ''a'', CHR ''b''}"
    using variant_nibble [of "b ! 8"] by (auto simp: hextable_def)
  ultimately show ?thesis unfolding list.map hextable_def by blast
qed

definition demo_bytes :: "u8 list" where "demo_bytes = replicate 16 255"

lemma demo_newUUID: "newUUID (Some demo_bytes) ms = Some (uuid_text (uuid_bytes ms demo_bytes))" "length demo_bytes = 16"
  by (simp_all add: newUUID_def demo_bytes_def)

theorem newUUID_format_witness:
  "\<exists>A B C D E. uuid_text (uuid_bytes 1700000000000 demo_bytes) = A @ ''-'' @ B @ ''-'' @ C @ ''-'' @ D @ ''-'' @ E
    \<and> hd C = CHR ''7''"
  using newUUID_format [OF demo_newUUID(2) demo_newUUID(1) [where ms = 1700000000000]] by blast

text \<open>The digits of a number to the base 256, most significant first, are ordered as the
  numbers are.\<close>

lemma digit_mod: "i < k \<Longrightarrow> x mod 256 ^ k div 256 ^ i mod 256 = x div 256 ^ i mod 256" for x :: nat
proof -
  assume "i < k"
  then obtain j where k: "k = i + Suc j" using less_imp_Suc_add by force
  have "x mod 256 ^ k div 256 ^ i = x div 256 ^ i mod 256 ^ Suc j"
    unfolding k power_add by (simp add: mod_mult2_eq)
  then show ?thesis by (simp add: mod_mod_cancel)
qed

lemma digits_less:
  fixes m n :: nat
  assumes "m < n" "n < 256 ^ k"
  shows "map (\<lambda>i. m div 256 ^ i mod 256) (rev [0..<k]) < map (\<lambda>i. n div 256 ^ i mod 256) (rev [0..<k])"
  using assms
proof (induction k arbitrary: m n)
  case (Suc k)
  have top: "n div 256 ^ k < 256" using Suc.prems(2) by (simp add: less_mult_imp_div_less)
  have le: "m div 256 ^ k \<le> n div 256 ^ k" using Suc.prems(1) by (intro div_le_mono) simp
  show ?case
  proof (cases "m div 256 ^ k = n div 256 ^ k")
    case True
    then have "m mod 256 ^ k < n mod 256 ^ k"
      using Suc.prems(1) by (metis add_less_cancel_left div_mult_mod_eq)
    from Suc.IH [OF this] have "map (\<lambda>i. m mod 256 ^ k div 256 ^ i mod 256) (rev [0..<k])
        < map (\<lambda>i. n mod 256 ^ k div 256 ^ i mod 256) (rev [0..<k])" by simp
    moreover have "map (\<lambda>i. x mod 256 ^ k div 256 ^ i mod 256) (rev [0..<k]) = map (\<lambda>i. x div 256 ^ i mod 256) (rev [0..<k])"
      for x :: nat
      by (intro map_cong refl) (simp add: digit_mod)
    ultimately show ?thesis using True by simp
  next
    case False
    with le top show ?thesis by simp
  qed
qed simp

lemma hexEncode_time_less:
  assumes "map (\<lambda>n. unat ms div 2 ^ n mod 256) ns < map (\<lambda>n. unat ms' div 2 ^ n mod 256) ns"
  shows "hexEncode (map (\<lambda>n. time_byte n ms) ns) < hexEncode (map (\<lambda>n. time_byte n ms') ns)"
proof (rule hexEncode_less)
  show "map (\<lambda>n. time_byte n ms) ns < map (\<lambda>n. time_byte n ms') ns"
    using assms by (induction ns) (auto simp: word_less_nat_alt unat_time_byte word_unat_eq_iff)
qed simp

text \<open>Identifiers are ordered by their time: of two identifiers drawn in different
  milliseconds the later one is the greater text, whatever the random bytes, as long as the
  time fits in the 48 bits reserved for it (until the year 10889).\<close>

theorem newUUID_ordered:
  assumes "length b = 16" "length c = 16" "unat ms < unat ms'" "unat ms' < 2 ^ 48"
    and "newUUID (Some b) ms = Some u" "newUUID (Some c) ms' = Some v"
  shows "u < v"
proof -
  let ?m = "unat ms" and ?n = "unat ms'"
  have u: "u = hexEncode (map (\<lambda>n. time_byte n ms) [40, 32, 24, 16]) @ ''-''
      @ hexEncode (map (\<lambda>n. time_byte n ms) [8, 0]) @ drop 13 u"
    using newUUID_text [OF assms(1,5)] uuid_text_bytes [OF assms(1)] by simp
  have v: "v = hexEncode (map (\<lambda>n. time_byte n ms') [40, 32, 24, 16]) @ ''-''
      @ hexEncode (map (\<lambda>n. time_byte n ms') [8, 0]) @ drop 13 v"
    using newUUID_text [OF assms(2,6)] uuid_text_bytes [OF assms(2)] by simp
  have r: "rev [0..<4] = [3, 2, 1, 0 :: nat]" "rev [0..<2] = [1, 0 :: nat]" by (simp_all add: upt_rec)
  show ?thesis
  proof (cases "?m div 2 ^ 16 = ?n div 2 ^ 16")
    case False
    then have "?m div 2 ^ 16 < ?n div 2 ^ 16" using assms(3) by (metis div_le_mono le_less less_imp_le)
    moreover have "?n div 2 ^ 16 < 256 ^ 4" using assms(4) by (simp add: less_mult_imp_div_less)
    ultimately have "map (\<lambda>n. ?m div 2 ^ n mod 256) [40, 32, 24, 16] < map (\<lambda>n. ?n div 2 ^ n mod 256) [40, 32, 24, 16]"
      using digits_less [of "?m div 2 ^ 16" "?n div 2 ^ 16" 4] unfolding r
      by (simp add: div_mult2_eq [symmetric])
    from hexEncode_time_less [OF this] show ?thesis by (subst u, subst v, intro list_less_append) simp_all
  next
    case True
    then have "?m mod 2 ^ 16 < ?n mod 2 ^ 16"
      using assms(3) by (metis add_less_cancel_left div_mult_mod_eq)
    then have "map (\<lambda>n. ?m div 2 ^ n mod 256) [8, 0] < map (\<lambda>n. ?n div 2 ^ n mod 256) [8, 0]"
      using digits_less [of "?m mod 2 ^ 16" "?n mod 2 ^ 16" 2] digit_mod [of 1 2] digit_mod [of 0 2]
      unfolding r by simp
    note low = hexEncode_time_less [OF this]
    have "x div 2 ^ (16 + j) = x div 2 ^ 16 div 2 ^ j" for x j :: nat by (simp add: power_add div_mult2_eq)
    then have "time_byte (16 + j) ms = time_byte (16 + j) ms'" for j
      using True by (simp add: word_unat_eq_iff unat_time_byte)
    from this [of 24] this [of 16] this [of 8] this [of 0]
    have "map (\<lambda>n. time_byte n ms) [40, 32, 24, 16] = map (\<lambda>n. time_byte n ms') [40, 32, 24, 16]" by simp
    then show ?thesis
      by (subst u, subst v) (simp only: append_assoc, intro list_less_prefix list_less_append low, simp)
  qed
qed

theorem newUUID_ordered_witness:
  "uuid_text (uuid_bytes 1700000000000 demo_bytes) < uuid_text (uuid_bytes 1700000000001 (replicate 16 0))"
proof (rule newUUID_ordered [OF demo_newUUID(2) _ _ _ demo_newUUID(1)])
  show "newUUID (Some (replicate 16 0)) 1700000000001 = Some (uuid_text (uuid_bytes 1700000000001 (replicate 16 0)))"
    by (simp add: newUUID_def)
qed simp_all

end
